(* ===== verification/Prelude.thy ===== *)
theory Prelude
  imports Main "HOL-Library.Word" "HOL-Library.Sublist"
begin

text \<open>
  Shared vocabulary of the development: the types that stand for Go's basic types, Go's error
  values with \<open>errors.Is\<close>, results as sums, self-delimiting encodings, and the generic lemmas
  the component theories use.

  \<^item> a Go \<open>string\<close> is an immutable byte sequence: HOL's \<^typ>\<open>string\<close>, whose characters
    are exactly the 256 bytes;
  \<^item> a Go \<open>[]byte\<close> is a \<open>byte list\<close>, with \<open>bytes_of\<close> and \<open>string_of\<close> for the conversions
    \<open>[]byte(s)\<close> and \<open>string(b)\<close>;
  \<^item> \<open>uint64\<close> is a 64-bit word, so its arithmetic wraps as in Go;
  \<^item> \<open>int\<close> values that are only compared and printed are HOL integers;
  \<^item> \<open>(T, error)\<close> results are sums: \<open>Inl\<close> carries the error, \<open>Inr\<close> the value.
\<close>

named_theorems err_defs \<open>definitions of the sentinel errors\<close>
named_theorems go_simps \<open>rewrite rules for the Go primitives\<close>
named_theorems self_delim \<open>self-delimiting encodings\<close>

section \<open>Bytes, strings and machine integers\<close>

type_synonym byte = "8 word"
type_synonym uint32 = "32 word"
type_synonym uint64 = "64 word"

definition bytes_of :: "string \<Rightarrow> byte list" where
  "bytes_of s = map of_char s"

definition string_of :: "byte list \<Rightarrow> string" where
  "string_of bs = map (\<lambda>b. char_of (unat b)) bs"

abbreviation code :: "char \<Rightarrow> nat" where
  "code c \<equiv> of_char c"

lemma unat_of_char [simp]: "unat (of_char c :: byte) = code c"
proof -
  have "(of_char c :: byte) = word_of_nat (code c)"
    by (simp only: of_nat_of_char)
  moreover have "code c < 256"
    by (rule nat_of_char_less_256)
  ultimately show ?thesis
    by (simp only: unat_of_nat) simp
qed

lemma string_of_bytes_of [simp]: "string_of (bytes_of s) = s"
  by (induction s) (simp_all add: string_of_def bytes_of_def)

lemma of_char_char_of_unat [simp]: "(of_char (char_of (unat (b::byte))) :: byte) = b"
proof -
  have "unat b < 256"
    using unsigned_less [of b, where ?'a = nat] by simp
  then have "unat (of_char (char_of (unat b)) :: byte) = unat b"
    by simp
  then show ?thesis
    by (simp add: word_unat_eq_iff)
qed

lemma bytes_of_string_of [simp]: "bytes_of (string_of bs) = bs"
  by (induction bs) (simp_all add: string_of_def bytes_of_def)

lemma bytes_of_inject [simp]: "bytes_of s = bytes_of t \<longleftrightarrow> s = t"
  by (metis string_of_bytes_of)

lemma bytes_of_append: "bytes_of (s @ t) = bytes_of s @ bytes_of t"
  by (simp add: bytes_of_def)

lemma string_of_append: "string_of (s @ t) = string_of s @ string_of t"
  by (simp add: string_of_def)

lemma length_bytes_of [simp]: "length (bytes_of s) = length s"
  by (simp add: bytes_of_def)

lemma length_string_of [simp]: "length (string_of bs) = length bs"
  by (simp add: string_of_def)

text \<open>
  The conversions \<open>uint64(n)\<close> and \<open>uint64(len(xs))\<close>. A Go slice has fewer than \<open>2 ^ 63\<close> elements, so the
  conversion is exact on every slice that can exist.
\<close>

definition max_slice :: nat where
  "max_slice = 2 ^ 63"

definition to_uint64 :: "nat \<Rightarrow> uint64" where
  "to_uint64 n = word_of_nat n"

definition ulen :: "'a list \<Rightarrow> uint64" where
  "ulen xs = to_uint64 (length xs)"

lemma max_slice_less: "n < max_slice \<Longrightarrow> n < 2 ^ 64"
  by (simp add: max_slice_def)

lemma unat_to_uint64 [simp]: "n < max_slice \<Longrightarrow> unat (to_uint64 n) = n"
  using max_slice_less [of n] by (simp add: to_uint64_def unat_of_nat)

lemma sint_to_uint64 [simp]:
  assumes "n < max_slice"
  shows "sint (to_uint64 n) = int n"
  using assms by (simp add: to_uint64_def max_slice_def signed_of_nat signed_take_bit_int_eq_self)

lemma to_uint64_0 [simp]: "to_uint64 0 = 0"
  by (simp add: to_uint64_def)

lemma to_uint64_Suc: "to_uint64 n + 1 = to_uint64 (n + 1)"
  by (simp add: to_uint64_def)

lemma ulen_Nil [simp]: "ulen [] = 0"
  by (simp add: ulen_def)

lemma unat_ulen [simp]: "length xs < max_slice \<Longrightarrow> unat (ulen xs) = length xs"
  by (simp add: ulen_def)

lemma ulen_eq_iff:
  assumes "length xs < max_slice"
  shows "ulen xs = w \<longleftrightarrow> unat w = length xs"
  using assms by (auto simp: word_unat_eq_iff)

lemma ulen_le_iff: "length xs < max_slice \<Longrightarrow> ulen xs \<le> w \<longleftrightarrow> length xs \<le> unat w"
  by (simp add: word_le_nat_alt)

section \<open>Error values\<close>

text \<open>
  \<open>Sentinel s\<close> is a package-level \<open>errors.New(s)\<close> compared with \<open>errors.Is\<close>; \<open>Wrapped p e\<close>
  is \<open>fmt.Errorf("p: %w", e)\<close>; \<open>Errorf s\<close> is an error built where it is returned and never
  compared; \<open>External s\<close> is an error that comes out of code outside the repository; \<open>Panic s\<close> is
  a run-time panic, which ends the call without a result.
\<close>

datatype go_error =
    Sentinel string
  | Wrapped string go_error
  | Errorf string
  | External string
  | Panic string

type_synonym 'a res = "go_error + 'a"

fun errors_Is :: "go_error \<Rightarrow> go_error \<Rightarrow> bool" where
  "errors_Is (Wrapped p e) t = (Wrapped p e = t \<or> errors_Is e t)"
| "errors_Is e t = (e = t)"

fun error_text :: "go_error \<Rightarrow> string" where
  "error_text (Sentinel s) = s"
| "error_text (Wrapped p e) = p @ '': '' @ error_text e"
| "error_text (Errorf s) = s"
| "error_text (External s) = s"
| "error_text (Panic s) = s"

lemma errors_Is_refl [simp]: "errors_Is e e"
  by (cases e) auto

section \<open>Self-delimiting encodings\<close>

text \<open>
  An encoding is self-delimiting on a set when an encoded value can be split off the front of
  any longer text in one way only. Such encodings are injective and compose by concatenation,
  which is what makes a text without length fields unambiguous.
\<close>

definition self_delimiting :: "('a \<Rightarrow> 'b list) \<Rightarrow> 'a set \<Rightarrow> bool" where
  "self_delimiting enc A \<longleftrightarrow>
     (\<forall>x\<in>A. \<forall>y\<in>A. \<forall>u v. enc x @ u = enc y @ v \<longrightarrow> x = y \<and> u = v)"

lemma self_delimitingI [intro]:
  "(\<And>x y u v. x \<in> A \<Longrightarrow> y \<in> A \<Longrightarrow> enc x @ u = enc y @ v \<Longrightarrow> x = y \<and> u = v) \<Longrightarrow>
   self_delimiting enc A"
  unfolding self_delimiting_def by blast

lemma self_delimitingD:
  "self_delimiting enc A \<Longrightarrow> x \<in> A \<Longrightarrow> y \<in> A \<Longrightarrow> enc x @ u = enc y @ v \<Longrightarrow> x = y \<and> u = v"
  unfolding self_delimiting_def by blast

lemma self_delimiting_by_reader:
  assumes "\<And>x u. x \<in> A \<Longrightarrow> read (enc x @ u) = Some (x, u)"
  shows "self_delimiting enc A"
proof
  fix x y u v
  assume "x \<in> A" "y \<in> A" "enc x @ u = enc y @ v"
  then have "Some (x, u) = Some (y, v)"
    using assms by metis
  then show "x = y \<and> u = v"
    by simp
qed

lemma self_delimiting_fixed_length:
  assumes "inj_on enc A" and "\<And>x. x \<in> A \<Longrightarrow> length (enc x) = n"
  shows "self_delimiting enc A"
  using assms by (intro self_delimitingI) (auto dest: inj_onD simp: append_eq_append_conv)

section \<open>Lists\<close>

lemma takeWhile_append_stop:
  "\<lbrakk>\<forall>x\<in>set xs. P x; \<not> P y\<rbrakk> \<Longrightarrow> takeWhile P (xs @ y # zs) = xs"
  by (simp add: takeWhile_append)

lemma append_stop_cancel:
  assumes "\<forall>x\<in>set xs. P x" "\<forall>x\<in>set ys. P x" "\<not> P y" "\<not> P z"
    and "xs @ y # us = ys @ z # vs"
  shows "xs = ys \<and> y = z \<and> us = vs"
proof -
  have "takeWhile P (xs @ y # us) = xs" "takeWhile P (ys @ z # vs) = ys"
    using assms(1-4) by (simp_all add: takeWhile_append_stop)
  then have "xs = ys"
    using assms(5) by simp
  with assms(5) show ?thesis
    by simp
qed

lemma append_eq_append_conv_suffix:
  "length u = length v \<Longrightarrow> xs @ u = ys @ v \<longleftrightarrow> xs = ys \<and> u = v"
  by simp

lemma dropWhile_eq_same_length:
  assumes "length xs = length ys" and "dropWhile P xs = dropWhile P ys"
    and "\<And>x y. P x \<Longrightarrow> P y \<Longrightarrow> x = y"
  shows "xs = ys"
  using assms
proof (induction xs ys rule: list_induct2)
  case Nil
  then show ?case by simp
next
  case (Cons x xs y ys)
  have len: "length (dropWhile P zs) \<le> length zs" for zs
    by (rule length_dropWhile_le)
  show ?case
  proof (cases "P x = P y")
    case True
    then show ?thesis
      using Cons by (cases "P x") auto
  next
    case False
    then show ?thesis
      using Cons.prems Cons.hyps len [of xs] len [of ys] by (auto split: if_splits)
        (metis Suc_n_not_le_n length_Cons)+
  qed
qed

lemma last_drop_length: "i < length xs \<Longrightarrow> last (drop i xs) = last xs"
  by simp

end
