(* ===== verification/Sha256.thy ===== *)
theory Sha256
  imports Prelude
begin

text \<open>
  SHA-256 as the program uses it from Go's \<open>crypto/sha256\<close>: \<open>sha256.Sum256\<close> on a byte slice,
  computed on 32-bit words after FIPS 180-4. The definition is concrete and executable, so no
  theorem of the development assumes anything about the hash function; where a security argument
  needs collision resistance, the theorem exhibits the colliding pair instead.
\<close>

unbundle bit_operations_syntax

section \<open>Padding and blocks\<close>

definition be64 :: "uint64 \<Rightarrow> byte list" where
  "be64 w = map (\<lambda>i. ucast (drop_bit (56 - 8 * i) w)) [0..<8]"

definition be32 :: "uint32 \<Rightarrow> byte list" where
  "be32 w = [ucast (drop_bit 24 w), ucast (drop_bit 16 w), ucast (drop_bit 8 w), ucast w]"

definition sha_pad :: "byte list \<Rightarrow> byte list" where
  "sha_pad bs =
     (let r = length bs mod 64
      in bs @ 0x80 # replicate (if r < 56 then 55 - r else 119 - r) 0
           @ be64 (8 * word_of_nat (length bs)))"

fun words_of :: "byte list \<Rightarrow> uint32 list" where
  "words_of (a # b # c # d # bs) =
     (push_bit 24 (ucast a) OR push_bit 16 (ucast b) OR push_bit 8 (ucast c) OR ucast d)
       # words_of bs"
| "words_of _ = []"

section \<open>The compression function\<close>

definition rotr :: "nat \<Rightarrow> uint32 \<Rightarrow> uint32" where
  "rotr n x = drop_bit n x OR push_bit (32 - n) x"

text \<open>The 64 round constants, in decimal.\<close>

definition sha_K :: "uint32 list" where
  "sha_K =
    [1116352408, 1899447441, 3049323471, 3921009573, 961987163, 1508970993, 2453635748, 2870763221,
     3624381080, 310598401, 607225278, 1426881987, 1925078388, 2162078206, 2614888103, 3248222580,
     3835390401, 4022224774, 264347078, 604807628, 770255983, 1249150122, 1555081692, 1996064986,
     2554220882, 2821834349, 2952996808, 3210313671, 3336571891, 3584528711, 113926993, 338241895,
     666307205, 773529912, 1294757372, 1396182291, 1695183700, 1986661051, 2177026350, 2456956037,
     2730485921, 2820302411, 3259730800, 3345764771, 3516065817, 3600352804, 4094571909, 275423344,
     430227734, 506948616, 659060556, 883997877, 958139571, 1322822218, 1537002063, 1747873779,
     1955562222, 2024104815, 2227730452, 2361852424, 2428436474, 2756734187, 3204031479, 3329325298]"

text \<open>
  The message schedule, newest word first: the word at distance \<open>k + 1\<close> back from the next one
  is at index \<open>k\<close>.
\<close>

fun sha_extend :: "nat \<Rightarrow> uint32 list \<Rightarrow> uint32 list" where
  "sha_extend 0 ws = ws"
| "sha_extend (Suc n) ws =
     (let x = ws ! 14; y = ws ! 1;
          s0 = rotr 7 x XOR rotr 18 x XOR drop_bit 3 x;
          s1 = rotr 17 y XOR rotr 19 y XOR drop_bit 10 y
      in sha_extend n ((s1 + ws ! 6 + s0 + ws ! 15) # ws))"

type_synonym sha_state =
  "uint32 \<times> uint32 \<times> uint32 \<times> uint32 \<times> uint32 \<times> uint32 \<times> uint32 \<times> uint32"

fun sha_round :: "uint32 \<times> uint32 \<Rightarrow> sha_state \<Rightarrow> sha_state" where
  "sha_round (k, w) (a, b, c, d, e, f, g, h) =
     (let t1 = h + (rotr 6 e XOR rotr 11 e XOR rotr 25 e) + ((e AND f) XOR (NOT e AND g)) + k + w;
          t2 = (rotr 2 a XOR rotr 13 a XOR rotr 22 a) + ((a AND b) XOR (a AND c) XOR (b AND c))
      in (t1 + t2, a, b, c, d + t1, e, f, g))"

fun sha_add :: "sha_state \<Rightarrow> sha_state \<Rightarrow> sha_state" where
  "sha_add (a, b, c, d, e, f, g, h) (a', b', c', d', e', f', g', h') =
     (a + a', b + b', c + c', d + d', e + e', f + f', g + g', h + h')"

definition sha_block :: "sha_state \<Rightarrow> byte list \<Rightarrow> sha_state" where
  "sha_block H blk =
     sha_add H (fold sha_round (zip sha_K (rev (sha_extend 48 (rev (words_of blk))))) H)"

definition sha_init :: sha_state where
  "sha_init = (0x6a09e667, 0xbb67ae85, 0x3c6ef372, 0xa54ff53a,
               0x510e527f, 0x9b05688c, 0x1f83d9ab, 0x5be0cd19)"

function sha_blocks :: "sha_state \<Rightarrow> byte list \<Rightarrow> sha_state" where
  "sha_blocks H bs = (if bs = [] then H else sha_blocks (sha_block H (take 64 bs)) (drop 64 bs))"
  by pat_completeness auto
termination
  by (relation "measure (\<lambda>(H, bs). length bs)") auto

declare sha_blocks.simps [simp del]

fun sha_output :: "sha_state \<Rightarrow> byte list" where
  "sha_output (a, b, c, d, e, f, g, h) =
     be32 a @ be32 b @ be32 c @ be32 d @ be32 e @ be32 f @ be32 g @ be32 h"

definition sha256 :: "byte list \<Rightarrow> byte list" where
  "sha256 bs = sha_output (sha_blocks sha_init (sha_pad bs))"

section \<open>Facts the program relies on\<close>

lemma length_sha256 [simp]: "length (sha256 bs) = 32"
  by (cases "sha_blocks sha_init (sha_pad bs)" rule: sha_output.cases)
     (simp add: sha256_def be32_def)

lemma sha_pad_aligned: "length (sha_pad bs) mod 64 = 0"
proof -
  define q r where "q = length bs div 64" and "r = length bs mod 64"
  have len: "length bs = 64 * q + r" and r: "r < 64"
    by (simp_all add: q_def r_def)
  have "length (sha_pad bs) = length bs + 1 + (if r < 56 then 55 - r else 119 - r) + 8"
    by (simp add: sha_pad_def be64_def Let_def r_def)
  also have "\<dots> = 64 * q + (if r < 56 then 64 else 128)"
    using r by (simp add: len)
  finally show ?thesis
    by simp
qed

section \<open>Collisions\<close>

definition sha256_collision :: "byte list \<Rightarrow> byte list \<Rightarrow> bool" where
  "sha256_collision x y \<longleftrightarrow> x \<noteq> y \<and> sha256 x = sha256 y"

text \<open>Two sets of hash inputs collide when some input of one collides with one of the other.\<close>

definition collide :: "byte list set \<Rightarrow> byte list set \<Rightarrow> bool" where
  "collide X Y \<longleftrightarrow> (\<exists>x\<in>X. \<exists>y\<in>Y. sha256_collision x y)"

lemma collideI: "x \<in> X \<Longrightarrow> y \<in> Y \<Longrightarrow> x \<noteq> y \<Longrightarrow> sha256 x = sha256 y \<Longrightarrow> collide X Y"
  by (auto simp: collide_def sha256_collision_def)

lemma collide_mono: "collide X Y \<Longrightarrow> X \<subseteq> X' \<Longrightarrow> Y \<subseteq> Y' \<Longrightarrow> collide X' Y'"
  by (auto simp: collide_def)

lemma collide_UnI: "collide X Y \<or> collide X' Y' \<Longrightarrow> collide (X \<union> X') (Y \<union> Y')"
  by (auto simp: collide_def)

end
