(* ===== verification/Go_Encoding.thy ===== *)
theory Go_Encoding
  imports Prelude "HOL-Library.List_Lexorder" "HOL-Library.Char_ord"
begin

text \<open>
  The text encodings the program takes from Go's standard library: lower-case hexadecimal
  (\<open>encoding/hex\<close>), decimal (\<open>strconv.Itoa\<close>, the \<open>%d\<close> verb), standard Base64
  (\<open>encoding/base64.StdEncoding\<close>) and \<open>json.Marshal\<close> of a \<open>map[string]string\<close>, with the
  lemmas that make them usable in a canonical form: each is injective where it should be, and the
  JSON string encoding is self-delimiting on valid UTF-8.
\<close>

section \<open>Decimal numerals\<close>

definition digit_char :: "nat \<Rightarrow> char" where
  "digit_char d = char_of (48 + d)"

fun dec_nat :: "nat \<Rightarrow> string" where
  "dec_nat n = (if n < 10 then [digit_char n] else dec_nat (n div 10) @ [digit_char (n mod 10)])"

declare dec_nat.simps [simp del]

definition dec_int :: "int \<Rightarrow> string" where
  "dec_int i = (if i < 0 then CHR ''-'' # dec_nat (nat (- i)) else dec_nat (nat i))"

definition is_digit :: "char \<Rightarrow> bool" where
  "is_digit c \<longleftrightarrow> 48 \<le> code c \<and> code c \<le> 57"

lemma code_digit_char [simp]: "d < 10 \<Longrightarrow> code (digit_char d) = 48 + d"
  by (simp add: digit_char_def)

lemma is_digit_digit_char [simp]: "d < 10 \<Longrightarrow> is_digit (digit_char d)"
  by (simp add: is_digit_def)

lemma dec_nat_digits: "c \<in> set (dec_nat n) \<Longrightarrow> is_digit c"
proof (induction n rule: dec_nat.induct)
  case (1 n)
  show ?case
  proof (cases "n < 10")
    case True
    with "1.prems" show ?thesis by (simp add: dec_nat.simps [of n])
  next
    case False
    with "1" show ?thesis by (auto simp: dec_nat.simps [of n])
  qed
qed

lemma dec_nat_not_Nil [simp]: "dec_nat n \<noteq> []"
  by (subst dec_nat.simps) simp

text \<open>Reading a numeral back.\<close>

definition undec :: "string \<Rightarrow> nat" where
  "undec s = foldl (\<lambda>n c. 10 * n + (code c - 48)) 0 s"

lemma undec_dec_nat [simp]: "undec (dec_nat n) = n"
proof (induction n rule: dec_nat.induct)
  case (1 n)
  show ?case
  proof (cases "n < 10")
    case True
    then show ?thesis by (simp add: dec_nat.simps [of n] undec_def)
  next
    case False
    with "1.IH" show ?thesis by (simp add: dec_nat.simps [of n] undec_def)
  qed
qed

lemma dec_nat_inject [simp]: "dec_nat m = dec_nat n \<longleftrightarrow> m = n"
  by (metis undec_dec_nat)

lemma digit_not_minus [simp]: "is_digit c \<Longrightarrow> c \<noteq> CHR ''-''"
  by (auto simp: is_digit_def)

lemma dec_nat_not_minus: "dec_nat n \<noteq> CHR ''-'' # s"
  using dec_nat_digits [of "CHR ''-''" n] by (force simp: is_digit_def)

lemma dec_int_inject [simp]: "dec_int i = dec_int j \<longleftrightarrow> i = j"
  using dec_nat_not_minus dec_nat_not_minus [symmetric]
  by (auto simp: dec_int_def nat_eq_iff split: if_splits)

lemma length_dec_nat: "n < 10 ^ k \<Longrightarrow> 0 < k \<Longrightarrow> length (dec_nat n) \<le> k"
proof (induction n arbitrary: k rule: dec_nat.induct)
  case (1 n)
  show ?case
  proof (cases "n < 10")
    case True
    with "1.prems" show ?thesis by (simp add: dec_nat.simps [of n])
  next
    case False
    with "1.prems" obtain j where k: "k = Suc j" "0 < j"
      by (cases k; cases "k - 1") auto
    with "1.prems" have "n div 10 < 10 ^ j"
      by (simp add: less_mult_imp_div_less mult.commute)
    with False k "1.IH" [of j] show ?thesis
      by (simp add: dec_nat.simps [of n])
  qed
qed

section \<open>Hexadecimal\<close>

definition hex_char :: "nat \<Rightarrow> char" where
  "hex_char d = (if d < 10 then char_of (48 + d) else char_of (87 + d))"

definition hex_byte :: "byte \<Rightarrow> string" where
  "hex_byte b = [hex_char (unat b div 16), hex_char (unat b mod 16)]"

definition hex_encode :: "byte list \<Rightarrow> string" where
  "hex_encode bs = concat (map hex_byte bs)"

definition is_hex :: "char \<Rightarrow> bool" where
  "is_hex c \<longleftrightarrow> is_digit c \<or> (97 \<le> code c \<and> code c \<le> 102)"

definition unhex :: "char \<Rightarrow> nat" where
  "unhex c = (if code c < 58 then code c - 48 else code c - 87)"

lemma unhex_hex_char [simp]: "d < 16 \<Longrightarrow> unhex (hex_char d) = d"
  by (auto simp: unhex_def hex_char_def)

lemma is_hex_hex_char [simp]: "d < 16 \<Longrightarrow> is_hex (hex_char d)"
  by (auto simp: is_hex_def is_digit_def hex_char_def)

lemma unat_byte_less [simp]: "unat (b::byte) < 256"
  using unsigned_less [of b, where ?'a = nat] by simp

lemma unat_byte_div [simp]: "unat (b::byte) div 16 < 16"
  using unat_byte_less [of b] by (simp add: less_mult_imp_div_less)

lemma hex_byte_inject: "hex_byte a = hex_byte b \<longleftrightarrow> a = b"
proof
  assume "hex_byte a = hex_byte b"
  then have "unhex (hex_char (unat a div 16)) = unhex (hex_char (unat b div 16))"
    and "unhex (hex_char (unat a mod 16)) = unhex (hex_char (unat b mod 16))"
    by (simp_all add: hex_byte_def)
  then have "unat a div 16 = unat b div 16" "unat a mod 16 = unat b mod 16"
    by simp_all
  then have "unat a = unat b"
    by (metis div_mult_mod_eq)
  then show "a = b"
    by (simp add: word_unat_eq_iff)
qed simp

lemma length_hex_byte [simp]: "length (hex_byte b) = 2"
  by (simp add: hex_byte_def)

lemma length_hex_encode [simp]: "length (hex_encode bs) = 2 * length bs"
  by (induction bs) (simp_all add: hex_encode_def)

lemma hex_encode_inject [simp]: "hex_encode as = hex_encode bs \<longleftrightarrow> as = bs"
proof (induction as arbitrary: bs)
  case Nil
  then show ?case by (cases bs) (simp_all add: hex_encode_def hex_byte_def)
next
  case (Cons a as)
  have "hex_byte a @ hex_encode as = hex_byte b @ hex_encode bs' \<longleftrightarrow>
      a = b \<and> as = bs'" for b bs'
    by (simp add: append_eq_append_conv hex_byte_inject Cons.IH)
  then show ?case
    by (cases bs) (simp_all add: hex_encode_def hex_byte_def [of a])
qed

lemma hex_encode_is_hex: "c \<in> set (hex_encode bs) \<Longrightarrow> is_hex c"
  by (auto simp: hex_encode_def hex_byte_def)

lemma hex_not_colon: "is_hex c \<Longrightarrow> c \<noteq> CHR '':''"
  by (auto simp: is_hex_def is_digit_def)

lemma digit_not_colon: "is_digit c \<Longrightarrow> c \<noteq> CHR '':''"
  by (auto simp: is_digit_def)

section \<open>Base64\<close>

definition b64_char :: "nat \<Rightarrow> char" where
  "b64_char d =
     char_of (if d < 26 then 65 + d else if d < 52 then 71 + d else if d < 62 then d - 4
              else if d = 62 then 43 else 47)"

fun base64_encode :: "byte list \<Rightarrow> string" where
  "base64_encode [] = []"
| "base64_encode [a] =
     [b64_char (unat a div 4), b64_char (unat a mod 4 * 16), CHR ''='', CHR ''='']"
| "base64_encode [a, b] =
     [b64_char (unat a div 4), b64_char (unat a mod 4 * 16 + unat b div 16),
      b64_char (unat b mod 16 * 4), CHR ''='']"
| "base64_encode (a # b # c # bs) =
     [b64_char (unat a div 4), b64_char (unat a mod 4 * 16 + unat b div 16),
      b64_char (unat b mod 16 * 4 + unat c div 64), b64_char (unat c mod 64)] @ base64_encode bs"

definition b64_code :: "char \<Rightarrow> nat" where
  "b64_code ch =
     (let n = code ch
      in if n = 43 then 62 else if n = 47 then 63 else if n < 58 then n + 4
         else if n < 91 then n - 65 else n - 71)"

lemma b64_code_char [simp]: "d < 64 \<Longrightarrow> b64_code (b64_char d) = d"
  by (auto simp: b64_code_def b64_char_def Let_def)

lemma b64_char_not_pad: "d < 64 \<Longrightarrow> b64_char d \<noteq> CHR ''=''"
  using of_char_eq_iff [of "b64_char d" "CHR ''=''", where ?'a = nat]
  by (auto simp: b64_char_def split: if_splits)

lemma b64_char_eq_iff: "d < 64 \<Longrightarrow> e < 64 \<Longrightarrow> b64_char d = b64_char e \<longleftrightarrow> d = e"
  by (metis b64_code_char)

text \<open>
  A three-byte group is four sextets; a sextet that spans two bytes is \<open>join\<close> of the low part of
  the first and the high part of the second, and both parts can be read back.
\<close>

lemma digits_bound: "x < m \<Longrightarrow> y < k \<Longrightarrow> x * k + y < m * (k::nat)"
proof -
  assume "x < m" "y < k"
  then have "x * k + y < Suc x * k" "Suc x * k \<le> m * k"
    by (simp, intro mult_le_mono1 Suc_leI)
  then show ?thesis
    by (rule less_le_trans)
qed

lemma digits_inject:
  fixes x y k :: nat
  assumes "x * k + y = x' * k + y'" "y < k" "y' < k"
  shows "x = x' \<and> y = y'"
proof -
  have "(x * k + y) div k = x" "(x' * k + y') div k = x'"
    using assms(2,3) by simp_all
  with assms(1) show ?thesis by simp
qed

definition hi :: "nat \<Rightarrow> byte \<Rightarrow> nat" where
  "hi k b = unat b div k"

definition lo :: "nat \<Rightarrow> byte \<Rightarrow> nat" where
  "lo k b = unat b mod k"

lemma hi_less: "m * k = 256 \<Longrightarrow> hi k b < m"
  using unat_byte_less [of b] by (simp add: hi_def less_mult_imp_div_less)

lemma hi_bounds [simp]: "hi 4 b < 64" "hi 16 b < 16" "hi 64 b < 4"
  by (simp_all add: hi_less)

lemma lo_bounds [simp]: "lo 4 b < 4" "lo 16 b < 16" "lo 64 b < 64"
  by (simp_all add: lo_def)

lemma sextets_less [simp]:
  "lo 4 a * 16 + hi 16 b < 64" "lo 16 b * 4 + hi 64 c < 64" "lo 4 a * 16 < 64" "lo 16 b * 4 < 64"
  using digits_bound [of "lo 4 a" 4 "hi 16 b" 16] digits_bound [of "lo 16 b" 16 "hi 64 c" 4]
    digits_bound [of "lo 4 a" 4 0 16] digits_bound [of "lo 16 b" 16 0 4]
  by simp_all

lemma sextets_eq [simp]:
  "lo 4 a * 16 + hi 16 b = lo 4 a' * 16 + hi 16 b' \<longleftrightarrow> lo 4 a = lo 4 a' \<and> hi 16 b = hi 16 b'"
  "lo 16 b * 4 + hi 64 c = lo 16 b' * 4 + hi 64 c' \<longleftrightarrow> lo 16 b = lo 16 b' \<and> hi 64 c = hi 64 c'"
  using digits_inject [of "lo 4 a" 16 "hi 16 b" "lo 4 a'" "hi 16 b'"]
    digits_inject [of "lo 16 b" 4 "hi 64 c" "lo 16 b'" "hi 64 c'"]
  by auto

lemma hi_lo_eqI: "hi k a = hi k b \<Longrightarrow> lo k a = lo k b \<Longrightarrow> a = b"
  unfolding hi_def lo_def word_unat_eq_iff by (metis div_mult_mod_eq)

lemmas base64_encode_hi_lo = base64_encode.simps [folded hi_def lo_def]

lemmas b64_solve = base64_encode_hi_lo b64_char_eq_iff b64_char_not_pad b64_char_not_pad [symmetric]

lemma base64_encode_inject [simp]: "base64_encode as = base64_encode bs \<longleftrightarrow> as = bs"
proof
  show "base64_encode as = base64_encode bs \<Longrightarrow> as = bs"
  proof (induction as arbitrary: bs rule: base64_encode.induct)
    case 1
    then show ?case by (cases bs rule: base64_encode.cases) auto
  next
    case (2 a)
    then show ?case
      by (cases bs rule: base64_encode.cases)
         (auto simp del: base64_encode.simps simp: b64_solve intro: hi_lo_eqI [of 4])
  next
    case (3 a b)
    then show ?case
      by (cases bs rule: base64_encode.cases)
         (auto simp del: base64_encode.simps simp: b64_solve
           intro: hi_lo_eqI [of 4] hi_lo_eqI [of 16])
  next
    case (4 a b c as)
    then show ?case
      by (cases bs rule: base64_encode.cases)
         (auto simp del: base64_encode.simps simp: b64_solve
           intro: hi_lo_eqI [of 4] hi_lo_eqI [of 16] hi_lo_eqI [of 64])
  qed
qed simp

lemma ascii_b64_char: "d < 64 \<Longrightarrow> code (b64_char d) < 128"
  by (auto simp: b64_char_def)

lemma ascii_base64: "ch \<in> set (base64_encode bs) \<Longrightarrow> code ch < 128"
proof (induction bs rule: base64_encode.induct)
qed (auto simp del: base64_encode.simps simp: base64_encode_hi_lo ascii_b64_char)

section \<open>UTF-8 and JSON strings\<close>

text \<open>
  \<open>rune_len s\<close> is the size of the UTF-8 sequence at the front of \<open>s\<close>, and 0 where
  \<open>utf8.DecodeRuneInString\<close> answers \<open>(RuneError, 1)\<close> (an invalid or truncated sequence) or the
  string is empty.
\<close>

definition between :: "nat \<Rightarrow> nat \<Rightarrow> char \<Rightarrow> bool" where
  "between l h c \<longleftrightarrow> l \<le> code c \<and> code c \<le> h"

fun rune_len :: "string \<Rightarrow> nat" where
  "rune_len [] = 0"
| "rune_len (a # s) =
     (if code a < 0x80 then 1
      else case s of [] \<Rightarrow> 0 | b # s' \<Rightarrow>
        if between 0xC2 0xDF a then (if between 0x80 0xBF b then 2 else 0)
        else case s' of [] \<Rightarrow> 0 | c # s'' \<Rightarrow>
          if between 0xE0 0xEF a then
            (if between (if code a = 0xE0 then 0xA0 else 0x80) (if code a = 0xED then 0x9F else 0xBF) b
                \<and> between 0x80 0xBF c then 3 else 0)
          else case s'' of [] \<Rightarrow> 0 | d # _ \<Rightarrow>
            if between 0xF0 0xF4 a
                \<and> between (if code a = 0xF0 then 0x90 else 0x80) (if code a = 0xF4 then 0x8F else 0xBF) b
                \<and> between 0x80 0xBF c \<and> between 0x80 0xBF d then 4 else 0)"

text \<open>\<open>utf8.ValidString\<close>.\<close>

function utf8_valid :: "string \<Rightarrow> bool" where
  "utf8_valid s =
     (if s = [] then True
      else if rune_len s = 0 then False
      else utf8_valid (drop (rune_len s) s))"
  by pat_completeness auto
termination
  by (relation "measure length") auto

declare utf8_valid.simps [simp del]

text \<open>
  \<open>encoding/json\<close>'s \<open>appendString\<close> with HTML escaping, as \<open>json.Marshal\<close> uses it: quotes,
  backslashes and control characters are escaped, so are \<open><\<close>, \<open>>\<close> and \<open>&\<close> and the two
  separators U+2028 and U+2029, and every byte that does not start a valid UTF-8 sequence becomes
  the six characters \<open>\ufffd\<close>.
\<close>

definition backslash :: char where
  "backslash = CHR 0x5C"

definition dquote :: char where
  "dquote = CHR 0x22"

definition esc_ascii :: "char \<Rightarrow> string" where
  "esc_ascii c =
     (if c = dquote \<or> c = backslash then [backslash, c]
      else if c = CHR 0x08 then [backslash, CHR ''b'']
      else if c = CHR 0x0C then [backslash, CHR ''f'']
      else if c = CHR 0x0A then [backslash, CHR ''n'']
      else if c = CHR 0x0D then [backslash, CHR ''r'']
      else if c = CHR 0x09 then [backslash, CHR ''t'']
      else if code c < 32 \<or> c \<in> {CHR ''<'', CHR ''>'', CHR ''&''}
        then [backslash, CHR ''u'', CHR ''0'', CHR ''0'', hex_char (code c div 16), hex_char (code c mod 16)]
      else [c])"

definition u_2028 :: string where
  "u_2028 = [CHR 0xE2, CHR 0x80, CHR 0xA8]"

definition u_2029 :: string where
  "u_2029 = [CHR 0xE2, CHR 0x80, CHR 0xA9]"

definition esc_rune :: "string \<Rightarrow> string" where
  "esc_rune r =
     (if r = u_2028 then backslash # ''u2028''
      else if r = u_2029 then backslash # ''u2029''
      else r)"

function json_escape :: "string \<Rightarrow> string" where
  "json_escape s =
     (if s = [] then []
      else if code (hd s) < 0x80 then esc_ascii (hd s) @ json_escape (tl s)
      else if rune_len s = 0 then backslash # ''ufffd'' @ json_escape (tl s)
      else esc_rune (take (rune_len s) s) @ json_escape (drop (rune_len s) s))"
  by pat_completeness auto
termination
  by (relation "measure length") auto

declare json_escape.simps [simp del]

definition json_string :: "string \<Rightarrow> string" where
  "json_string s = dquote # json_escape s @ [dquote]"

text \<open>A reader for JSON strings as \<open>json_escape\<close> writes them, up to the closing quote.\<close>

definition read_u4 :: "string \<Rightarrow> string option" where
  "read_u4 h =
     (if h = ''2028'' then Some u_2028 else if h = ''2029'' then Some u_2029
      else if take 2 h = ''00'' then Some [char_of (16 * unhex (h ! 2) + unhex (h ! 3))]
      else None)"

definition unesc_char :: "char \<Rightarrow> char" where
  "unesc_char c =
     (if c = CHR ''b'' then CHR 0x08 else if c = CHR ''f'' then CHR 0x0C
      else if c = CHR ''n'' then CHR 0x0A else if c = CHR ''r'' then CHR 0x0D
      else if c = CHR ''t'' then CHR 0x09 else c)"

definition prepend :: "string \<Rightarrow> (string \<times> string) option \<Rightarrow> (string \<times> string) option" where
  "prepend c = map_option (\<lambda>(r, u). (c @ r, u))"

function json_read :: "string \<Rightarrow> (string \<times> string) option" where
  "json_read s =
     (if s = [] then None
      else if hd s = dquote then Some ([], tl s)
      else if hd s \<noteq> backslash then prepend [hd s] (json_read (tl s))
      else if tl s = [] then None
      else if hd (tl s) = CHR ''u'' then
        (case read_u4 (take 4 (drop 2 s)) of None \<Rightarrow> None
         | Some c \<Rightarrow> prepend c (json_read (drop 6 s)))
      else prepend [unesc_char (hd (tl s))] (json_read (drop 2 s)))"
  by pat_completeness auto
termination
  by (relation "measure length") auto

declare json_read.simps [simp del]

lemma code_special [simp]: "code backslash = 92" "code dquote = 34"
  by (simp_all add: backslash_def dquote_def)

lemma special_distinct [simp]: "backslash \<noteq> dquote" "dquote \<noteq> backslash"
  by (simp_all add: backslash_def dquote_def)

lemma prepend_simps [simp]:
  "prepend c None = None" "prepend c (Some (r, u)) = Some (c @ r, u)"
  "prepend [] x = x" "prepend c (prepend d x) = prepend (c @ d) x"
  by (cases x; auto simp: prepend_def)+

text \<open>Reading one escaped character.\<close>

lemma json_read_raws:
  "\<forall>c\<in>set r. c \<noteq> dquote \<and> c \<noteq> backslash \<Longrightarrow> json_read (r @ s) = prepend r (json_read s)"
proof (induction r)
  case (Cons c r)
  then show ?case by (subst json_read.simps) simp
qed simp

lemma json_read_simple:
  "c \<noteq> CHR ''u'' \<Longrightarrow> json_read (backslash # c # s) = prepend [unesc_char c] (json_read s)"
  by (subst json_read.simps) simp

lemma json_read_u:
  "length h = 4 \<Longrightarrow> read_u4 h = Some x \<Longrightarrow>
   json_read (backslash # CHR ''u'' # h @ s) = prepend x (json_read s)"
  by (subst json_read.simps) simp

lemma read_u4_00: "code c < 256 \<Longrightarrow>
   read_u4 [CHR ''0'', CHR ''0'', hex_char (code c div 16), hex_char (code c mod 16)] = Some [c]"
  using unhex_hex_char [of "code c div 16"] unhex_hex_char [of "code c mod 16"]
  by (simp add: read_u4_def less_mult_imp_div_less)

lemma json_read_esc_ascii: "json_read (esc_ascii c @ s) = prepend [c] (json_read s)"
proof -
  have "json_read (backslash # CHR ''u'' #
      [CHR ''0'', CHR ''0'', hex_char (code c div 16), hex_char (code c mod 16)] @ s)
      = prepend [c] (json_read s)"
    by (rule json_read_u) (simp_all add: read_u4_00)
  moreover have "json_read (backslash # c # s) = prepend [c] (json_read s)"
    if "c = dquote \<or> c = backslash"
    using that by (subst json_read_simple) (auto simp: unesc_char_def dquote_def backslash_def)
  ultimately show ?thesis
    using json_read_raws [of "[c]" s]
    by (auto simp: esc_ascii_def json_read_simple unesc_char_def)
qed

lemma between_high: "between l h c \<Longrightarrow> 128 \<le> l \<Longrightarrow> 128 \<le> code c"
  by (simp add: between_def)

lemma high_not_special: "128 \<le> code c \<Longrightarrow> c \<noteq> dquote \<and> c \<noteq> backslash"
  by auto

lemma rune_len_cases:
  assumes "1 < rune_len s"
  obtains a b t where "s = a # b # t" "rune_len s = 2" "128 \<le> code a" "128 \<le> code b"
  | a b c t where "s = a # b # c # t" "rune_len s = 3" "128 \<le> code a" "128 \<le> code b" "128 \<le> code c"
  | a b c d t where "s = a # b # c # d # t" "rune_len s = 4"
      "128 \<le> code a" "128 \<le> code b" "128 \<le> code c" "128 \<le> code d"
proof -
  from assms obtain a b t where s: "s = a # b # t" and a: "128 \<le> code a"
    by (cases s; cases "tl s") (auto split: if_splits)
  consider "between 0xC2 0xDF a" | "\<not> between 0xC2 0xDF a" "between 0xE0 0xEF a"
    | "\<not> between 0xC2 0xDF a" "\<not> between 0xE0 0xEF a"
    by blast
  then show thesis
  proof cases
    case 1
    with assms a have "between 0x80 0xBF b"
      by (simp add: s split: if_splits)
    with 1 a show thesis
      by (intro that(1) [OF s]) (simp_all add: s between_def)
  next
    case 2
    with assms a obtain c u where t: "t = c # u"
      by (cases t) (auto simp: s)
    let ?l = "if code a = 0xE0 then 0xA0 else 0x80 :: nat"
    let ?h = "if code a = 0xED then 0x9F else 0xBF :: nat"
    from 2 assms a have *: "between ?l ?h b \<and> between 0x80 0xBF c"
      by (simp only: s t rune_len.simps list.case if_False not_less [symmetric] split: if_split_asm)
        simp_all
    then have "128 \<le> code b" "128 \<le> code c"
      by (auto elim!: between_high)
    moreover from * 2 a have "rune_len s = 3"
      by (simp add: s t)
    ultimately show thesis
      using a by (intro that(2) [OF s [unfolded t]])
  next
    case 3
    with assms a obtain c d u where t: "t = c # d # u"
      by (cases t; cases "tl t") (auto simp: s)
    let ?l = "if code a = 0xF0 then 0x90 else 0x80 :: nat"
    let ?h = "if code a = 0xF4 then 0x8F else 0xBF :: nat"
    from 3 assms a have *: "between 0xF0 0xF4 a \<and> between ?l ?h b \<and> between 0x80 0xBF c
        \<and> between 0x80 0xBF d"
      by (simp only: s t rune_len.simps list.case if_False not_less [symmetric] split: if_split_asm)
    then have "128 \<le> code b" "128 \<le> code c" "128 \<le> code d"
      by (auto elim!: between_high)
    moreover from * 3 a have "rune_len s = 4"
      by (simp add: s t)
    ultimately show thesis
      using a by (intro that(3) [OF s [unfolded t]])
  qed
qed

lemma rune_raw:
  assumes "1 < rune_len s" "c \<in> set (take (rune_len s) s)"
  shows "c \<noteq> dquote \<and> c \<noteq> backslash"
  using assms(1)
proof (cases rule: rune_len_cases)
qed (use assms(2) in \<open>auto dest!: high_not_special\<close>)

lemma json_read_esc_rune:
  assumes "rune_len s = n" "1 < n"
  shows "json_read (esc_rune (take n s) @ t) = prepend (take n s) (json_read t)"
proof -
  have "json_read (backslash # CHR ''u'' # ''2028'' @ t) = prepend u_2028 (json_read t)"
    "json_read (backslash # CHR ''u'' # ''2029'' @ t) = prepend u_2029 (json_read t)"
    by (rule json_read_u; simp add: read_u4_def)+
  moreover have "json_read (take n s @ t) = prepend (take n s) (json_read t)"
    using rune_raw [of s] assms by (intro json_read_raws) auto
  ultimately show ?thesis
    by (simp add: esc_rune_def)
qed

lemma rune_len_ascii: "s \<noteq> [] \<Longrightarrow> rune_len s = 1 \<longleftrightarrow> code (hd s) < 128"
  by (cases s) (auto split: list.splits)

lemma json_read_escape:
  "utf8_valid s \<Longrightarrow> json_read (json_escape s @ dquote # u) = Some (s, u)"
proof (induction s rule: json_escape.induct)
  case (1 s)
  consider "s = []" | "s \<noteq> []" "code (hd s) < 128" | "s \<noteq> []" "1 < rune_len s" "\<not> code (hd s) < 128"
    using "1.prems" rune_len_ascii [of s]
    by (cases "s = []") (auto simp: utf8_valid.simps [of s] split: if_splits)
  then show ?case
  proof cases
    case 1
    then show ?thesis by (simp add: json_escape.simps json_read.simps)
  next
    case 2
    then have "utf8_valid (tl s)"
      using "1.prems" rune_len_ascii [of s] by (simp add: utf8_valid.simps [of s] drop_Suc)
    with 2 "1.IH"(1) have "json_read (json_escape (tl s) @ dquote # u) = Some (tl s, u)"
      by simp
    with 2 show ?thesis
      by (simp add: json_escape.simps [of s] json_read_esc_ascii)
  next
    case 3
    then have "utf8_valid (drop (rune_len s) s)"
      using "1.prems" by (simp add: utf8_valid.simps [of s])
    with 3 "1.IH"(3) have
      "json_read (json_escape (drop (rune_len s) s) @ dquote # u) = Some (drop (rune_len s) s, u)"
      by simp
    with 3 show ?thesis
      by (simp add: json_escape.simps [of s] json_read_esc_rune)
  qed
qed

lemma json_string_self_delimiting [self_delim]: "self_delimiting json_string {s. utf8_valid s}"
  by (rule self_delimiting_by_reader [where read = "\<lambda>s. json_read (tl s)"])
     (simp add: json_string_def json_read_escape)

lemma utf8_valid_ascii: "\<forall>c\<in>set s. code c < 128 \<Longrightarrow> utf8_valid s"
proof (induction s)
  case (Cons c s)
  then show ?case by (subst utf8_valid.simps) simp
qed (simp add: utf8_valid.simps)

section \<open>JSON objects of strings\<close>

text \<open>\<open>json.Marshal\<close> of a \<open>map[string]string\<close>: members sorted by key, no white space.\<close>

definition json_member :: "string \<times> string \<Rightarrow> string" where
  "json_member kv = json_string (fst kv) @ '':'' @ json_string (snd kv)"

fun join_comma :: "string list \<Rightarrow> string" where
  "join_comma [] = []"
| "join_comma [x] = x"
| "join_comma (x # xs) = x @ '','' @ join_comma xs"

definition json_marshal_map :: "(string \<times> string) list \<Rightarrow> string" where
  "json_marshal_map kvs = ''{'' @ join_comma (map json_member (sort_key fst kvs)) @ ''}''"

lemma json_string_cancel:
  assumes "utf8_valid v" "utf8_valid w" "json_string v @ u = json_string w @ t"
  shows "v = w \<and> u = t"
  using self_delimitingD [OF json_string_self_delimiting] assms by blast

text \<open>
  Two objects with the same keys in the same order and valid values are equal texts, followed by
  anything, only if all values and the continuations agree.
\<close>

lemma join_members_cancel:
  assumes "length vs = length ks" "length ws = length ks" "ks \<noteq> []"
    and "\<forall>v\<in>set vs. utf8_valid v" "\<forall>w\<in>set ws. utf8_valid w"
    and "join_comma (map json_member (zip ks vs)) @ u = join_comma (map json_member (zip ks ws)) @ t"
  shows "vs = ws \<and> u = t"
  using assms
proof (induction ks arbitrary: vs ws)
  case (Cons k ks)
  obtain v vs' w ws' where vw: "vs = v # vs'" "ws = w # ws'"
    using Cons.prems(1,2) by (cases vs; cases ws) auto
  show ?case
  proof (cases "ks = []")
    case True
    with Cons.prems vw json_string_cancel [of v w u t] show ?thesis
      by (simp add: json_member_def)
  next
    case False
    then obtain p ps where "zip ks vs' = p # ps"
      using Cons.prems(1) vw by (cases ks; cases vs') auto
    moreover obtain q qs where "zip ks ws' = q # qs"
      using False Cons.prems(2) vw by (cases ks; cases ws') auto
    ultimately have "json_string v @ '','' @ join_comma (map json_member (zip ks vs')) @ u =
        json_string w @ '','' @ join_comma (map json_member (zip ks ws')) @ t"
      using Cons.prems(6) vw by (simp add: json_member_def [of "(k, v)"] json_member_def [of "(k, w)"])
    from json_string_cancel [OF _ _ this]
    have "v = w" "join_comma (map json_member (zip ks vs')) @ u =
        join_comma (map json_member (zip ks ws')) @ t"
      using Cons.prems(4,5) vw by simp_all
    with Cons.IH [of vs' ws'] Cons.prems False vw show ?thesis
      by auto
  qed
qed simp

end
