(* ===== verification/Go_Time.thy ===== *)
theory Go_Time
  imports Go_Encoding
begin

text \<open>
  \<open>time.Time\<close> as the program uses it: an instant in nanoseconds since the Unix epoch (an integer,
  so instants before 1970 are negative; the location does not matter, since every use converts to
  UTC first), truncation to milliseconds, and \<open>Format(time.RFC3339Nano)\<close> of a UTC time. The
  format is shown to be injective, which is what lets a signature over the text bind the instant.
\<close>

type_synonym Time = int

definition Truncate_ms :: "Time \<Rightarrow> Time" where
  "Truncate_ms t = t - t mod 1000000"

lemma Truncate_ms_aligned: "Truncate_ms t mod 1000000 = 0"
  by (simp add: Truncate_ms_def minus_mod_eq_mult_div)

lemma Truncate_ms_idem [simp]: "Truncate_ms (Truncate_ms t) = Truncate_ms t"
  by (simp add: Truncate_ms_def minus_mod_eq_mult_div)

lemma Truncate_ms_fixed: "t mod 1000000 = 0 \<Longrightarrow> Truncate_ms t = t"
  by (simp add: Truncate_ms_def)

section \<open>The proleptic Gregorian calendar\<close>

text \<open>
  The civil date of a day counted from 1 January of year 1, by 400-, 100-, 4- and 1-year cycles.
  The last year of a 4-year cycle and the last century of a 400-year cycle are one day longer, so
  the quotient is cut back to 3.
\<close>

definition is_leap :: "int \<Rightarrow> bool" where
  "is_leap y \<longleftrightarrow> y mod 4 = 0 \<and> (y mod 100 \<noteq> 0 \<or> y mod 400 = 0)"

definition month_days :: "bool \<Rightarrow> nat list" where
  "month_days leap = [31, if leap then 29 else 28, 31, 30, 31, 30, 31, 31, 30, 31, 30, 31]"

fun find_month :: "nat list \<Rightarrow> nat \<Rightarrow> nat \<Rightarrow> nat \<times> nat" where
  "find_month [] m d = (m, d)"
| "find_month (l # ls) m d = (if d < l then (m, d) else find_month ls (m + 1) (d - l))"

definition year_yday :: "int \<Rightarrow> int \<times> int" where
  "year_yday d0 =
     (let n400 = d0 div 146097; d1 = d0 mod 146097;
          n100 = min 3 (d1 div 36524); d2 = d1 - 36524 * n100;
          n4 = d2 div 1461; d3 = d2 mod 1461;
          n1 = min 3 (d3 div 365); d4 = d3 - 365 * n1
      in (400 * n400 + 100 * n100 + 4 * n4 + n1 + 1, d4))"

definition civil :: "int \<Rightarrow> int \<times> nat \<times> nat" where
  "civil d0 =
     (let (y, yd) = year_yday d0; (m, d) = find_month (month_days (is_leap y)) 1 (nat yd)
      in (y, m, d + 1))"

text \<open>Days of the Unix epoch, 1 January 1970, from 1 January of year 1.\<close>

definition unix_days :: int where
  "unix_days = 719162"

section \<open>RFC 3339 with nanoseconds\<close>

text \<open>\<open>pad w s\<close> is the zero padding of Go's \<open>appendInt\<close>.\<close>

definition pad :: "nat \<Rightarrow> string \<Rightarrow> string" where
  "pad w s = replicate (w - length s) CHR ''0'' @ s"

definition append_int :: "int \<Rightarrow> nat \<Rightarrow> string" where
  "append_int x w = (if x < 0 then CHR ''-'' # pad w (dec_nat (nat (- x))) else pad w (dec_nat (nat x)))"

definition append_nano :: "nat \<Rightarrow> string" where
  "append_nano n =
     (let ds = rev (dropWhile (\<lambda>c. c = CHR ''0'') (rev (pad 9 (dec_nat n))))
      in if ds = [] then [] else CHR ''.'' # ds)"

definition day_ns :: int where
  "day_ns = 86400 * 1000000000"

definition format_date :: "int \<times> nat \<times> nat \<Rightarrow> string" where
  "format_date ymd =
     (case ymd of (y, m, d) \<Rightarrow>
        append_int y 4 @ ''-'' @ pad 2 (dec_nat m) @ ''-'' @ pad 2 (dec_nat d))"

definition format_clock :: "nat \<Rightarrow> string" where
  "format_clock s =
     pad 2 (dec_nat (s div 3600)) @ '':'' @ pad 2 (dec_nat (s mod 3600 div 60)) @ '':''
       @ pad 2 (dec_nat (s mod 60))"

definition Format_RFC3339Nano :: "Time \<Rightarrow> string" where
  "Format_RFC3339Nano t =
     (let day = t div day_ns; ns = nat (t mod day_ns)
      in format_date (civil (day + unix_days)) @ ''T'' @ format_clock (ns div 1000000000)
           @ append_nano (ns mod 1000000000) @ ''Z'')"

section \<open>The format is injective\<close>

lemma div_cycles:
  fixes a b c e :: int
  assumes "0 \<le> b" "b \<le> 3" "0 \<le> c" "c \<le> 24" "0 \<le> e" "e \<le> 3"
  shows "(400 * a + 100 * b + 4 * c + e) div 4 = 100 * a + 25 * b + c"
    and "(400 * a + 100 * b + 4 * c + e) div 100 = 4 * a + b"
    and "(400 * a + 100 * b + 4 * c + e) div 400 = a"
  using assms by simp_all

lemma year_yday_inv:
  assumes "year_yday d0 = (y, yd)"
  shows "0 \<le> yd" and "d0 = 365 * (y - 1) + (y - 1) div 4 - (y - 1) div 100 + (y - 1) div 400 + yd"
proof -
  define n400 d1 where "n400 = d0 div 146097" and "d1 = d0 mod 146097"
  define n100 where "n100 = min 3 (d1 div 36524)"
  define d2 where "d2 = d1 - 36524 * n100"
  define n4 d3 where "n4 = d2 div 1461" and "d3 = d2 mod 1461"
  define n1 where "n1 = min 3 (d3 div 365)"
  have "year_yday d0 = (400 * n400 + 100 * n100 + 4 * n4 + n1 + 1, d3 - 365 * n1)"
    unfolding year_yday_def Let_def n1_def d3_def n4_def d2_def n100_def d1_def n400_def
    by (rule refl)
  then have y: "y - 1 = 400 * n400 + 100 * n100 + 4 * n4 + n1" and yd: "yd = d3 - 365 * n1"
    using assms by simp_all
  have d1: "0 \<le> d1" "d1 \<le> 146096" and d0: "d0 = 146097 * n400 + d1"
    by (auto simp: d1_def n400_def)
  have n100: "0 \<le> n100" "n100 \<le> 3" and d2: "0 \<le> d2" "d2 \<le> 36524"
    using d1 by (auto simp: n100_def d2_def min_def)
  have n4: "0 \<le> n4" "n4 \<le> 24" and d3: "0 \<le> d3" "d3 \<le> 1460" and d2': "d2 = 1461 * n4 + d3"
    using d2 by (auto simp: n4_def d3_def)
  have n1: "0 \<le> n1" "n1 \<le> 3" and "0 \<le> d3 - 365 * n1"
    using d3 by (auto simp: n1_def min_def)
  then show "0 \<le> yd"
    by (simp add: yd)
  show "d0 = 365 * (y - 1) + (y - 1) div 4 - (y - 1) div 100 + (y - 1) div 400 + yd"
    unfolding y div_cycles [OF n100 n4 n1] yd d0 using d2_def d2' by simp
qed

lemma find_month_inv:
  "find_month ls m d = (m', d') \<Longrightarrow> m \<le> m' \<and> d = sum_list (take (m' - m) ls) + d'"
proof (induction ls m d rule: find_month.induct)
  case (2 l ls m d)
  show ?case
  proof (cases "d < l")
    case True
    with 2 show ?thesis by simp
  next
    case False
    with 2 have "m + 1 \<le> m'" "d - l = sum_list (take (m' - (m + 1)) ls) + d'"
      by auto
    with False show ?thesis
      by (simp add: take_Cons' Suc_diff_Suc)
  qed
qed simp

lemma civil_inject: "civil d = civil e \<longleftrightarrow> d = e"
proof
  assume eq: "civil d = civil e"
  obtain y yd z ze where d: "year_yday d = (y, yd)" and e: "year_yday e = (z, ze)"
    by fastforce
  obtain m dd n ed where md: "find_month (month_days (is_leap y)) 1 (nat yd) = (m, dd)"
    and me: "find_month (month_days (is_leap z)) 1 (nat ze) = (n, ed)"
    by fastforce
  from eq have same: "z = y" "n = m" "ed = dd"
    by (simp_all add: civil_def d e md me del: One_nat_def)
  have "nat yd = nat ze"
    using find_month_inv [OF md] find_month_inv [OF me] by (simp add: same)
  then have "yd = ze"
    using year_yday_inv(1) [OF d] year_yday_inv(1) [OF e] by simp
  then show "d = e"
    using year_yday_inv(2) [OF d] year_yday_inv(2) [OF e] by (simp add: same)
qed simp

lemma undec_zeros: "undec (replicate k CHR ''0'' @ s) = undec s"
  by (induction k) (simp_all add: undec_def)

lemma undec_pad [simp]: "undec (pad w (dec_nat n)) = n"
  by (simp add: pad_def undec_zeros)

lemma pad_inject [simp]: "pad w (dec_nat m) = pad w (dec_nat n) \<longleftrightarrow> m = n"
  by (metis undec_pad)

lemma pad_digits: "c \<in> set (pad w (dec_nat n)) \<Longrightarrow> is_digit c"
  by (auto simp: pad_def dec_nat_digits) (simp add: is_digit_def)

text \<open>A numeric field ends at the first character that is not a digit.\<close>

lemma field_cancel:
  assumes "pad w (dec_nat m) @ c # u = pad w (dec_nat n) @ d # v" "\<not> is_digit c" "\<not> is_digit d"
  shows "m = n \<and> c = d \<and> u = v"
  using append_stop_cancel [OF _ _ assms(2,3,1)] pad_digits pad_inject by blast

lemma not_digits [simp]:
  "\<not> is_digit CHR ''-''" "\<not> is_digit CHR '':''" "\<not> is_digit CHR ''T''" "\<not> is_digit CHR ''Z''"
  "\<not> is_digit CHR ''.''"
  by (simp_all add: is_digit_def)

lemma pad_hd_digit: "\<exists>c s. pad w (dec_nat n) = c # s \<and> is_digit c"
proof -
  have "pad w (dec_nat n) \<noteq> []"
    by (simp add: pad_def)
  then obtain c s where "pad w (dec_nat n) = c # s"
    by (auto simp: neq_Nil_conv)
  with pad_digits [of c w n] show ?thesis
    by simp
qed

lemma append_int_cancel:
  assumes "append_int x w @ CHR ''-'' # u = append_int y w @ CHR ''-'' # v"
  shows "x = y \<and> u = v"
proof -
  have neq: "CHR ''-'' # s \<noteq> pad w (dec_nat n) @ t" "pad w (dec_nat n) @ t \<noteq> CHR ''-'' # s" for n s t
    using pad_hd_digit [of w n] by auto
  show ?thesis
  proof (cases "x < 0"; cases "y < 0")
    assume "x < 0" "y < 0"
    with assms field_cancel [of w "nat (- x)" "CHR ''-''" u "nat (- y)" "CHR ''-''" v]
    show ?thesis by (simp add: append_int_def eq_nat_nat_iff)
  next
    assume "\<not> x < 0" "\<not> y < 0"
    with assms field_cancel [of w "nat x" "CHR ''-''" u "nat y" "CHR ''-''" v]
    show ?thesis by (simp add: append_int_def eq_nat_nat_iff)
  qed (use assms neq in \<open>simp_all add: append_int_def\<close>)
qed

lemma format_date_cancel:
  assumes "format_date p @ CHR ''T'' # u = format_date q @ CHR ''T'' # v"
  shows "p = q \<and> u = v"
proof -
  obtain y m d z n e where pq: "p = (y, m, d)" "q = (z, n, e)"
    by (metis prod.collapse)
  from assms have "append_int y 4 @ CHR ''-'' # (pad 2 (dec_nat m) @ CHR ''-'' # (pad 2 (dec_nat d) @ CHR ''T'' # u))
      = append_int z 4 @ CHR ''-'' # (pad 2 (dec_nat n) @ CHR ''-'' # (pad 2 (dec_nat e) @ CHR ''T'' # v))"
    by (simp add: format_date_def pq)
  from append_int_cancel [OF this] have "y = z"
    and "pad 2 (dec_nat m) @ CHR ''-'' # (pad 2 (dec_nat d) @ CHR ''T'' # u)
      = pad 2 (dec_nat n) @ CHR ''-'' # (pad 2 (dec_nat e) @ CHR ''T'' # v)"
    by simp_all
  with field_cancel [OF this(2)] show ?thesis
    by (auto simp: pq dest!: field_cancel)
qed

lemma clock_inject:
  "s div 3600 = t div 3600 \<Longrightarrow> s mod 3600 div 60 = t mod 3600 div 60 \<Longrightarrow> s mod 60 = t mod 60 \<Longrightarrow> s = (t::nat)"
proof -
  assume *: "s div 3600 = t div 3600" "s mod 3600 div 60 = t mod 3600 div 60" "s mod 60 = t mod 60"
  have "s mod 3600 mod 60 = t mod 3600 mod 60"
    using *(3) by (simp add: mod_mod_cancel)
  with *(2) have "s mod 3600 = t mod 3600"
    by (metis div_mult_mod_eq)
  with *(1) show ?thesis
    by (metis div_mult_mod_eq)
qed

lemma format_clock_cancel:
  assumes "format_clock s @ c # u = format_clock t @ d # v" "\<not> is_digit c" "\<not> is_digit d"
  shows "s = t \<and> c = d \<and> u = v"
proof -
  from assms(1) have
    "pad 2 (dec_nat (s div 3600)) @ CHR '':'' # (pad 2 (dec_nat (s mod 3600 div 60)) @ CHR '':''
        # (pad 2 (dec_nat (s mod 60)) @ c # u))
     = pad 2 (dec_nat (t div 3600)) @ CHR '':'' # (pad 2 (dec_nat (t mod 3600 div 60)) @ CHR '':''
        # (pad 2 (dec_nat (t mod 60)) @ d # v))"
    by (simp add: format_clock_def)
  from field_cancel [OF this] have h: "s div 3600 = t div 3600"
    and "pad 2 (dec_nat (s mod 3600 div 60)) @ CHR '':'' # (pad 2 (dec_nat (s mod 60)) @ c # u)
      = pad 2 (dec_nat (t mod 3600 div 60)) @ CHR '':'' # (pad 2 (dec_nat (t mod 60)) @ d # v)"
    by simp_all
  from field_cancel [OF this(2)] have m: "s mod 3600 div 60 = t mod 3600 div 60"
    and "pad 2 (dec_nat (s mod 60)) @ c # u = pad 2 (dec_nat (t mod 60)) @ d # v"
    by simp_all
  from field_cancel [OF this(2) assms(2,3)] clock_inject [OF h m] show ?thesis
    by simp
qed

lemma dotted_inject: "(if a = [] then [] else c # a) = (if b = [] then [] else c # b) \<Longrightarrow> a = b"
  by (simp split: if_splits)

lemma append_nano_inject:
  assumes "m < 10 ^ 9" "n < 10 ^ 9" "append_nano m = append_nano n"
  shows "m = n"
proof -
  have len: "length (pad 9 (dec_nat k)) = 9" if "k < 10 ^ 9" for k
    using length_dec_nat [OF that] by (simp add: pad_def)
  let ?P = "\<lambda>c. c = CHR ''0''"
  have "dropWhile ?P (rev (pad 9 (dec_nat m))) = dropWhile ?P (rev (pad 9 (dec_nat n)))"
    using assms(3) unfolding append_nano_def Let_def by (rule dotted_inject [THEN rev_is_rev_conv [THEN iffD1]])
  then have "rev (pad 9 (dec_nat m)) = rev (pad 9 (dec_nat n))"
    by (rule dropWhile_eq_same_length [rotated]) (use assms len in auto)
  then show ?thesis
    by simp
qed

lemma append_nano_tail: "\<exists>c u. append_nano n @ ''Z'' = c # u \<and> \<not> is_digit c"
  by (auto simp: append_nano_def Let_def)

lemma Format_RFC3339Nano_inject [simp]:
  "Format_RFC3339Nano s = Format_RFC3339Nano t \<longleftrightarrow> s = t"
proof
  assume eq: "Format_RFC3339Nano s = Format_RFC3339Nano t"
  define m n where "m = nat (s mod day_ns)" and "n = nat (t mod day_ns)"
  obtain c u d v where cu: "append_nano (m mod 1000000000) @ ''Z'' = c # u" "\<not> is_digit c"
    and dv: "append_nano (n mod 1000000000) @ ''Z'' = d # v" "\<not> is_digit d"
    using append_nano_tail by metis
  from eq have "format_date (civil (s div day_ns + unix_days)) @ CHR ''T'' # (format_clock (m div 1000000000) @ c # u)
      = format_date (civil (t div day_ns + unix_days)) @ CHR ''T'' # (format_clock (n div 1000000000) @ d # v)"
    by (simp add: Format_RFC3339Nano_def Let_def m_def n_def cu [unfolded m_def] dv [unfolded n_def])
  from format_date_cancel [OF this]
  have day: "s div day_ns = t div day_ns"
    and "format_clock (m div 1000000000) @ c # u = format_clock (n div 1000000000) @ d # v"
    by (simp_all add: civil_inject)
  from format_clock_cancel [OF this(2) cu(2) dv(2)]
  have "m div 1000000000 = n div 1000000000" and "append_nano (m mod 1000000000) = append_nano (n mod 1000000000)"
    using cu(1) dv(1) by (simp, metis append_same_eq)
  moreover from this(2) have "m mod 1000000000 = n mod 1000000000"
    by (rule append_nano_inject [rotated 2]) simp_all
  ultimately have "m = n"
    by (metis div_mult_mod_eq)
  then have "s mod day_ns = t mod day_ns"
    by (simp add: m_def n_def day_ns_def eq_nat_nat_iff)
  with day show "s = t"
    by (metis div_mult_mod_eq)
qed simp

lemma ascii_pad: "c \<in> set (pad w (dec_nat n)) \<Longrightarrow> code c < 128"
  using pad_digits [of c w n] by (simp add: is_digit_def)

lemma ascii_append_nano: "c \<in> set (append_nano n) \<Longrightarrow> code c < 128"
  using ascii_pad [of c 9 n] set_dropWhileD [of c _ "rev (pad 9 (dec_nat n))"]
  by (auto simp: append_nano_def Let_def split: if_splits)

lemma ascii_Format_RFC3339Nano: "c \<in> set (Format_RFC3339Nano t) \<Longrightarrow> code c < 128"
  by (auto simp: Format_RFC3339Nano_def format_date_def format_clock_def append_int_def Let_def
      dest: ascii_pad ascii_append_nano split: prod.splits if_splits)

end
