(* ===== verification/Models.thy ===== *)
theory Models
  imports Sha256 Go_Time
begin

text \<open>
  Package \<open>internal/models\<close>: the signed message, the log entry, the Merkle snapshot, the canonical
  signing payload and the chained entry hash. The main results are that the payload is a
  self-delimiting encoding of every field but the signature (on valid UTF-8), and that the entry
  hash commits to the whole entry up to a SHA-256 collision that the proof exhibits.
\<close>

section \<open>Constants and data\<close>

definition GenesisHash :: string where
  "GenesisHash = replicate 64 CHR ''0''"

definition SnapshotInterval :: uint64 where
  "SnapshotInterval = 100"

definition ContentTypeText :: string where
  "ContentTypeText = ''text/plain''"

definition CurrentSchemaVersion :: int where
  "CurrentSchemaVersion = 1"

record SignedMessage =
  SchemaVersion :: int
  MessageID :: string
  ChatID :: string
  SenderID :: string
  Content :: "byte list"
  ContentType :: string
  Filename :: string
  Encrypted :: bool
  Timestamp :: Time
  PublicKey :: "byte list"
  Signature :: "byte list"

record LogEntry =
  Sequence :: uint64
  Message :: SignedMessage
  PrevHash :: string
  EntryHash :: string

record MerkleSnapshot =
  snap_ChatID :: string
  SnapshotIndex :: uint64
  FromSequence :: uint64
  ToSequence :: uint64
  MerkleRoot :: string
  LastEntryHash :: string
  CreatedAt :: Time

section \<open>Building messages\<close>

text \<open>
  The random bytes of \<open>crypto/rand.Read\<close> and the clock reading are arguments: \<open>rnd\<close> is what
  the call fills into the 16-byte array, \<open>now\<close> what \<open>time.Now()\<close> answers.
\<close>

definition NewMessageID :: "byte list \<Rightarrow> string" where
  "NewMessageID rnd = hex_encode rnd"

definition NewMessage ::
  "byte list \<Rightarrow> Time \<Rightarrow> string \<Rightarrow> string \<Rightarrow> byte list \<Rightarrow> byte list \<Rightarrow> string \<Rightarrow> string \<Rightarrow> bool \<Rightarrow> SignedMessage"
where
  "NewMessage rnd now chatID senderID publicKey content contentType filename encrypted =
     \<lparr>SchemaVersion = CurrentSchemaVersion,
      MessageID = NewMessageID rnd,
      ChatID = chatID,
      SenderID = senderID,
      Content = content,
      ContentType = contentType,
      Filename = filename,
      Encrypted = encrypted,
      Timestamp = Truncate_ms now,
      PublicKey = publicKey,
      Signature = []\<rparr>"

definition SigningPayload :: "SignedMessage \<Rightarrow> byte list" where
  "SigningPayload m =
     (let encrypted = (if Encrypted m then ''true'' else ''false'')
      in bytes_of (json_marshal_map
           [(''schema_version'', dec_int (SchemaVersion m)),
            (''message_id'', MessageID m),
            (''chat_id'', ChatID m),
            (''sender_id'', SenderID m),
            (''content'', base64_encode (Content m)),
            (''content_type'', ContentType m),
            (''filename'', Filename m),
            (''encrypted'', encrypted),
            (''timestamp'', Format_RFC3339Nano (Timestamp m)),
            (''public_key'', base64_encode (PublicKey m))]))"

section \<open>The entry hash\<close>

text \<open>
  \<open>formatUint\<close> fills a 20-byte buffer from the end. The loop works on the buffer and the index as
  the code does; a store outside the buffer, which would panic, is \<open>None\<close>.
\<close>

function formatUint_loop :: "uint64 \<Rightarrow> byte list \<Rightarrow> int \<Rightarrow> (byte list \<times> int) option" where
  "formatUint_loop v buf i =
     (if 0 < v then
        (let j = i - 1
         in if 0 \<le> j \<and> j < int (length buf)
            then formatUint_loop (v div 10) (buf[nat j := ucast (0x30 + v mod 10)]) j
            else None)
      else Some (buf, i))"
  by pat_completeness auto
termination
proof (relation "measure (\<lambda>(v, buf, i). unat v)", goal_cases)
  case (2 v buf i j)
  then have "0 < unat v"
    by (simp add: word_less_nat_alt)
  then show ?case
    by (simp add: unat_div)
qed simp

declare formatUint_loop.simps [simp del]

definition formatUint_run :: "uint64 \<Rightarrow> string option" where
  "formatUint_run v =
     (if v = 0 then Some ''0''
      else map_option (\<lambda>(buf, i). string_of (drop (nat i) buf))
             (formatUint_loop v (replicate 20 0) 20))"

definition formatUint :: "uint64 \<Rightarrow> string" where
  "formatUint v = (case formatUint_run v of Some s \<Rightarrow> s | None \<Rightarrow> [])"

text \<open>The two byte strings \<open>ComputeHash\<close> hands to SHA-256.\<close>

definition digest_input :: "LogEntry \<Rightarrow> byte list" where
  "digest_input e = SigningPayload (Message e) @ Signature (Message e)"

definition chained_input :: "LogEntry \<Rightarrow> byte list" where
  "chained_input e =
     (let msgDigest = sha256 (digest_input e);
          chained = PrevHash e @ '':'' @ hex_encode msgDigest
      in bytes_of (formatUint (Sequence e) @ '':'' @ chained))"

definition ComputeHash :: "LogEntry \<Rightarrow> string" where
  "ComputeHash e = hex_encode (sha256 (chained_input e))"

definition entry_preimages :: "LogEntry \<Rightarrow> byte list set" where
  "entry_preimages e = {digest_input e, chained_input e}"

section \<open>Decimal formatting\<close>

lemma unat_digit: "unat (ucast (0x30 + (v::uint64) mod 10) :: byte) = 48 + unat v mod 10"
proof -
  have "unat (v mod 10) = unat v mod 10"
    by (simp add: unat_mod)
  moreover have "unat v mod 10 < 10"
    by simp
  ultimately have "unat (0x30 + v mod 10) = 48 + unat v mod 10"
    by (subst unat_add_lem [THEN iffD1]) simp_all
  then show ?thesis
    by (simp add: unsigned_ucast_eq take_bit_eq_mod)
qed

text \<open>
  Loop invariant: with room for the digits of \<open>v\<close> below index \<open>i\<close>, the loop ends with the digits
  written in front of what was there.
\<close>

lemma formatUint_loop_spec:
  assumes "0 < v" "length (dec_nat (unat v)) \<le> i" "i \<le> length buf"
  shows "\<exists>buf' j. formatUint_loop v buf (int i) = Some (buf', int j) \<and>
    string_of (drop j buf') = dec_nat (unat v) @ string_of (drop i buf)"
  using assms
proof (induction v buf "int i" arbitrary: i rule: formatUint_loop.induct)
  case (1 v buf)
  define d where "d = (ucast (0x30 + v mod 10) :: byte)"
  define buf1 where "buf1 = buf[i - 1 := d]"
  have i: "1 \<le> i" "i \<le> length buf"
    using "1.prems" by (simp_all add: Suc_le_eq order.strict_trans2 [rotated])
  have idx: "int i - 1 = int (i - 1)" "0 \<le> int i - 1 \<and> int i - 1 < int (length buf)"
    and nidx: "nat (int i - 1) = i - 1"
    using i by auto
  have step: "formatUint_loop v buf (int i) = formatUint_loop (v div 10) buf1 (int (i - 1))"
    using "1.prems"(1) idx by (subst formatUint_loop.simps) (simp add: Let_def buf1_def d_def nidx)
  have d: "char_of (unat d) = digit_char (unat v mod 10)"
    by (simp add: d_def unat_digit digit_char_def)
  have drop1: "string_of (drop (i - 1) buf1) = digit_char (unat v mod 10) # string_of (drop i buf)"
    using i by (simp add: buf1_def string_of_def drop_update_swap Cons_nth_drop_Suc [symmetric] d)
  have q: "unat (v div 10) = unat v div 10"
    by (simp add: unat_div)
  show ?case
  proof (cases "unat v < 10")
    case True
    then have "v div 10 = 0"
      using q by (simp add: word_unat_eq_iff)
    then have "formatUint_loop (v div 10) buf1 (int (i - 1)) = Some (buf1, int (i - 1))"
      by (subst formatUint_loop.simps) simp
    with True step drop1 show ?thesis
      by (intro exI [of _ buf1] exI [of _ "i - 1"]) (simp add: dec_nat.simps [of "unat v"])
  next
    case False
    then have pos: "0 < v div 10"
      using q by (simp add: word_less_nat_alt)
    have len: "length (dec_nat (unat (v div 10))) \<le> i - 1"
      using "1.prems"(2) False by (simp add: q dec_nat.simps [of "unat v"])
    have "i - 1 \<le> length buf"
      using i by simp
    then obtain buf' j where "formatUint_loop (v div 10) buf1 (int (i - 1)) = Some (buf', int j)"
      and "string_of (drop j buf') = dec_nat (unat (v div 10)) @ string_of (drop (i - 1) buf1)"
      using "1.hyps" [OF "1.prems"(1) idx(1) [symmetric] _ pos len] i
      by (auto simp: buf1_def d_def nidx)
    with False step drop1 show ?thesis
      by (simp add: q dec_nat.simps [of "unat v"])
  qed
qed

lemma formatUint_run_eq: "formatUint_run v = Some (dec_nat (unat v))"
proof (cases "v = 0")
  case True
  moreover have "digit_char 0 = CHR ''0''"
    by code_simp
  ultimately show ?thesis by (simp add: formatUint_run_def dec_nat.simps)
next
  case False
  then have "0 < v"
    by (simp add: word_gt_0)
  moreover have "length (dec_nat (unat v)) \<le> 20"
    using unsigned_less [of v, where ?'a = nat] by (intro length_dec_nat) simp_all
  ultimately show ?thesis
    using formatUint_loop_spec [of v 20 "replicate 20 0"] False
    by (auto simp: formatUint_run_def string_of_def)
qed

lemma formatUint_eq [simp]: "formatUint v = dec_nat (unat v)"
  by (simp add: formatUint_def formatUint_run_eq)

section \<open>The signing payload\<close>

definition payload_keys :: "string list" where
  "payload_keys = [''chat_id'', ''content'', ''content_type'', ''encrypted'', ''filename'',
     ''message_id'', ''public_key'', ''schema_version'', ''sender_id'', ''timestamp'']"

definition payload_values :: "SignedMessage \<Rightarrow> string list" where
  "payload_values m = [ChatID m, base64_encode (Content m), ContentType m,
     if Encrypted m then ''true'' else ''false'', Filename m, MessageID m,
     base64_encode (PublicKey m), dec_int (SchemaVersion m), SenderID m,
     Format_RFC3339Nano (Timestamp m)]"

text \<open>The members in key order, as the encoder writes them.\<close>

lemma SigningPayload_members:
  "SigningPayload m =
     bytes_of (''{'' @ join_comma (map json_member (zip payload_keys (payload_values m))) @ ''}'')"
proof -
  have "sort_key fst
      [(''schema_version'', a), (''message_id'', b), (''chat_id'', c), (''sender_id'', d),
       (''content'', e), (''content_type'', f), (''filename'', g), (''encrypted'', h),
       (''timestamp'', i), (''public_key'', j)]
    = zip payload_keys [c, e, f, h, g, b, j, a, d, i]" for a b c d e f g h i j :: string
    by (simp add: payload_keys_def less_list_code less_char_def less_eq_char_def)
  then show ?thesis
    by (simp only: SigningPayload_def json_marshal_map_def payload_values_def Let_def)
qed

text \<open>The fields that reach the payload as raw strings.\<close>

definition message_utf8 :: "SignedMessage \<Rightarrow> bool" where
  "message_utf8 m \<longleftrightarrow> utf8_valid (MessageID m) \<and> utf8_valid (ChatID m) \<and> utf8_valid (SenderID m)
     \<and> utf8_valid (ContentType m) \<and> utf8_valid (Filename m)"

lemma ascii_dec_int: "c \<in> set (dec_int i) \<Longrightarrow> code c < 128"
  using dec_nat_digits [of c "nat i"] dec_nat_digits [of c "nat (- i)"]
  by (auto simp: dec_int_def is_digit_def split: if_splits)

lemma payload_values_utf8: "message_utf8 m \<Longrightarrow> \<forall>v\<in>set (payload_values m). utf8_valid v"
  using ascii_base64 ascii_dec_int ascii_Format_RFC3339Nano
  by (auto simp: payload_values_def message_utf8_def intro!: utf8_valid_ascii)

lemma payload_values_inject:
  "payload_values m = payload_values m' \<longleftrightarrow> m\<lparr>Signature := []\<rparr> = m'\<lparr>Signature := []\<rparr>"
  by (cases m; cases m') (auto simp: payload_values_def split: if_splits)

lemma SigningPayload_cancel:
  assumes "message_utf8 m" "message_utf8 m'" "SigningPayload m @ s = SigningPayload m' @ s'"
  shows "m\<lparr>Signature := []\<rparr> = m'\<lparr>Signature := []\<rparr> \<and> s = s'"
proof -
  have "string_of (SigningPayload m @ s) = string_of (SigningPayload m' @ s')"
    using assms(3) by simp
  then have "join_comma (map json_member (zip payload_keys (payload_values m))) @ CHR ''}'' # string_of s
      = join_comma (map json_member (zip payload_keys (payload_values m'))) @ CHR ''}'' # string_of s'"
    by (simp add: SigningPayload_members string_of_append)
  then have "payload_values m = payload_values m' \<and> CHR ''}'' # string_of s = CHR ''}'' # string_of s'"
    using payload_values_utf8 assms(1,2)
    by (intro join_members_cancel [of _ payload_keys]) (simp_all add: payload_keys_def payload_values_def)
  then show ?thesis
    by (metis payload_values_inject bytes_of_string_of list.inject)
qed

lemma json_escape_invalid:
  "rune_len s = 0 \<Longrightarrow> s \<noteq> [] \<Longrightarrow> json_escape s = backslash # ''ufffd'' @ json_escape (tl s)"
  using rune_len_ascii [of s] by (simp add: json_escape.simps [of s])

section \<open>The entry hash commits to the entry\<close>

lemma length_ComputeHash [simp]: "length (ComputeHash e) = 64"
  by (simp add: ComputeHash_def)

lemma ComputeHash_hex: "c \<in> set (ComputeHash e) \<Longrightarrow> is_hex c"
  unfolding ComputeHash_def by (rule hex_encode_is_hex)

lemma chained_input_inject:
  assumes "chained_input e = chained_input e'"
  shows "Sequence e = Sequence e' \<and> PrevHash e = PrevHash e' \<and>
    sha256 (digest_input e) = sha256 (digest_input e')"
proof -
  let ?h = "\<lambda>e. hex_encode (sha256 (digest_input e))"
  have "dec_nat (unat (Sequence e)) @ CHR '':'' # (PrevHash e @ '':'' @ ?h e)
      = dec_nat (unat (Sequence e')) @ CHR '':'' # (PrevHash e' @ '':'' @ ?h e')"
    using assms by (simp add: chained_input_def)
  from append_stop_cancel [where P = is_digit, OF _ _ _ _ this]
  have "dec_nat (unat (Sequence e)) = dec_nat (unat (Sequence e'))"
    and rest: "PrevHash e @ '':'' @ ?h e = PrevHash e' @ '':'' @ ?h e'"
    using dec_nat_digits not_digits by auto
  from rest have "PrevHash e = PrevHash e' \<and> '':'' @ ?h e = '':'' @ ?h e'"
    by (rule append_eq_append_conv_suffix [THEN iffD1, rotated]) simp
  with \<open>dec_nat (unat (Sequence e)) = _\<close> show ?thesis
    by (simp add: word_unat_eq_iff)
qed

lemma ComputeHash_commits:
  assumes "message_utf8 (Message e)" "message_utf8 (Message e')" "ComputeHash e = ComputeHash e'"
  shows "(Sequence e = Sequence e' \<and> Message e = Message e' \<and> PrevHash e = PrevHash e')
    \<or> collide (entry_preimages e) (entry_preimages e')"
proof (cases "chained_input e = chained_input e' \<and> digest_input e = digest_input e'")
  case True
  then have "Message e\<lparr>Signature := []\<rparr> = Message e'\<lparr>Signature := []\<rparr>"
    and "Signature (Message e) = Signature (Message e')"
    using SigningPayload_cancel [OF assms(1,2)] by (auto simp: digest_input_def)
  then have "Message e = Message e'"
    by (cases "Message e"; cases "Message e'") simp
  with True chained_input_inject show ?thesis
    by blast
next
  case False
  have "collide (entry_preimages e) (entry_preimages e')"
  proof (cases "chained_input e = chained_input e'")
    case True
    with False chained_input_inject [OF True] show ?thesis
      by (intro collideI [of "digest_input e" _ "digest_input e'"]) (simp_all add: entry_preimages_def)
  next
    case False
    with assms(3) show ?thesis
      by (intro collideI [of "chained_input e" _ "chained_input e'"])
         (simp_all add: entry_preimages_def ComputeHash_def)
  qed
  then show ?thesis ..
qed

section \<open>Properties\<close>

text \<open>A concrete message and entry, on which the properties with hypotheses are exercised.\<close>

definition example_message :: SignedMessage where
  "example_message =
     \<lparr>SchemaVersion = 1, MessageID = ''m1'', ChatID = ''c1'', SenderID = ''alice'',
      Content = [104, 105], ContentType = ContentTypeText, Filename = [], Encrypted = False,
      Timestamp = 0, PublicKey = replicate 32 7, Signature = [1, 2, 3]\<rparr>"

definition example_entry :: LogEntry where
  "example_entry =
     \<lparr>Sequence = 0, Message = example_message, PrevHash = GenesisHash, EntryHash = ''stale''\<rparr>"

lemma example_message_utf8: "message_utf8 example_message"
  by (simp add: message_utf8_def example_message_def ContentTypeText_def utf8_valid_ascii)

text \<open>
  C40. \<open>formatUint\<close> never stores outside its 20-byte buffer, for any \<open>uint64\<close>, and returns the
  decimal numeral of its argument without leading zeros.
\<close>

theorem formatUint_decimal:
  "formatUint_run v = Some (dec_nat (unat v)) \<and> length (dec_nat (unat v)) \<le> 20"
  using unsigned_less [of v, where ?'a = nat]
  by (simp add: formatUint_run_eq length_dec_nat)

text \<open>
  C9. The signing payload binds every field of the message but the signature: where two messages
  with valid UTF-8 strings have payloads that agree as prefixes of the same byte string (whatever
  follows them, such as a signature), the messages agree on all other fields and the followers
  are the same. So neither a field boundary nor the boundary to an appended signature is ambiguous.
\<close>

theorem SigningPayload_binds:
  assumes "message_utf8 m" "message_utf8 m'" "SigningPayload m @ s = SigningPayload m' @ s'"
  shows "m\<lparr>Signature := []\<rparr> = m'\<lparr>Signature := []\<rparr> \<and> s = s'"
  using assms by (rule SigningPayload_cancel)

theorem SigningPayload_binds_witness:
  "(example_message\<lparr>Signature := [9]\<rparr>)\<lparr>Signature := []\<rparr> = example_message\<lparr>Signature := []\<rparr> \<and> [5] = [5::byte]"
proof (rule SigningPayload_binds)
  show "SigningPayload (example_message\<lparr>Signature := [9]\<rparr>) @ [5] = SigningPayload example_message @ [5]"
    by (simp add: SigningPayload_def)
qed (use example_message_utf8 in \<open>simp_all add: message_utf8_def\<close>)

text \<open>
  C39. Outside valid UTF-8 the payload is ambiguous: \<open>json.Marshal\<close> replaces every invalid byte by
  the same escape, so a message for chat \<open>0xFF\<close> and the same message for chat \<open>0xFE\<close> have one
  payload, and a signature for one is a signature for the other.
\<close>

theorem SigningPayload_invalid_utf8:
  "SigningPayload (m\<lparr>ChatID := [CHR 0xFF]\<rparr>) = SigningPayload (m\<lparr>ChatID := [CHR 0xFE]\<rparr>)"
proof -
  have "json_escape [c] = backslash # ''ufffd''" if "128 \<le> code c" for c
    using that by (subst json_escape_invalid) (simp_all add: json_escape.simps [of "[]"])
  then have "json_string [CHR 0xFF] = json_string [CHR 0xFE]"
    by (simp add: json_string_def)
  then show ?thesis
    by (simp add: SigningPayload_members payload_keys_def payload_values_def json_member_def)
qed



text \<open>
  Truncating the timestamp to milliseconds, as a store with a millisecond column does, keeps
  the signing payload exactly when the timestamp was aligned to a millisecond; \<open>NewMessage\<close> only
  produces aligned timestamps.
\<close>

theorem SigningPayload_millisecond:
  "(SigningPayload (m\<lparr>Timestamp := Truncate_ms (Timestamp m)\<rparr>) = SigningPayload m
      \<longleftrightarrow> Timestamp m mod 1000000 = 0)
   \<and> Timestamp (NewMessage rnd now chatID senderID publicKey content contentType filename encrypted)
       mod 1000000 = 0"
proof -
  have "json_string (Format_RFC3339Nano s) = json_string (Format_RFC3339Nano t) \<longleftrightarrow> s = t" for s t
    using json_string_cancel [of "Format_RFC3339Nano s" "Format_RFC3339Nano t" "[]" "[]"]
      ascii_Format_RFC3339Nano by (auto simp: utf8_valid_ascii)
  then have "SigningPayload (m\<lparr>Timestamp := t\<rparr>) = SigningPayload m \<longleftrightarrow> t = Timestamp m" for t
    by (simp add: SigningPayload_members payload_keys_def payload_values_def json_member_def)
  moreover have "Truncate_ms t = t \<longleftrightarrow> t mod 1000000 = 0" for t
    by (auto simp: Truncate_ms_def)
  ultimately show ?thesis
    by (simp add: NewMessage_def Truncate_ms_aligned)
qed

end
