(* ===== verification/Keys.thy ===== *)
theory Keys
  imports Models
begin

text \<open>
  Package \<open>internal/crypto\<close>, file \<open>keys.go\<close>: key generation, signing and verification of messages.
  The elliptic-curve arithmetic of \<open>crypto/ed25519\<close> enters as a record of its three functions, so
  every result that does not name a hypothesis on it holds for any signature scheme. The documented
  behaviour that the round trip needs is the predicate \<open>ed25519_correct\<close>.
\<close>

section \<open>The signature scheme\<close>

text \<open>
  \<open>ed_GenerateKey\<close> takes the bytes read from the entropy source and gives the public and the private
  key; \<open>ed_Sign\<close> and \<open>ed_Verify\<close> are called on keys of the right length only, since the library
  panics on any other.
\<close>

record ed25519 =
  ed_GenerateKey :: "byte list \<Rightarrow> (byte list \<times> byte list) res"
  ed_Sign :: "byte list \<Rightarrow> byte list \<Rightarrow> byte list"
  ed_Verify :: "byte list \<Rightarrow> byte list \<Rightarrow> byte list \<Rightarrow> bool"

definition PublicKeySize :: nat where
  "PublicKeySize = 32"

definition PrivateKeySize :: nat where
  "PrivateKeySize = 64"

text \<open>
  What RFC 8032 and the library's documentation promise: keys of 32 and 64 bytes, signatures of 64
  bytes, and signatures made with the private key of a pair verify under its public key.
\<close>

definition ed25519_correct :: "ed25519 \<Rightarrow> bool" where
  "ed25519_correct ed \<longleftrightarrow>
     (\<forall>rnd pub priv data. ed_GenerateKey ed rnd = Inr (pub, priv) \<longrightarrow>
        length pub = 32 \<and> length priv = 64 \<and> length (ed_Sign ed priv data) = 64
        \<and> ed_Verify ed pub data (ed_Sign ed priv data))"

section \<open>The code\<close>

definition GenerateKeyPair :: "ed25519 \<Rightarrow> byte list \<Rightarrow> (byte list \<times> byte list) res" where
  "GenerateKeyPair ed rnd =
     (case ed_GenerateKey ed rnd of
        Inl err \<Rightarrow> Inl err
      | Inr (pubKey, privKey) \<Rightarrow> Inr (privKey, pubKey))"

text \<open>Signing with a key of the wrong length panics.\<close>

definition Sign :: "ed25519 \<Rightarrow> byte list \<Rightarrow> byte list \<Rightarrow> byte list res" where
  "Sign ed privateKey data =
     (if length privateKey \<noteq> PrivateKeySize then Inl (Panic ''ed25519: bad private key length'')
      else Inr (ed_Sign ed privateKey data))"

definition crypto_Verify :: "ed25519 \<Rightarrow> byte list \<Rightarrow> byte list \<Rightarrow> byte list \<Rightarrow> bool" where
  "crypto_Verify ed publicKey data sig =
     (if length publicKey \<noteq> PublicKeySize then False else ed_Verify ed publicKey data sig)"

definition SignMessage :: "ed25519 \<Rightarrow> SignedMessage \<Rightarrow> byte list \<Rightarrow> SignedMessage res" where
  "SignMessage ed msg privateKey =
     (case Sign ed privateKey (SigningPayload msg) of
        Inl p \<Rightarrow> Inl p
      | Inr sig \<Rightarrow> Inr (msg\<lparr>Signature := sig\<rparr>))"

definition VerifyMessage :: "ed25519 \<Rightarrow> SignedMessage \<Rightarrow> bool" where
  "VerifyMessage ed msg =
     (if length (Signature msg) = 0 then False
      else crypto_Verify ed (PublicKey msg) (SigningPayload msg) (Signature msg))"

section \<open>Lemmas\<close>

lemma SigningPayload_signature [simp]: "SigningPayload (m\<lparr>Signature := s\<rparr>) = SigningPayload m"
  by (simp add: SigningPayload_def)

lemma VerifyMessage_iff:
  "VerifyMessage ed m \<longleftrightarrow> Signature m \<noteq> [] \<and> length (PublicKey m) = 32
     \<and> ed_Verify ed (PublicKey m) (SigningPayload m) (Signature m)"
  by (simp add: VerifyMessage_def crypto_Verify_def PublicKeySize_def)

text \<open>
  A scheme for concrete runs: a signature is the public key, kept in the second half of the private
  key, followed by the digest of the data. It satisfies the promises above and offers no secrecy.
\<close>

definition toy_scheme :: ed25519 where
  "toy_scheme =
     \<lparr>ed_GenerateKey = (\<lambda>rnd. if length rnd = 32 then Inr (sha256 rnd, rnd @ sha256 rnd)
                             else Inl (External ''unexpected EOF'')),
      ed_Sign = (\<lambda>priv data. drop 32 priv @ sha256 data),
      ed_Verify = (\<lambda>pub data sig. sig = pub @ sha256 data)\<rparr>"

lemma toy_scheme_correct: "ed25519_correct toy_scheme"
  by (auto simp: ed25519_correct_def toy_scheme_def split: if_splits)

section \<open>Properties\<close>

text \<open>
  A message signed with a generated key pair is accepted under its public key: signing does
  not panic, changes the signature field only, and the result passes \<open>VerifyMessage\<close>.
\<close>

theorem SignMessage_verifies:
  assumes "ed25519_correct ed" "GenerateKeyPair ed rnd = Inr (priv, pub)" "PublicKey m = pub"
  shows "\<exists>sig. SignMessage ed m priv = Inr (m\<lparr>Signature := sig\<rparr>) \<and> length sig = 64
    \<and> VerifyMessage ed (m\<lparr>Signature := sig\<rparr>)"
proof -
  have "ed_GenerateKey ed rnd = Inr (pub, priv)"
    using assms(2) by (auto simp: GenerateKeyPair_def split: sum.splits)
  with assms(1) have *: "length pub = 32" "length priv = 64"
    "length (ed_Sign ed priv data) = 64" "ed_Verify ed pub data (ed_Sign ed priv data)" for data
    unfolding ed25519_correct_def by blast+
  then have "ed_Sign ed priv (SigningPayload m) \<noteq> []"
    by (metis list.size(3) zero_neq_numeral)
  with * assms(3) show ?thesis
    by (intro exI [of _ "ed_Sign ed priv (SigningPayload m)"])
      (simp add: SignMessage_def Sign_def PrivateKeySize_def VerifyMessage_iff)
qed

theorem SignMessage_verifies_witness:
  "\<exists>sig. SignMessage toy_scheme (example_message\<lparr>PublicKey := sha256 (replicate 32 5)\<rparr>)
         (replicate 32 5 @ sha256 (replicate 32 5))
       = Inr (example_message\<lparr>PublicKey := sha256 (replicate 32 5)\<rparr>\<lparr>Signature := sig\<rparr>)
     \<and> length sig = 64
     \<and> VerifyMessage toy_scheme (example_message\<lparr>PublicKey := sha256 (replicate 32 5)\<rparr>\<lparr>Signature := sig\<rparr>)"
  by (rule SignMessage_verifies [where rnd = "replicate 32 5"])
    (rule toy_scheme_correct, simp_all add: GenerateKeyPair_def toy_scheme_def)

text \<open>
  A signature is bound to the whole message: if two messages with valid UTF-8 strings carry
  the same public key and the same signature and both verify, they are the same message, or the
  scheme accepts that one signature under that one key for two different byte strings.
\<close>

theorem VerifyMessage_binds:
  assumes "message_utf8 m" "message_utf8 m'" "PublicKey m = PublicKey m'" "Signature m = Signature m'"
    and "VerifyMessage ed m" "VerifyMessage ed m'"
  shows "m = m' \<or> (\<exists>d d'. d \<noteq> d' \<and> ed_Verify ed (PublicKey m) d (Signature m)
    \<and> ed_Verify ed (PublicKey m) d' (Signature m))"
proof (cases "SigningPayload m = SigningPayload m'")
  case True
  then have "m\<lparr>Signature := []\<rparr> = m'\<lparr>Signature := []\<rparr>"
    using SigningPayload_cancel [OF assms(1,2), of "[]" "[]"] by simp
  with assms(4) have "m = m'"
    by (cases m; cases m') simp
  then show ?thesis ..
next
  case False
  with assms(3-6) show ?thesis
    by (metis VerifyMessage_iff)
qed

definition signed_example :: SignedMessage where
  "signed_example = example_message\<lparr>Signature := replicate 32 7 @ sha256 (SigningPayload example_message)\<rparr>"

lemma signed_example_verifies: "VerifyMessage toy_scheme signed_example"
  by (simp add: VerifyMessage_iff signed_example_def toy_scheme_def)
    (simp add: example_message_def)

lemma signed_example_utf8: "message_utf8 signed_example"
  using example_message_utf8 by (simp add: message_utf8_def signed_example_def)

theorem VerifyMessage_binds_witness:
  "signed_example = signed_example \<or> (\<exists>d d'. d \<noteq> d'
    \<and> ed_Verify toy_scheme (PublicKey signed_example) d (Signature signed_example)
    \<and> ed_Verify toy_scheme (PublicKey signed_example) d' (Signature signed_example))"
  by (rule VerifyMessage_binds)
    (simp_all add: signed_example_utf8 signed_example_verifies)

text \<open>
  Malformed messages are rejected before the scheme is consulted: a key that is not 32 bytes
  long, on which the library would panic, or an empty signature never verifies.
\<close>

theorem VerifyMessage_guards:
  "length (PublicKey m) \<noteq> 32 \<or> Signature m = [] \<Longrightarrow> \<not> VerifyMessage ed m"
  by (auto simp: VerifyMessage_iff)

theorem VerifyMessage_guards_witness:
  "\<not> VerifyMessage toy_scheme (example_message\<lparr>PublicKey := [1, 2, 3]\<rparr>)"
  by (rule VerifyMessage_guards) simp

end
