(* ===== verification/Merkle.thy ===== *)
theory Merkle
  imports Sha256 Go_Encoding
begin

text \<open>
  Package \<open>internal/merkle\<close>: the Merkle root over hexadecimal leaf hashes, inclusion proofs and
  their verification. The loops over layers are recursive functions that shrink the layer; the
  security statements end in an explicit SHA-256 collision between hashed inputs.
\<close>

section \<open>The code\<close>

definition hashPair :: "string \<Rightarrow> string \<Rightarrow> string" where
  "hashPair left right = hex_encode (sha256 (bytes_of (left @ right)))"

text \<open>The inner loop \<open>for i := 0; i < len(layer); i += 2\<close> on a layer of even length.\<close>

fun next_layer :: "string list \<Rightarrow> string list" where
  "next_layer (a # b # layer) = hashPair a b # next_layer layer"
| "next_layer _ = []"

text \<open>The duplication of the last node of an odd layer.\<close>

definition pad_layer :: "string list \<Rightarrow> string list" where
  "pad_layer layer = (if odd (length layer) then layer @ [last layer] else layer)"

lemma length_next_layer [simp]: "length (next_layer xs) = length xs div 2"
  by (induction xs rule: next_layer.induct) auto

lemma length_pad_layer [simp]: "length (pad_layer xs) = 2 * ((length xs + 1) div 2)"
  by (simp add: pad_layer_def)

function Root_loop :: "string list \<Rightarrow> string" where
  "Root_loop layer =
     (if 1 < length layer then Root_loop (next_layer (pad_layer layer)) else hd layer)"
  by pat_completeness auto
termination
  by (relation "measure length") auto

definition Root :: "string list \<Rightarrow> string" where
  "Root leaves = (if leaves = [] then '''' else Root_loop leaves)"

record ProofNode =
  Hash :: string
  IsLeft :: bool

text \<open>One iteration of the loop of \<open>Proof\<close>: the sibling of \<open>idx\<close> in the padded layer.\<close>

definition sibling :: "string list \<Rightarrow> nat \<Rightarrow> ProofNode" where
  "sibling layer idx =
     (if idx mod 2 = 0 then \<lparr>Hash = layer ! (idx + 1), IsLeft = False\<rparr>
      else \<lparr>Hash = layer ! (idx - 1), IsLeft = True\<rparr>)"

function Proof_loop :: "string list \<Rightarrow> nat \<Rightarrow> ProofNode list \<Rightarrow> ProofNode list \<times> string" where
  "Proof_loop layer idx proof =
     (if 1 < length layer then
        (let padded = pad_layer layer
         in Proof_loop (next_layer padded) (idx div 2) (proof @ [sibling padded idx]))
      else (proof, hd layer))"
  by pat_completeness auto
termination
  by (relation "measure (\<lambda>(layer, idx, proof). length layer)") auto

definition Proof :: "string list \<Rightarrow> int \<Rightarrow> ProofNode list \<times> string" where
  "Proof leaves index =
     (if index < 0 \<or> int (length leaves) \<le> index then ([], '''')
      else Proof_loop leaves (nat index) [])"

definition proof_step :: "ProofNode \<Rightarrow> string \<Rightarrow> string" where
  "proof_step node running =
     (if IsLeft node then hashPair (Hash node) running else hashPair running (Hash node))"

definition VerifyProof :: "string \<Rightarrow> ProofNode list \<Rightarrow> string \<Rightarrow> bool" where
  "VerifyProof leaf proof root \<longleftrightarrow> fold proof_step proof leaf = root"

declare Root_loop.simps [simp del] Proof_loop.simps [simp del]

section \<open>Layers\<close>

lemma hd_singleton: "length xs = 1 \<Longrightarrow> i < length xs \<Longrightarrow> xs ! i = hd xs"
  by (cases xs) auto

lemma nth_pad_layer: "i < length xs \<Longrightarrow> pad_layer xs ! i = xs ! i"
  by (simp add: pad_layer_def nth_append)

lemma set_pad_layer [simp]: "set (pad_layer xs) = set xs"
  by (cases xs rule: rev_cases) (auto simp: pad_layer_def)

lemma nth_next_layer:
  "i < length xs div 2 \<Longrightarrow> next_layer xs ! i = hashPair (xs ! (2 * i)) (xs ! (2 * i + 1))"
proof (induction xs arbitrary: i rule: next_layer.induct)
  case (1 a b layer)
  then show ?case by (cases i) auto
qed auto

lemma next_layer_nonempty: "1 < length xs \<Longrightarrow> next_layer (pad_layer xs) \<noteq> []"
  by (simp flip: length_greater_0_conv)

lemma next_layer_hex: "x \<in> set (next_layer xs) \<Longrightarrow> ch \<in> set x \<Longrightarrow> is_hex ch"
  by (induction xs rule: next_layer.induct) (auto simp: hashPair_def dest: hex_encode_is_hex)

lemma Root_loop_hex:
  "xs \<noteq> [] \<Longrightarrow> \<forall>x\<in>set xs. \<forall>ch\<in>set x. is_hex ch \<Longrightarrow> ch \<in> set (Root_loop xs) \<Longrightarrow> is_hex ch"
proof (induction xs rule: Root_loop.induct)
  case (1 layer)
  then show ?case
    using next_layer_hex next_layer_nonempty [of layer]
    by (cases "1 < length layer") (auto simp: Root_loop.simps [of layer])
qed

lemma Root_hex: "1 < length leaves \<Longrightarrow> ch \<in> set (Root leaves) \<Longrightarrow> is_hex ch"
  using Root_loop_hex [of "next_layer (pad_layer leaves)" ch] next_layer_hex next_layer_nonempty [of leaves]
  by (auto simp: Root_def Root_loop.simps [of leaves] split: if_splits)

text \<open>The number of layers above the leaves.\<close>

function depth :: "nat \<Rightarrow> nat" where
  "depth n = (if 1 < n then Suc (depth ((n + 1) div 2)) else 0)"
  by pat_completeness auto
termination
  by (relation "measure id") auto

declare depth.simps [simp del]

lemma depth_le: "n \<le> 2 ^ k \<Longrightarrow> depth n \<le> k"
proof (induction k arbitrary: n)
  case 0
  then show ?case by (simp add: depth.simps)
next
  case (Suc k)
  then have "(n + 1) div 2 \<le> 2 ^ k"
    by simp
  with Suc.IH [of "(n + 1) div 2"] show ?case
    by (simp add: depth.simps [of n])
qed

section \<open>Completeness of proofs\<close>

lemma proof_step_sibling:
  assumes "i < length xs" "1 < length xs"
  shows "proof_step (sibling (pad_layer xs) i) (xs ! i) = next_layer (pad_layer xs) ! (i div 2)"
proof -
  have h: "i div 2 < length (pad_layer xs) div 2"
    using assms by simp
  show ?thesis
  proof (cases "i mod 2 = 0")
    case True
    then have "2 * (i div 2) = i"
      by presburger
    with True nth_next_layer [OF h] assms(1) show ?thesis
      by (simp add: proof_step_def sibling_def nth_pad_layer)
  next
    case False
    then have "2 * (i div 2) = i - 1" "i - 1 + 1 = i" "i mod 2 = 1"
      by presburger+
    with nth_next_layer [OF h] assms(1) show ?thesis
      by (simp add: proof_step_def sibling_def nth_pad_layer)
  qed
qed

lemma Proof_loop_spec:
  "i < length xs \<Longrightarrow>
   \<exists>pf. Proof_loop xs i acc = (acc @ pf, Root_loop xs) \<and> fold proof_step pf (xs ! i) = Root_loop xs
     \<and> length pf = depth (length xs)"
proof (induction xs i acc rule: Proof_loop.induct)
  case (1 xs i acc)
  show ?case
  proof (cases "1 < length xs")
    case False
    with "1.prems" have "length xs = 1"
      by simp
    with "1.prems" False show ?thesis
      by (simp add: Proof_loop.simps [of xs] Root_loop.simps [of xs] depth.simps hd_singleton)
  next
    case True
    have "i div 2 < length (next_layer (pad_layer xs))"
      using "1.prems" by simp
    from "1.IH" [OF True refl this] obtain pf where
      "Proof_loop (next_layer (pad_layer xs)) (i div 2) (acc @ [sibling (pad_layer xs) i]) =
         ((acc @ [sibling (pad_layer xs) i]) @ pf, Root_loop (next_layer (pad_layer xs)))"
      "fold proof_step pf (next_layer (pad_layer xs) ! (i div 2)) = Root_loop (next_layer (pad_layer xs))"
      "length pf = depth (length (next_layer (pad_layer xs)))"
      by blast
    with True "1.prems" show ?thesis
      by (intro exI [of _ "sibling (pad_layer xs) i # pf"])
        (simp add: Proof_loop.simps [of xs] Root_loop.simps [of xs] depth.simps [of "length xs"]
          proof_step_sibling Let_def)
  qed
qed

lemma Proof_spec:
  assumes "i < length leaves"
  obtains pf where "Proof leaves (int i) = (pf, Root leaves)"
    "VerifyProof (leaves ! i) pf (Root leaves)" "length pf = depth (length leaves)"
proof -
  have "leaves \<noteq> []"
    using assms by auto
  then show thesis
    using Proof_loop_spec [OF assms, of "[]"] assms
    by (auto simp: Proof_def Root_def VerifyProof_def intro!: that)
qed

section \<open>Soundness\<close>

text \<open>The byte strings hashed to build a tree, and to check a proof.\<close>

fun layer_inputs :: "string list \<Rightarrow> byte list set" where
  "layer_inputs (a # b # layer) = insert (bytes_of (a @ b)) (layer_inputs layer)"
| "layer_inputs _ = {}"

function Root_inputs :: "string list \<Rightarrow> byte list set" where
  "Root_inputs layer =
     (if 1 < length layer
      then layer_inputs (pad_layer layer) \<union> Root_inputs (next_layer (pad_layer layer)) else {})"
  by pat_completeness auto
termination
  by (relation "measure length") auto

declare Root_inputs.simps [simp del]

definition step_input :: "ProofNode \<Rightarrow> string \<Rightarrow> byte list" where
  "step_input node running =
     bytes_of (if IsLeft node then Hash node @ running else running @ Hash node)"

fun proof_inputs :: "ProofNode list \<Rightarrow> string \<Rightarrow> byte list set" where
  "proof_inputs [] running = {}"
| "proof_inputs (n # ns) running = insert (step_input n running) (proof_inputs ns (proof_step n running))"

definition hash_sized :: "string list \<Rightarrow> bool" where
  "hash_sized xs \<longleftrightarrow> (\<forall>x\<in>set xs. length x = 64)"

lemma length_hashPair [simp]: "length (hashPair a b) = 64"
  by (simp add: hashPair_def)

lemma hash_sized_pad [simp]: "hash_sized (pad_layer xs) = hash_sized xs"
  by (simp add: hash_sized_def)

lemma hash_sized_next [simp]: "hash_sized (next_layer xs)"
  by (induction xs rule: next_layer.induct) (auto simp: hash_sized_def)

lemma in_next_layer:
  "x \<in> set (next_layer xs) \<Longrightarrow>
   \<exists>a b. x = hashPair a b \<and> a \<in> set xs \<and> b \<in> set xs \<and> bytes_of (a @ b) \<in> layer_inputs xs"
  by (induction xs rule: next_layer.induct) auto

lemma proof_step_input: "proof_step n r = hex_encode (sha256 (step_input n r))"
  by (simp add: proof_step_def step_input_def hashPair_def)

lemma fold_proof_sound:
  assumes "hash_sized xs" "xs \<noteq> []" "length r = 64" "length pf = depth (length xs)"
    and "fold proof_step pf r = Root_loop xs"
  shows "r \<in> set xs \<or> collide (proof_inputs pf r) (Root_inputs xs)"
  using assms
proof (induction pf arbitrary: xs r)
  case Nil
  then have "\<not> 1 < length xs"
    by (auto simp: depth.simps [of "length xs"] split: if_splits)
  with Nil show ?case
    by (simp add: Root_loop.simps [of xs])
next
  case (Cons n pf)
  then have gt: "1 < length xs"
    by (auto simp: depth.simps [of "length xs"] split: if_splits)
  let ?next = "next_layer (pad_layer xs)"
  have "proof_step n r \<in> set ?next \<or> collide (proof_inputs pf (proof_step n r)) (Root_inputs ?next)"
    using Cons.prems gt next_layer_nonempty [OF gt]
    by (intro Cons.IH)
      (simp_all add: Root_loop.simps [of xs] depth.simps [of "length xs"] proof_step_def)
  then show ?case
  proof
    assume "proof_step n r \<in> set ?next"
    then obtain a b where ab: "proof_step n r = hashPair a b" "a \<in> set xs" "b \<in> set xs"
      "bytes_of (a @ b) \<in> layer_inputs (pad_layer xs)"
      using in_next_layer by fastforce
    show ?thesis
    proof (cases "step_input n r = bytes_of (a @ b)")
      case True
      with ab(2,3) Cons.prems(1,3) have "r = a \<or> r = b"
        by (auto simp: step_input_def hash_sized_def append_eq_append_conv split: if_splits)
      with ab show ?thesis by auto
    next
      case False
      with ab gt show ?thesis
        by (intro disjI2 collideI [of "step_input n r" _ "bytes_of (a @ b)"])
          (simp_all add: proof_step_input hashPair_def Root_inputs.simps [of xs])
    qed
  next
    assume "collide (proof_inputs pf (proof_step n r)) (Root_inputs ?next)"
    then have "collide (proof_inputs (n # pf) r) (Root_inputs xs)"
      by (rule collide_mono) (use gt in \<open>auto simp: Root_inputs.simps [of xs]\<close>)
    then show ?thesis ..
  qed
qed

lemma next_layer_inject:
  assumes "next_layer xs = next_layer ys" "length xs = length ys" "even (length xs)"
    "hash_sized xs" "hash_sized ys"
  shows "xs = ys \<or> collide (layer_inputs xs) (layer_inputs ys)"
  using assms
proof (induction xs arbitrary: ys rule: next_layer.induct)
  case (1 a b xs)
  then obtain c d ys' where ys: "ys = c # d # ys'"
    by (cases ys; cases "tl ys") auto
  have eq: "sha256 (bytes_of (a @ b)) = sha256 (bytes_of (c @ d))"
    using "1.prems"(1) by (simp add: ys hashPair_def)
  have "xs = ys' \<or> collide (layer_inputs xs) (layer_inputs ys')"
    using 1 by (simp add: ys hash_sized_def)
  then show ?case
  proof
    assume xs: "xs = ys'"
    show ?thesis
    proof (cases "a @ b = c @ d")
      case True
      then show ?thesis
        using "1.prems"(4,5) by (simp add: ys xs hash_sized_def)
    next
      case False
      with eq show ?thesis
        by (intro disjI2 collideI [of "bytes_of (a @ b)" _ "bytes_of (c @ d)"]) (simp_all add: ys)
    qed
  next
    assume "collide (layer_inputs xs) (layer_inputs ys')"
    then show ?thesis
      by (intro disjI2) (erule collide_mono; auto simp: ys)
  qed
qed auto

lemma pad_layer_inject: "length xs = length ys \<Longrightarrow> pad_layer xs = pad_layer ys \<longleftrightarrow> xs = ys"
  by (auto simp: pad_layer_def)

lemma Root_loop_inject:
  assumes "length xs = length ys" "xs \<noteq> []" "hash_sized xs" "hash_sized ys"
    and "Root_loop xs = Root_loop ys"
  shows "xs = ys \<or> collide (Root_inputs xs) (Root_inputs ys)"
  using assms
proof (induction xs arbitrary: ys rule: Root_loop.induct)
  case (1 xs)
  show ?case
  proof (cases "1 < length xs")
    case False
    then obtain x y where "xs = [x]" "ys = [y]"
      using "1.prems"(1,2) by (cases xs; cases ys) auto
    with "1.prems"(5) show ?thesis by (simp add: Root_loop.simps)
  next
    case True
    let ?f = "\<lambda>zs. next_layer (pad_layer zs)"
    have "?f xs = ?f ys \<or> collide (Root_inputs (?f xs)) (Root_inputs (?f ys))"
      using "1.prems" True next_layer_nonempty [OF True]
      by (intro "1.IH") (simp_all add: Root_loop.simps [of xs] Root_loop.simps [of ys])
    moreover have "pad_layer xs = pad_layer ys \<or> collide (layer_inputs (pad_layer xs)) (layer_inputs (pad_layer ys))"
      if "?f xs = ?f ys"
      using that "1.prems" by (intro next_layer_inject) simp_all
    ultimately show ?thesis
      using True "1.prems"(1) collide_UnI
      by (simp add: pad_layer_inject Root_inputs.simps [of xs] Root_inputs.simps [of ys]) blast
  qed
qed

section \<open>Properties\<close>

text \<open>
  Completeness: for every index in range, \<open>Proof\<close> returns the root that \<open>Root\<close> computes and
  a proof that \<open>VerifyProof\<close> accepts for the leaf at that index, of one node per layer.
\<close>

theorem Proof_verifies:
  assumes "i < length leaves"
  shows "\<exists>pf. Proof leaves (int i) = (pf, Root leaves) \<and> VerifyProof (leaves ! i) pf (Root leaves)
    \<and> length pf = depth (length leaves)"
  using assms by (rule Proof_spec) blast

theorem Proof_verifies_witness:
  "\<exists>pf. Proof [''a'', ''b'', ''c''] (int 2) = (pf, Root [''a'', ''b'', ''c''])
    \<and> VerifyProof ([''a'', ''b'', ''c''] ! 2) pf (Root [''a'', ''b'', ''c''])
    \<and> length pf = depth (length [''a'', ''b'', ''c''])"
  by (rule Proof_verifies) simp

text \<open>
  C7. Soundness: where a proof with one node per layer verifies a 64-character hash against the
  root of a list of 64-character leaves, the hash is one of the leaves, or the inputs hashed by
  the verifier and by the tree contain a SHA-256 collision.
\<close>

theorem VerifyProof_sound:
  assumes "hash_sized leaves" "leaves \<noteq> []" "length leaf = 64"
    and "length pf = depth (length leaves)" "VerifyProof leaf pf (Root leaves)"
  shows "leaf \<in> set leaves \<or> collide (proof_inputs pf leaf) (Root_inputs leaves)"
  using assms by (intro fold_proof_sound) (simp_all add: VerifyProof_def Root_def)

theorem VerifyProof_sound_witness:
  "let xs = [replicate 64 CHR ''a'', replicate 64 CHR ''b''];
       pf = [\<lparr>Hash = replicate 64 CHR ''b'', IsLeft = False\<rparr>]
   in hd xs \<in> set xs \<or> collide (proof_inputs pf (hd xs)) (Root_inputs xs)"
  unfolding Let_def
  by (rule VerifyProof_sound)
    (simp_all add: hash_sized_def depth.simps VerifyProof_def proof_step_def Root_def Root_loop.simps
      pad_layer_def)

text \<open>
  The root commits to the leaves: two lists of 64-character leaves of the same length with the
  same root are equal, or the hashed inputs of the two trees contain a SHA-256 collision.
\<close>

theorem Root_binds:
  assumes "length xs = length ys" "hash_sized xs" "hash_sized ys" "Root xs = Root ys"
  shows "xs = ys \<or> collide (Root_inputs xs) (Root_inputs ys)"
proof (cases "xs = []")
  case False
  then have "ys \<noteq> []"
    using assms(1) by auto
  with False assms show ?thesis
    by (intro Root_loop_inject) (simp_all add: Root_def)
qed (use assms(1) in simp)

theorem Root_binds_witness:
  "let xs = [replicate 64 CHR ''a'', replicate 64 CHR ''b'']
   in xs = xs \<or> collide (Root_inputs xs) (Root_inputs xs)"
  unfolding Let_def by (rule Root_binds) (simp_all add: hash_sized_def)

text \<open>
  Across lengths the root is not injective: repeating the last leaf of an odd list leaves the
  root as it is, for any leaves, because the layer is padded the same way. A root alone does not
  fix the number of leaves.
\<close>

theorem Root_repeated_leaf: "Root [a, b, c] = Root [a, b, c, c]"
  by (simp add: Root_def Root_loop.simps pad_layer_def)

text \<open>
  Proofs are logarithmic: over at most \<open>2 ^ k\<close> leaves no proof has more than \<open>k\<close> nodes, for
  any index; a sealed window of 100 entries needs at most 7.
\<close>

theorem Proof_length_bound:
  assumes "length leaves \<le> 2 ^ k"
  shows "length (fst (Proof leaves index)) \<le> k"
proof (cases "0 \<le> index \<and> index < int (length leaves)")
  case True
  then obtain i where i: "index = int i" "i < length leaves"
    by (metis nonneg_int_cases of_nat_less_iff)
  from Proof_spec [OF i(2)] obtain pf where "Proof leaves (int i) = (pf, Root leaves)"
    "length pf = depth (length leaves)" .
  with depth_le [OF assms] i(1) show ?thesis
    by simp
qed (auto simp: Proof_def)

theorem Proof_length_bound_witness: "length (fst (Proof (replicate 100 ''h'') 42)) \<le> 7"
  by (rule Proof_length_bound) simp

end
