(* ===== verification/Storage.thy ===== *)
theory Storage
  imports Models
begin

text \<open>
  Package \<open>internal/storage\<close>: the \<open>Storage\<close> port as a record of its methods over an arbitrary
  state, the contract that the log relies on as a locale, and the in-memory implementation with
  its interpretation. The abstract view of a store is, per chat, the list of its entries and the
  list of its snapshots.
\<close>

section \<open>The port\<close>

definition ErrNotFound :: go_error where
  "ErrNotFound = Sentinel ''storage: not found''"

definition ErrSequenceGap :: go_error where
  "ErrSequenceGap = Sentinel ''storage: non-contiguous sequence''"

declare ErrNotFound_def [err_defs] ErrSequenceGap_def [err_defs]

text \<open>
  A Go interface value is a method table and a state. Methods that write return the error, if any,
  and the new state; methods that read return a result.
\<close>

record 's storage_ops =
  AppendEntry :: "string \<Rightarrow> LogEntry \<Rightarrow> 's \<Rightarrow> go_error option \<times> 's"
  LastEntry :: "string \<Rightarrow> 's \<Rightarrow> LogEntry res"
  Entry :: "string \<Rightarrow> uint64 \<Rightarrow> 's \<Rightarrow> LogEntry res"
  EntriesSince :: "string \<Rightarrow> uint64 \<Rightarrow> 's \<Rightarrow> LogEntry list res"
  SaveSnapshot :: "MerkleSnapshot \<Rightarrow> 's \<Rightarrow> go_error option \<times> 's"
  LatestSnapshot :: "string \<Rightarrow> 's \<Rightarrow> MerkleSnapshot res"
  SnapshotAt :: "string \<Rightarrow> uint64 \<Rightarrow> 's \<Rightarrow> MerkleSnapshot res"

section \<open>The contract\<close>

text \<open>
  What the log relies on. \<open>ents\<close> and \<open>snaps\<close> abstract a state to the lists it holds, \<open>ok\<close> is the
  implementation's invariant, \<open>chat_name\<close> the chat identifiers it can represent, \<open>storable\<close> and \<open>stamp\<close> describe what it keeps of a value: an
  implementation need only keep the entries it can represent and the snapshots that end in such an
  entry, and may round a snapshot's creation time.
\<close>

locale storage_port =
  fixes S :: "'s storage_ops"
    and ents :: "'s \<Rightarrow> string \<Rightarrow> LogEntry list"
    and snaps :: "'s \<Rightarrow> string \<Rightarrow> MerkleSnapshot list"
    and ok :: "'s \<Rightarrow> bool"
    and chat_name :: "string \<Rightarrow> bool"
    and storable :: "string \<Rightarrow> LogEntry \<Rightarrow> bool"
    and stamp :: "Time \<Rightarrow> Time"
  assumes ents_bound: "ok s \<Longrightarrow> length (ents s c) < max_slice"
    and snaps_bound: "ok s \<Longrightarrow> length (snaps s c) < max_slice"
    and storable_name: "storable c e \<Longrightarrow> chat_name c"
    and append_tip:
      "\<lbrakk>ok s; unat (Sequence e) = length (ents s c); length (ents s c) + 1 < max_slice; storable c e\<rbrakk> \<Longrightarrow>
       \<exists>s'. AppendEntry S c e s = (None, s') \<and> ok s' \<and> snaps s' = snaps s
         \<and> ents s' = (ents s)(c := ents s c @ [e])"
    and last_entry:
      "\<lbrakk>ok s; chat_name c\<rbrakk> \<Longrightarrow> LastEntry S c s = (if ents s c = [] then Inl ErrNotFound else Inr (last (ents s c)))"
    and entry_at:
      "\<lbrakk>ok s; chat_name c\<rbrakk> \<Longrightarrow> Entry S c i s =
         (if unat i < length (ents s c) then Inr (ents s c ! unat i) else Inl ErrNotFound)"
    and entries_since:
      "\<lbrakk>ok s; chat_name c; unat i < max_slice\<rbrakk> \<Longrightarrow>
       EntriesSince S c i s = Inr (drop (unat i) (ents s c))"
    and save_next:
      "\<lbrakk>ok s; unat (SnapshotIndex p) = length (snaps s (snap_ChatID p));
        length (snaps s (snap_ChatID p)) + 1 < max_slice;
        storable (snap_ChatID p) e; LastEntryHash p = EntryHash e; \<forall>ch\<in>set (MerkleRoot p). is_hex ch\<rbrakk> \<Longrightarrow>
       \<exists>s'. SaveSnapshot S p s = (None, s') \<and> ok s' \<and> ents s' = ents s
         \<and> snaps s' = (snaps s)(snap_ChatID p :=
              snaps s (snap_ChatID p) @ [p\<lparr>CreatedAt := stamp (CreatedAt p)\<rparr>])"
    and latest_snapshot:
      "\<lbrakk>ok s; chat_name c\<rbrakk> \<Longrightarrow> LatestSnapshot S c s =
         (if snaps s c = [] then Inl ErrNotFound else Inr (last (snaps s c)))"
    and snapshot_at:
      "\<lbrakk>ok s; chat_name c\<rbrakk> \<Longrightarrow> SnapshotAt S c i s =
         (if unat i < length (snaps s c) then Inr (snaps s c ! unat i) else Inl ErrNotFound)"

text \<open>
  The interface's comments ask for more: an entry whose sequence is not exactly the next one must
  be rejected, and a rejected call must not change anything; a read from any number returns the
  entries from there on, also from one that no signed 64-bit integer holds.
\<close>

locale strict_storage_port = storage_port +
  assumes append_gap:
    "\<lbrakk>ok s; chat_name c; unat (Sequence e) \<noteq> length (ents s c)\<rbrakk> \<Longrightarrow> AppendEntry S c e s = (Some ErrSequenceGap, s)"
    and entries_beyond:
    "\<lbrakk>ok s; chat_name c; \<not> unat i < max_slice\<rbrakk> \<Longrightarrow> EntriesSince S c i s = Inr []"
begin

lemma entries_since_total:
  "\<lbrakk>ok s; chat_name c\<rbrakk> \<Longrightarrow> EntriesSince S c i s = Inr (drop (unat i) (ents s c))"
  using entries_since [of s c i] entries_beyond [of s c i] ents_bound [of s c]
  by (cases "unat i < max_slice") simp_all

lemma append_only:
  assumes "ok s" "length (ents s c) + 1 < max_slice" "storable c e" "AppendEntry S c e s = (r, s')"
  shows "ok s' \<and> (\<forall>d. prefix (ents s d) (ents s' d)) \<and> snaps s' = snaps s"
  using append_tip [OF assms(1) _ assms(2,3)] append_gap [OF assms(1) storable_name [OF assms(3)]] assms(1,4)
  by (cases "unat (Sequence e) = length (ents s c)") (fastforce simp: prefix_def)+

end

section \<open>The in-memory implementation\<close>

record InMemoryStorage =
  entries :: "string \<rightharpoonup> LogEntry list"
  snapshots :: "string \<rightharpoonup> MerkleSnapshot list"

text \<open>Reading a missing key of a Go map of slices gives the nil slice.\<close>

definition slice_at :: "(string \<rightharpoonup> 'a list) \<Rightarrow> string \<Rightarrow> 'a list" where
  "slice_at m k = (case m k of None \<Rightarrow> [] | Some xs \<Rightarrow> xs)"

definition NewInMemoryStorage :: InMemoryStorage where
  "NewInMemoryStorage = \<lparr>entries = Map.empty, snapshots = Map.empty\<rparr>"

definition mem_AppendEntry ::
  "string \<Rightarrow> LogEntry \<Rightarrow> InMemoryStorage \<Rightarrow> go_error option \<times> InMemoryStorage" where
  "mem_AppendEntry chatID entry s =
     (let existing = slice_at (entries s) chatID
      in if ulen existing \<noteq> Sequence entry then (Some ErrSequenceGap, s)
         else (None, s\<lparr>entries := (entries s)(chatID \<mapsto> existing @ [entry])\<rparr>))"

definition mem_LastEntry :: "string \<Rightarrow> InMemoryStorage \<Rightarrow> LogEntry res" where
  "mem_LastEntry chatID s =
     (let existing = slice_at (entries s) chatID
      in if length existing = 0 then Inl ErrNotFound else Inr (existing ! (length existing - 1)))"

definition mem_Entry :: "string \<Rightarrow> uint64 \<Rightarrow> InMemoryStorage \<Rightarrow> LogEntry res" where
  "mem_Entry chatID sequence s =
     (let existing = slice_at (entries s) chatID
      in if ulen existing \<le> sequence then Inl ErrNotFound else Inr (existing ! unat sequence))"

definition mem_EntriesSince :: "string \<Rightarrow> uint64 \<Rightarrow> InMemoryStorage \<Rightarrow> LogEntry list res" where
  "mem_EntriesSince chatID fromSequence s =
     (let existing = slice_at (entries s) chatID
      in if ulen existing \<le> fromSequence then Inr [] else Inr (drop (unat fromSequence) existing))"

definition mem_SaveSnapshot ::
  "MerkleSnapshot \<Rightarrow> InMemoryStorage \<Rightarrow> go_error option \<times> InMemoryStorage" where
  "mem_SaveSnapshot snap s =
     (None, s\<lparr>snapshots := (snapshots s)(snap_ChatID snap \<mapsto>
                slice_at (snapshots s) (snap_ChatID snap) @ [snap])\<rparr>)"

definition mem_LatestSnapshot :: "string \<Rightarrow> InMemoryStorage \<Rightarrow> MerkleSnapshot res" where
  "mem_LatestSnapshot chatID s =
     (let snaps = slice_at (snapshots s) chatID
      in if length snaps = 0 then Inl ErrNotFound else Inr (snaps ! (length snaps - 1)))"

definition mem_SnapshotAt :: "string \<Rightarrow> uint64 \<Rightarrow> InMemoryStorage \<Rightarrow> MerkleSnapshot res" where
  "mem_SnapshotAt chatID index s =
     (let snaps = slice_at (snapshots s) chatID
      in if ulen snaps \<le> index then Inl ErrNotFound else Inr (snaps ! unat index))"

definition InMemoryStorage_ops :: "InMemoryStorage storage_ops" where
  "InMemoryStorage_ops =
     \<lparr>AppendEntry = mem_AppendEntry, LastEntry = mem_LastEntry, Entry = mem_Entry,
      EntriesSince = mem_EntriesSince, SaveSnapshot = mem_SaveSnapshot,
      LatestSnapshot = mem_LatestSnapshot, SnapshotAt = mem_SnapshotAt\<rparr>"

section \<open>It satisfies the contract\<close>

definition mem_ents :: "InMemoryStorage \<Rightarrow> string \<Rightarrow> LogEntry list" where
  "mem_ents s = slice_at (entries s)"

definition mem_snaps :: "InMemoryStorage \<Rightarrow> string \<Rightarrow> MerkleSnapshot list" where
  "mem_snaps s = slice_at (snapshots s)"

text \<open>The invariant: no slice is longer than a Go slice can be.\<close>

definition mem_ok :: "InMemoryStorage \<Rightarrow> bool" where
  "mem_ok s \<longleftrightarrow> (\<forall>c. length (mem_ents s c) < max_slice \<and> length (mem_snaps s c) < max_slice)"

lemma slice_at_empty [simp]: "slice_at Map.empty k = []"
  by (simp add: slice_at_def)

lemma slice_at_upd: "slice_at (m(k \<mapsto> xs)) = (slice_at m)(k := xs)"
  by (auto simp: slice_at_def fun_eq_iff)

lemma mem_new [simp]: "mem_ents NewInMemoryStorage c = []" "mem_snaps NewInMemoryStorage c = []"
  by (simp_all add: mem_ents_def mem_snaps_def NewInMemoryStorage_def)

lemma mem_ok_new [simp]: "mem_ok NewInMemoryStorage"
  by (simp add: mem_ok_def max_slice_def)

lemma mem_lens:
  "mem_ok s \<Longrightarrow> length (slice_at (entries s) c) < max_slice"
  "mem_ok s \<Longrightarrow> length (slice_at (snapshots s) c) < max_slice"
  by (simp_all add: mem_ok_def mem_ents_def mem_snaps_def)

lemma mem_last: "mem_LastEntry c s = (if mem_ents s c = [] then Inl ErrNotFound else Inr (last (mem_ents s c)))"
  by (simp add: mem_LastEntry_def mem_ents_def last_conv_nth Let_def)

lemma mem_latest:
  "mem_LatestSnapshot c s = (if mem_snaps s c = [] then Inl ErrNotFound else Inr (last (mem_snaps s c)))"
  by (simp add: mem_LatestSnapshot_def mem_snaps_def last_conv_nth Let_def)

lemma mem_at:
  "mem_ok s \<Longrightarrow> mem_Entry c i s =
     (if unat i < length (mem_ents s c) then Inr (mem_ents s c ! unat i) else Inl ErrNotFound)"
  by (simp add: mem_Entry_def mem_ents_def mem_lens ulen_le_iff linorder_not_less)

lemma mem_since: "mem_ok s \<Longrightarrow> mem_EntriesSince c i s = Inr (drop (unat i) (mem_ents s c))"
  by (simp add: mem_EntriesSince_def mem_ents_def mem_lens ulen_le_iff Let_def)

lemma mem_snapshot_at:
  "mem_ok s \<Longrightarrow> mem_SnapshotAt c i s =
     (if unat i < length (mem_snaps s c) then Inr (mem_snaps s c ! unat i) else Inl ErrNotFound)"
  by (simp add: mem_SnapshotAt_def mem_snaps_def mem_lens ulen_le_iff linorder_not_less)

lemma mem_append:
  assumes "mem_ok s"
  shows "mem_AppendEntry c e s =
    (if unat (Sequence e) = length (mem_ents s c)
     then (None, s\<lparr>entries := (entries s)(c \<mapsto> mem_ents s c @ [e])\<rparr>)
     else (Some ErrSequenceGap, s))"
  using assms by (simp add: mem_AppendEntry_def mem_ents_def mem_lens ulen_eq_iff)

lemma mem_ents_upd [simp]:
  "mem_ents (s\<lparr>entries := (entries s)(c \<mapsto> xs)\<rparr>) = (mem_ents s)(c := xs)"
  "mem_snaps (s\<lparr>entries := m\<rparr>) = mem_snaps s"
  by (simp_all add: mem_ents_def mem_snaps_def slice_at_upd)

lemma mem_snaps_upd [simp]:
  "mem_snaps (s\<lparr>snapshots := (snapshots s)(c \<mapsto> ps)\<rparr>) = (mem_snaps s)(c := ps)"
  "mem_ents (s\<lparr>snapshots := n\<rparr>) = mem_ents s"
  by (simp_all add: mem_ents_def mem_snaps_def slice_at_upd)

lemma mem_ok_upd:
  "mem_ok s \<Longrightarrow> length xs < max_slice \<Longrightarrow> mem_ok (s\<lparr>entries := (entries s)(c \<mapsto> xs)\<rparr>)"
  "mem_ok s \<Longrightarrow> length ps < max_slice \<Longrightarrow> mem_ok (s\<lparr>snapshots := (snapshots s)(c \<mapsto> ps)\<rparr>)"
  by (simp_all add: mem_ok_def)

lemma mem_ops [simp]:
  "AppendEntry InMemoryStorage_ops = mem_AppendEntry" "LastEntry InMemoryStorage_ops = mem_LastEntry"
  "Entry InMemoryStorage_ops = mem_Entry" "EntriesSince InMemoryStorage_ops = mem_EntriesSince"
  "SaveSnapshot InMemoryStorage_ops = mem_SaveSnapshot"
  "LatestSnapshot InMemoryStorage_ops = mem_LatestSnapshot"
  "SnapshotAt InMemoryStorage_ops = mem_SnapshotAt"
  by (simp_all add: InMemoryStorage_ops_def)

interpretation mem: strict_storage_port InMemoryStorage_ops mem_ents mem_snaps mem_ok
  "\<lambda>c. True" "\<lambda>c e. True" "\<lambda>t. t"
proof (unfold_locales, goal_cases)
  case (8 s p e)
  then show ?case
    by (simp add: mem_SaveSnapshot_def mem_ok_upd flip: mem_snaps_def)
next
  case (12 s c i)
  then show ?case
    by (simp add: mem_since) (meson less_imp_le linorder_not_less mem_ok_def order_less_le_trans)
qed (simp_all add: mem_ok_def mem_last mem_latest mem_at mem_since mem_snapshot_at mem_append mem_ok_upd)

text \<open>What the store answers for a chat depends on that chat's slices only.\<close>

lemma mem_reads_cong:
  assumes "mem_ents s c = mem_ents s' c" "mem_snaps s c = mem_snaps s' c"
  shows "mem_LastEntry c s = mem_LastEntry c s'" "mem_Entry c i s = mem_Entry c i s'"
    "mem_EntriesSince c i s = mem_EntriesSince c i s'" "mem_LatestSnapshot c s = mem_LatestSnapshot c s'"
    "mem_SnapshotAt c i s = mem_SnapshotAt c i s'"
  using assms
  by (simp_all add: mem_ents_def mem_snaps_def mem_LastEntry_def mem_Entry_def mem_EntriesSince_def
      mem_LatestSnapshot_def mem_SnapshotAt_def)

end
