(* ===== verification/Cache.thy ===== *)
theory Cache
  imports Prelude
begin

text \<open>
  Package \<open>internal/cache\<close>, file \<open>cache.go\<close>: the cache port as a record of methods over a state, its
  contract as a locale (a hit is the value stored last; misses are always allowed), the stronger
  contract of a cache that forgets nothing, and the two implementations of the file.
\<close>

section \<open>The port\<close>

record 'c cache_ops =
  SetMerkleRoot :: "string \<Rightarrow> string \<Rightarrow> 'c \<Rightarrow> 'c"
  GetMerkleRoot :: "string \<Rightarrow> 'c \<Rightarrow> string option"
  SetPublicKey :: "string \<Rightarrow> byte list \<Rightarrow> 'c \<Rightarrow> 'c"
  GetPublicKey :: "string \<Rightarrow> 'c \<Rightarrow> byte list option"

text \<open>A lookup that answers \<open>(v, true)\<close> is \<open>Some v\<close>; one that answers \<open>(_, false)\<close> is \<open>None\<close>.\<close>

locale cache_port =
  fixes C :: "'c cache_ops"
  assumes root_hit:
      "GetMerkleRoot C c (SetMerkleRoot C d r s) = Some x \<Longrightarrow>
       (if c = d then x = r else GetMerkleRoot C c s = Some x)"
    and key_keeps_root:
      "GetMerkleRoot C c (SetPublicKey C u k s) = Some x \<Longrightarrow> GetMerkleRoot C c s = Some x"
    and key_hit:
      "GetPublicKey C u (SetPublicKey C v k s) = Some y \<Longrightarrow>
       (if u = v then y = k else GetPublicKey C u s = Some y)"
    and root_keeps_key:
      "GetPublicKey C u (SetMerkleRoot C d r s) = Some y \<Longrightarrow> GetPublicKey C u s = Some y"
begin

lemma root_hits_last:
  "GetMerkleRoot C c (fold (\<lambda>(d, r). SetMerkleRoot C d r) ws s) = Some x \<Longrightarrow>
   (case map_of (rev ws) c of Some r \<Rightarrow> x = r | None \<Rightarrow> GetMerkleRoot C c s = Some x)"
proof (induction ws rule: rev_induct)
  case (snoc w ws)
  obtain d r where w: "w = (d, r)"
    by (cases w)
  with snoc show ?case
    using root_hit [of c d r "fold (\<lambda>(d, r). SetMerkleRoot C d r) ws s" x]
    by (cases "c = d") simp_all
qed simp

end

locale exact_cache_port = cache_port +
  assumes root_stored: "GetMerkleRoot C c (SetMerkleRoot C c r s) \<noteq> None"
    and root_kept: "GetMerkleRoot C c s = Some x \<Longrightarrow> GetMerkleRoot C c (SetMerkleRoot C d r s) \<noteq> None"
    and key_stored: "GetPublicKey C u (SetPublicKey C u k s) \<noteq> None"
begin

lemma get_set_root:
  "GetMerkleRoot C c (SetMerkleRoot C d r s) = (if c = d then Some r else GetMerkleRoot C c s)"
proof (cases "GetMerkleRoot C c (SetMerkleRoot C d r s)")
  case None
  then show ?thesis
    using root_stored root_kept by (metis not_None_eq)
next
  case (Some x)
  then show ?thesis
    using root_hit [of c d r s x] by (cases "c = d") simp_all
qed

end

section \<open>The implementations\<close>

text \<open>\<open>Noop\<close> keeps nothing.\<close>

definition Noop_cache :: "unit cache_ops" where
  "Noop_cache =
     \<lparr>SetMerkleRoot = (\<lambda>_ _ s. s), GetMerkleRoot = (\<lambda>_ _. None),
      SetPublicKey = (\<lambda>_ _ s. s), GetPublicKey = (\<lambda>_ _. None)\<rparr>"

record InMemoryCache =
  roots :: "string \<rightharpoonup> string"
  keys :: "string \<rightharpoonup> byte list"

definition NewInMemoryCache :: InMemoryCache where
  "NewInMemoryCache = \<lparr>roots = Map.empty, keys = Map.empty\<rparr>"

definition mem_SetMerkleRoot :: "string \<Rightarrow> string \<Rightarrow> InMemoryCache \<Rightarrow> InMemoryCache" where
  "mem_SetMerkleRoot chatID root c = c\<lparr>roots := (roots c)(chatID \<mapsto> root)\<rparr>"

definition mem_GetMerkleRoot :: "string \<Rightarrow> InMemoryCache \<Rightarrow> string option" where
  "mem_GetMerkleRoot chatID c = roots c chatID"

definition mem_SetPublicKey :: "string \<Rightarrow> byte list \<Rightarrow> InMemoryCache \<Rightarrow> InMemoryCache" where
  "mem_SetPublicKey userID publicKey c = c\<lparr>keys := (keys c)(userID \<mapsto> publicKey)\<rparr>"

definition mem_GetPublicKey :: "string \<Rightarrow> InMemoryCache \<Rightarrow> byte list option" where
  "mem_GetPublicKey userID c = keys c userID"

definition InMemoryCache_ops :: "InMemoryCache cache_ops" where
  "InMemoryCache_ops =
     \<lparr>SetMerkleRoot = mem_SetMerkleRoot, GetMerkleRoot = mem_GetMerkleRoot,
      SetPublicKey = mem_SetPublicKey, GetPublicKey = mem_GetPublicKey\<rparr>"

lemmas cache_defs = Noop_cache_def InMemoryCache_ops_def mem_SetMerkleRoot_def mem_GetMerkleRoot_def
  mem_SetPublicKey_def mem_GetPublicKey_def

interpretation noop_cache: cache_port Noop_cache
  by unfold_locales (simp_all add: cache_defs)

interpretation mem_cache: exact_cache_port InMemoryCache_ops
  by unfold_locales (auto simp: cache_defs split: if_splits)

end
