(* ===== verification/Broker.thy ===== *)
theory Broker
  imports Prelude "HOL-Library.AList" "HOL-Library.Multiset"
begin

text \<open>
  Package \<open>internal/broker\<close>, file \<open>broker.go\<close>: events, the broker port and its contract, the \<open>Noop\<close>
  broker and the in-process broker. Go channels are modelled with the run-time rules the code
  depends on: a send on a closed channel and a second close panic, a \<open>select\<close> with a default branch
  never blocks, and a closed channel still delivers what it buffered. A panic is \<open>None\<close> in the
  functions that step the channels; the results show that it cannot happen.
\<close>

section \<open>Events and the port\<close>

datatype EventKind = EntryAppended | SnapshotCreated

fun EventKind_string :: "EventKind \<Rightarrow> string" where
  "EventKind_string EntryAppended = ''entry_appended''"
| "EventKind_string SnapshotCreated = ''snapshot_created''"

record Event =
  Kind :: EventKind
  ev_ChatID :: string
  ev_Sequence :: uint64
  ev_EntryHash :: string

text \<open>
  \<open>Subscribe\<close> returns a channel and a cancel function. A subscription is the pair of the channel's
  address and the identifier that the cancel function captures; \<open>Cancel B h\<close> is a call of that
  function.
\<close>

type_synonym subscription = "nat \<times> int"

record 'b broker_ops =
  Publish :: "Event \<Rightarrow> 'b \<Rightarrow> go_error option \<times> 'b"
  Subscribe :: "'b \<Rightarrow> subscription res \<times> 'b"
  Cancel :: "subscription \<Rightarrow> 'b \<Rightarrow> 'b"

definition publish_list :: "'b broker_ops \<Rightarrow> Event list \<Rightarrow> 'b \<Rightarrow> 'b" where
  "publish_list B es b = fold (\<lambda>e b. snd (Publish B e b)) es b"

lemma publish_list_simps [simp]:
  "publish_list B [] b = b"
  "publish_list B (es @ [e]) b = snd (Publish B e (publish_list B es b))"
  by (simp_all add: publish_list_def)

lemma publish_list_append: "publish_list B (es @ fs) b = publish_list B fs (publish_list B es b)"
  by (simp add: publish_list_def)

text \<open>
  The contract. \<open>issued\<close> are the subscriptions handed out so far, \<open>live\<close> those that still receive,
  \<open>pending\<close> the events a subscriber has not read yet, \<open>cap\<close> the size of its buffer.
\<close>

locale broker_port =
  fixes B :: "'b broker_ops"
    and ok :: "'b \<Rightarrow> bool"
    and issued :: "'b \<Rightarrow> subscription set"
    and live :: "'b \<Rightarrow> subscription set"
    and pending :: "'b \<Rightarrow> subscription \<Rightarrow> Event list"
    and cap :: nat
  assumes live_issued: "ok b \<Longrightarrow> live b \<subseteq> issued b"
    and pending_cap: "ok b \<Longrightarrow> h \<in> live b \<Longrightarrow> length (pending b h) \<le> cap"
    and publish:
      "ok b \<Longrightarrow> \<exists>b'. Publish B e b = (None, b') \<and> ok b' \<and> issued b' = issued b \<and> live b' = live b
         \<and> (\<forall>h\<in>issued b. pending b' h =
              (if h \<in> live b \<and> length (pending b h) < cap then pending b h @ [e] else pending b h))"
    and subscribe:
      "ok b \<Longrightarrow> \<exists>h b'. Subscribe B b = (Inr h, b') \<and> ok b' \<and> h \<notin> issued b
         \<and> issued b' = insert h (issued b) \<and> live b' = insert h (live b) \<and> pending b' h = []
         \<and> (\<forall>k\<in>issued b. pending b' k = pending b k)"
    and cancel:
      "ok b \<Longrightarrow> h \<in> issued b \<Longrightarrow> ok (Cancel B h b) \<and> issued (Cancel B h b) = issued b
         \<and> live b - {h} \<subseteq> live (Cancel B h b) \<and> live (Cancel B h b) \<subseteq> live b
         \<and> (\<forall>k\<in>issued b. pending (Cancel B h b) k = pending b k)"
begin

text \<open>Published events reach a subscriber in order, the first ones that fit its buffer.\<close>

lemma publish_all:
  assumes "ok b" "h \<in> live b"
  shows "ok (publish_list B es b) \<and> live (publish_list B es b) = live b
    \<and> pending (publish_list B es b) h = take cap (pending b h @ es)"
proof (induction es rule: rev_induct)
  case Nil
  then show ?case
    using assms pending_cap by simp
next
  case (snoc e es)
  let ?b = "publish_list B es b"
  from snoc have "h \<in> issued ?b" "h \<in> live ?b"
    using live_issued assms(2) by auto
  moreover obtain b2 where "Publish B e ?b = (None, b2)" "ok b2" "live b2 = live ?b"
    "\<forall>k\<in>issued ?b. pending b2 k =
       (if k \<in> live ?b \<and> length (pending ?b k) < cap then pending ?b k @ [e] else pending ?b k)"
    using publish [of ?b e] snoc by blast
  ultimately show ?case
    using snoc by (auto simp: min_def take_Suc_conv_app_nth)
qed

end

locale cancelling_broker_port = broker_port +
  assumes cancel_stops: "ok b \<Longrightarrow> h \<in> issued b \<Longrightarrow> h \<notin> live (Cancel B h b)"
begin

text \<open>After cancel, a subscriber keeps what it had and gets nothing more.\<close>

lemma cancelled_is_silent:
  assumes "ok b" "h \<in> issued b"
  shows "ok (publish_list B es (Cancel B h b)) \<and> issued (publish_list B es (Cancel B h b)) = issued b
    \<and> h \<notin> live (publish_list B es (Cancel B h b)) \<and> pending (publish_list B es (Cancel B h b)) h = pending b h"
proof (induction es rule: rev_induct)
  case Nil
  then show ?case
    using cancel [OF assms(1,2)] cancel_stops [OF assms(1,2)] assms(2) by simp
next
  case (snoc e es)
  let ?b = "publish_list B es (Cancel B h b)"
  obtain b2 where "Publish B e ?b = (None, b2)" "ok b2" "issued b2 = issued ?b" "live b2 = live ?b"
    "\<forall>k\<in>issued ?b. pending b2 k =
       (if k \<in> live ?b \<and> length (pending ?b k) < cap then pending ?b k @ [e] else pending ?b k)"
    using publish [of ?b e] snoc by blast
  with snoc assms(2) show ?case
    by simp
qed

end

section \<open>The no-op broker\<close>

text \<open>
  \<open>Noop\<close> has no state; the number kept here is the heap's next free address, so that every call of
  \<open>Subscribe\<close> returns a new, unbuffered channel that nothing is ever sent on.
\<close>

definition Noop_Publish :: "Event \<Rightarrow> nat \<Rightarrow> go_error option \<times> nat" where
  "Noop_Publish event b = (None, b)"

definition Noop_Subscribe :: "nat \<Rightarrow> subscription res \<times> nat" where
  "Noop_Subscribe b = (Inr (b, 0), b + 1)"

definition Noop_Cancel :: "subscription \<Rightarrow> nat \<Rightarrow> nat" where
  "Noop_Cancel h b = b"

definition Noop_broker :: "nat broker_ops" where
  "Noop_broker = \<lparr>Publish = Noop_Publish, Subscribe = Noop_Subscribe, Cancel = Noop_Cancel\<rparr>"

interpretation noop_broker: broker_port Noop_broker "\<lambda>b. True" "\<lambda>b. {0..<b} \<times> {0}" "\<lambda>b. {0..<b} \<times> {0}"
  "\<lambda>b h. []" 0
  by unfold_locales
    (auto simp: Noop_broker_def Noop_Publish_def Noop_Subscribe_def Noop_Cancel_def)

section \<open>Channels\<close>

record chan =
  buf :: "Event list"
  chan_cap :: nat
  closed :: bool

definition make_chan :: "nat \<Rightarrow> chan" where
  "make_chan n = \<lparr>buf = [], chan_cap = n, closed = False\<rparr>"

text \<open>\<open>select { case ch <- e: default: }\<close> on a channel that only a buffer can take from.\<close>

definition select_send :: "Event \<Rightarrow> chan \<Rightarrow> chan option" where
  "select_send e ch =
     (if closed ch then None
      else if length (buf ch) < chan_cap ch then Some (ch\<lparr>buf := buf ch @ [e]\<rparr>)
      else Some ch)"

definition close_chan :: "chan \<Rightarrow> chan option" where
  "close_chan ch = (if closed ch then None else Some (ch\<lparr>closed := True\<rparr>))"

datatype received = Received Event | Closed | Blocked

definition recv :: "chan \<Rightarrow> received \<times> chan" where
  "recv ch =
     (case buf ch of
        e # es \<Rightarrow> (Received e, ch\<lparr>buf := es\<rparr>)
      | [] \<Rightarrow> (if closed ch then Closed else Blocked, ch))"

section \<open>The in-process broker\<close>

text \<open>
  \<open>subscribers\<close> is the Go map as an association list; \<open>chans\<close> is the part of the heap that holds
  the channels made by \<open>Subscribe\<close>, in the order they were made.
\<close>

record InMemoryBroker =
  nextID :: int
  subscribers :: "(int \<times> nat) list"
  chans :: "chan list"

definition NewInMemoryBroker :: InMemoryBroker where
  "NewInMemoryBroker = \<lparr>nextID = 0, subscribers = [], chans = []\<rparr>"

definition mem_Subscribe :: "InMemoryBroker \<Rightarrow> subscription res \<times> InMemoryBroker" where
  "mem_Subscribe b =
     (let sid = nextID b; ch = length (chans b)
      in (Inr (ch, sid),
          b\<lparr>nextID := sid + 1, subscribers := AList.update sid ch (subscribers b),
            chans := chans b @ [make_chan 64]\<rparr>))"

definition cancel_run :: "int \<Rightarrow> InMemoryBroker \<Rightarrow> InMemoryBroker option" where
  "cancel_run sid b =
     (case map_of (subscribers b) sid of
        Some existing \<Rightarrow>
          map_option
            (\<lambda>c. b\<lparr>subscribers := AList.delete sid (subscribers b), chans := (chans b)[existing := c]\<rparr>)
            (close_chan (chans b ! existing))
      | None \<Rightarrow> Some b)"

text \<open>Go leaves the order of a map iteration open, so the order is an argument.\<close>

fun Publish_loop :: "int list \<Rightarrow> Event \<Rightarrow> InMemoryBroker \<Rightarrow> InMemoryBroker option" where
  "Publish_loop [] event b = Some b"
| "Publish_loop (sid # ids) event b =
     (case map_of (subscribers b) sid of
        None \<Rightarrow> Publish_loop ids event b
      | Some ch \<Rightarrow>
          (case select_send event (chans b ! ch) of
             None \<Rightarrow> None
           | Some c \<Rightarrow> Publish_loop ids event (b\<lparr>chans := (chans b)[ch := c]\<rparr>)))"

text \<open>The methods as total functions, for the port: a panic, which cannot happen, keeps the state.\<close>

definition mem_Publish :: "Event \<Rightarrow> InMemoryBroker \<Rightarrow> go_error option \<times> InMemoryBroker" where
  "mem_Publish event b =
     (case Publish_loop (map fst (subscribers b)) event b of
        Some b' \<Rightarrow> (None, b')
      | None \<Rightarrow> (Some (Panic ''send on closed channel''), b))"

definition mem_Cancel :: "subscription \<Rightarrow> InMemoryBroker \<Rightarrow> InMemoryBroker" where
  "mem_Cancel h b = (case cancel_run (snd h) b of Some b' \<Rightarrow> b' | None \<Rightarrow> b)"

definition mem_recv :: "nat \<Rightarrow> InMemoryBroker \<Rightarrow> received \<times> InMemoryBroker" where
  "mem_recv ch b = (let (r, c) = recv (chans b ! ch) in (r, b\<lparr>chans := (chans b)[ch := c]\<rparr>))"

definition InMemoryBroker_ops :: "InMemoryBroker broker_ops" where
  "InMemoryBroker_ops = \<lparr>Publish = mem_Publish, Subscribe = mem_Subscribe, Cancel = mem_Cancel\<rparr>"


lemma mem_broker_ops [simp]:
  "Publish InMemoryBroker_ops = mem_Publish" "Subscribe InMemoryBroker_ops = mem_Subscribe"
  "Cancel InMemoryBroker_ops = mem_Cancel"
  by (simp_all add: InMemoryBroker_ops_def)

section \<open>It satisfies the contract\<close>

definition chan_wf :: "chan \<Rightarrow> bool" where
  "chan_wf c \<longleftrightarrow> chan_cap c = 64 \<and> length (buf c) \<le> 64"

text \<open>
  Invariant: identifiers and channel addresses count the subscriptions in step, a channel is open
  exactly while it is registered, every buffer holds at most 64 events.
\<close>

definition mem_broker_ok :: "InMemoryBroker \<Rightarrow> bool" where
  "mem_broker_ok b \<longleftrightarrow> nextID b = int (length (chans b)) \<and> distinct (map fst (subscribers b))
     \<and> (\<forall>sid ch. map_of (subscribers b) sid = Some ch \<longrightarrow>
          sid = int ch \<and> ch < length (chans b))
     \<and> (\<forall>n<length (chans b). closed (chans b ! n) \<longleftrightarrow> map_of (subscribers b) (int n) = None)
     \<and> (\<forall>c\<in>set (chans b). chan_wf c)"

definition mem_issued :: "InMemoryBroker \<Rightarrow> subscription set" where
  "mem_issued b = (\<lambda>n. (n, int n)) ` {0..<length (chans b)}"

definition mem_live :: "InMemoryBroker \<Rightarrow> subscription set" where
  "mem_live b = {h \<in> mem_issued b. map_of (subscribers b) (snd h) = Some (fst h)}"

definition mem_pending :: "InMemoryBroker \<Rightarrow> subscription \<Rightarrow> Event list" where
  "mem_pending b h = buf (chans b ! fst h)"

definition push :: "Event \<Rightarrow> chan \<Rightarrow> chan" where
  "push e c = (if length (buf c) < chan_cap c then c\<lparr>buf := buf c @ [e]\<rparr> else c)"

lemma mem_issued_iff: "h \<in> mem_issued b \<longleftrightarrow> fst h < length (chans b) \<and> snd h = int (fst h)"
  by (cases h) (auto simp: mem_issued_def)

lemma select_send_open: "\<not> closed c \<Longrightarrow> select_send e c = Some (push e c)"
  by (simp add: select_send_def push_def)

lemma push_simps [simp]: "closed (push e c) = closed c" "chan_wf (push e c) = chan_wf c"
  by (auto simp: push_def chan_wf_def)

lemma map_of_subscribers:
  assumes "mem_broker_ok b" "map_of (subscribers b) sid = Some ch"
  shows "sid = int ch" "ch < length (chans b)" "\<not> closed (chans b ! ch)"
  using assms by (auto simp: mem_broker_ok_def)

text \<open>One delivery updates one open channel and keeps the invariant.\<close>

lemma mem_broker_ok_chan:
  assumes "mem_broker_ok b" "ch < length (chans b)" "chan_wf c" "closed c = closed (chans b ! ch)"
  shows "mem_broker_ok (b\<lparr>chans := (chans b)[ch := c]\<rparr>)"
  using assms
  by (auto simp: mem_broker_ok_def nth_list_update split: prod.splits if_splits
      dest!: subsetD [OF set_update_subset_insert])

definition delivered :: "int set \<Rightarrow> Event \<Rightarrow> InMemoryBroker \<Rightarrow> InMemoryBroker" where
  "delivered I e b = b\<lparr>chans := map (\<lambda>n. if int n \<in> I then push e (chans b ! n) else chans b ! n)
                                 [0..<length (chans b)]\<rparr>"

lemma Publish_loop_delivers:
  assumes "mem_broker_ok b" "distinct ids" "set ids \<subseteq> set (map fst (subscribers b))"
  shows "Publish_loop ids e b = Some (delivered (set ids) e b)"
  using assms
proof (induction ids arbitrary: b)
  case Nil
  then show ?case by (simp add: delivered_def map_nth)
next
  case (Cons sid ids)
  then obtain ch where ch: "map_of (subscribers b) sid = Some ch"
    by (cases "map_of (subscribers b) sid") (auto simp: map_of_eq_None_iff)
  note m = map_of_subscribers [OF Cons.prems(1) ch]
  let ?b = "b\<lparr>chans := (chans b)[ch := push e (chans b ! ch)]\<rparr>"
  have "chan_wf (chans b ! ch)"
    using Cons.prems(1) m(2) by (simp add: mem_broker_ok_def)
  then have "mem_broker_ok ?b"
    using Cons.prems(1) m by (intro mem_broker_ok_chan) simp_all
  then have "Publish_loop ids e ?b = Some (delivered (set ids) e ?b)"
    using Cons by simp
  moreover have "delivered (set ids) e ?b = delivered (set (sid # ids)) e b"
    using Cons.prems(2) m
    by (simp add: delivered_def) (rule arg_cong [where f = "\<lambda>cs. b\<lparr>chans := cs\<rparr>"], auto simp: nth_list_update)
  ultimately show ?case
    using ch m by (simp add: select_send_open)
qed

lemma mem_Publish_delivers:
  "mem_broker_ok b \<Longrightarrow> mem_Publish e b = (None, delivered (fst ` set (subscribers b)) e b)"
  using Publish_loop_delivers [of b "map fst (subscribers b)" e]
  by (simp add: mem_Publish_def mem_broker_ok_def)

lemma delivered_simps [simp]:
  "subscribers (delivered I e b) = subscribers b" "nextID (delivered I e b) = nextID b"
  "length (chans (delivered I e b)) = length (chans b)"
  "n < length (chans b) \<Longrightarrow> chans (delivered I e b) ! n = (if int n \<in> I then push e (chans b ! n) else chans b ! n)"
  by (simp_all add: delivered_def)

lemma mem_broker_ok_delivered:
  assumes "mem_broker_ok b"
  shows "mem_broker_ok (delivered I e b)"
proof -
  have "\<forall>c\<in>set (chans (delivered I e b)). chan_wf c"
    using assms by (auto simp: delivered_def mem_broker_ok_def)
  with assms show ?thesis
    by (auto simp: mem_broker_ok_def)
qed

lemma mem_pending_delivered:
  assumes "mem_broker_ok b" "h \<in> mem_issued b"
  shows "mem_pending (delivered (fst ` set (subscribers b)) e b) h =
    (if h \<in> mem_live b \<and> length (mem_pending b h) < 64 then mem_pending b h @ [e] else mem_pending b h)"
proof -
  from assms(2) obtain n where h: "h = (n, int n)" "n < length (chans b)"
    by (auto simp: mem_issued_def)
  have "h \<in> mem_live b \<longleftrightarrow> int n \<in> fst ` set (subscribers b)"
  proof
    assume "int n \<in> fst ` set (subscribers b)"
    then obtain ch where "map_of (subscribers b) (int n) = Some ch"
      by (metis not_None_eq map_of_eq_None_iff)
    with map_of_subscribers [OF assms(1) this] assms(2) h show "h \<in> mem_live b"
      by (simp add: mem_live_def)
  qed (use h in \<open>force simp: mem_live_def dest: map_of_SomeD\<close>)
  moreover have "chan_cap (chans b ! n) = 64"
    using assms(1) h by (simp add: mem_broker_ok_def chan_wf_def)
  ultimately show ?thesis
    using h by (simp add: mem_pending_def push_def)
qed

lemma mem_broker_ok_subscribe:
  assumes "mem_broker_ok b"
  shows "mem_broker_ok (snd (mem_Subscribe b))"
  using assms
  by (fastforce simp: mem_broker_ok_def mem_Subscribe_def make_chan_def chan_wf_def nth_append update_conv'
      distinct_update Let_def split: if_splits)

lemma mem_Subscribe_result: "fst (mem_Subscribe b) = Inr (length (chans b), nextID b)"
  by (simp add: mem_Subscribe_def Let_def)

lemma unused_id: "mem_broker_ok b \<Longrightarrow> map_of (subscribers b) (int (length (chans b))) = None"
  using map_of_subscribers(1,2) [of b "int (length (chans b))"]
  by (cases "map_of (subscribers b) (int (length (chans b)))") fastforce+

lemma mem_Subscribe_spec:
  assumes "mem_broker_ok b"
  defines "h \<equiv> (length (chans b), nextID b)"
  shows "h \<notin> mem_issued b" "mem_issued (snd (mem_Subscribe b)) = insert h (mem_issued b)"
    "mem_live (snd (mem_Subscribe b)) = insert h (mem_live b)" "mem_pending (snd (mem_Subscribe b)) h = []"
    "\<forall>k\<in>mem_issued b. mem_pending (snd (mem_Subscribe b)) k = mem_pending b k"
proof -
  have "nextID b = int (length (chans b))"
    using assms(1) by (simp add: mem_broker_ok_def)
  then show "h \<notin> mem_issued b" "mem_issued (snd (mem_Subscribe b)) = insert h (mem_issued b)"
    "mem_live (snd (mem_Subscribe b)) = insert h (mem_live b)" "mem_pending (snd (mem_Subscribe b)) h = []"
    "\<forall>k\<in>mem_issued b. mem_pending (snd (mem_Subscribe b)) k = mem_pending b k"
    using unused_id [OF assms(1)]
    by (auto simp: h_def mem_issued_iff mem_live_def mem_Subscribe_def Let_def mem_pending_def make_chan_def
        nth_append update_conv' split: if_splits)
qed

lemma cancel_run_ok:
  assumes "mem_broker_ok b"
  obtains b' where "cancel_run sid b = Some b'" "mem_broker_ok b'" "length (chans b') = length (chans b)"
    "map_of (subscribers b') = (map_of (subscribers b))(sid := None)"
    "\<forall>n<length (chans b). buf (chans b' ! n) = buf (chans b ! n)"
proof (cases "map_of (subscribers b) sid")
  case None
  with assms show ?thesis
    by (intro that [of b]) (auto simp: cancel_run_def)
next
  case (Some ch)
  let ?c = "(chans b ! ch)\<lparr>closed := True\<rparr>"
  let ?b = "b\<lparr>subscribers := AList.delete sid (subscribers b), chans := (chans b)[ch := ?c]\<rparr>"
  note m = map_of_subscribers [OF assms Some]
  have "chan_wf ?c"
    using assms m(2) by (simp add: mem_broker_ok_def chan_wf_def)
  then have wf: "\<forall>c\<in>set (chans ?b). chan_wf c"
    using assms by (auto simp: mem_broker_ok_def dest!: subsetD [OF set_update_subset_insert])
  have "sid' = int ch' \<and> ch' < length (chans ?b)"
    if "map_of (subscribers ?b) sid' = Some ch'" for sid' ch'
    using that map_of_subscribers [OF assms, of sid' ch'] m by (auto simp: delete_conv' split: if_splits)
  moreover have "closed (chans ?b ! n) \<longleftrightarrow> map_of (subscribers ?b) (int n) = None"
    if "n < length (chans ?b)" for n
    using that assms m by (auto simp: mem_broker_ok_def delete_conv' nth_list_update)
  ultimately have "mem_broker_ok ?b"
    using assms wf by (simp add: mem_broker_ok_def distinct_delete)
  with Some m show ?thesis
    by (intro that [of ?b]) (auto simp: cancel_run_def close_chan_def delete_conv' nth_list_update)
qed

interpretation mem_broker: cancelling_broker_port InMemoryBroker_ops mem_broker_ok mem_issued mem_live
  mem_pending 64
proof (unfold_locales, goal_cases)
  case (1 b)
  then show ?case by (auto simp: mem_live_def)
next
  case (2 b h)
  then have "fst h < length (chans b)"
    by (auto simp: mem_live_def mem_issued_def)
  with 2(1) have "chan_wf (chans b ! fst h)"
    by (simp add: mem_broker_ok_def)
  then show ?case
    by (simp add: mem_pending_def chan_wf_def)
next
  case (3 b e)
  then show ?case
    using mem_pending_delivered [OF 3]
    by (simp add: mem_Publish_delivers mem_broker_ok_delivered mem_issued_def
        mem_live_def)
next
  case (4 b)
  then show ?case
    using mem_Subscribe_spec [OF 4] mem_broker_ok_subscribe [OF 4] mem_Subscribe_result [of b]
    by (cases "mem_Subscribe b") simp
next
  case (5 b h)
  from cancel_run_ok [OF 5(1), of "snd h"] obtain b' where "cancel_run (snd h) b = Some b'" "mem_broker_ok b'"
    "length (chans b') = length (chans b)"
    "map_of (subscribers b') = (map_of (subscribers b))(snd h := None)"
    "\<forall>n<length (chans b). buf (chans b' ! n) = buf (chans b ! n)" .
  with 5(2) show ?case
    by (auto simp: mem_Cancel_def mem_live_def mem_issued_def mem_pending_def)
next
  case (6 b h)
  from cancel_run_ok [OF 6(1), of "snd h"] obtain b' where "cancel_run (snd h) b = Some b'"
    "map_of (subscribers b') = (map_of (subscribers b))(snd h := None)" .
  then show ?case
    by (simp add: mem_Cancel_def mem_live_def)
qed

section \<open>Reachable brokers\<close>

text \<open>
  The states an in-process broker can be in: subscriptions, cancellations (also repeated ones),
  publications in any iteration order and receives, in any interleaving; the mutex makes each of
  them one step.
\<close>

inductive broker_reachable :: "InMemoryBroker \<Rightarrow> bool" where
  new: "broker_reachable NewInMemoryBroker"
| subscribe: "broker_reachable b \<Longrightarrow> broker_reachable (snd (mem_Subscribe b))"
| cancel: "\<lbrakk>broker_reachable b; cancel_run sid b = Some b'\<rbrakk> \<Longrightarrow> broker_reachable b'"
| publish:
    "\<lbrakk>broker_reachable b; mset order = mset (map fst (subscribers b)); Publish_loop order e b = Some b'\<rbrakk> \<Longrightarrow>
     broker_reachable b'"
| receive: "\<lbrakk>broker_reachable b; ch < length (chans b)\<rbrakk> \<Longrightarrow> broker_reachable (snd (mem_recv ch b))"

lemma any_order_delivers:
  assumes "mem_broker_ok b" "mset order = mset (map fst (subscribers b))"
  shows "Publish_loop order e b = Some (delivered (fst ` set (subscribers b)) e b)"
proof -
  have "distinct order" "set order = fst ` set (subscribers b)"
    using assms mset_eq_imp_distinct_iff [OF assms(2)] mset_eq_setD [OF assms(2)]
    by (simp_all add: mem_broker_ok_def)
  then show ?thesis
    using Publish_loop_delivers [OF assms(1), of order e] by simp
qed

lemma mem_broker_ok_recv:
  assumes "mem_broker_ok b" "ch < length (chans b)"
  shows "mem_broker_ok (snd (mem_recv ch b))"
proof -
  have "chan_wf (chans b ! ch)"
    using assms by (simp add: mem_broker_ok_def)
  then have "chan_wf (snd (recv (chans b ! ch)))" "closed (snd (recv (chans b ! ch))) = closed (chans b ! ch)"
    by (auto simp: recv_def chan_wf_def split: list.splits)
  with assms show ?thesis
    by (auto simp: mem_recv_def intro!: mem_broker_ok_chan split: prod.splits)
qed

lemma broker_reachable_ok: "broker_reachable b \<Longrightarrow> mem_broker_ok b"
proof (induction rule: broker_reachable.induct)
  case new
  then show ?case by (simp add: mem_broker_ok_def NewInMemoryBroker_def)
next
  case (cancel b sid b')
  then show ?case
    using cancel_run_ok [of b sid] by (metis option.inject)
next
  case (publish b order e b')
  then show ?case
    using any_order_delivers mem_broker_ok_delivered by (metis option.inject)
qed (simp_all add: mem_broker_ok_subscribe mem_broker_ok_recv)

section \<open>Properties\<close>

text \<open>
  C33. The in-process broker never panics: in every reachable state a publication, in whatever
  order the map of subscribers is iterated, sends on no closed channel, and its outcome does not
  depend on that order; a cancel, repeated or not, closes no channel twice.
\<close>

theorem broker_no_panic:
  assumes "broker_reachable b" "mset order = mset (map fst (subscribers b))"
  shows "mem_Publish e b = (None, the (Publish_loop order e b)) \<and> Publish_loop order e b \<noteq> None
    \<and> cancel_run sid b \<noteq> None"
proof -
  note ok = broker_reachable_ok [OF assms(1)]
  obtain b' where "cancel_run sid b = Some b'"
    using cancel_run_ok [OF ok] .
  then show ?thesis
    using ok any_order_delivers [OF ok assms(2)] by (simp add: mem_Publish_delivers)
qed

definition two_subscribers :: InMemoryBroker where
  "two_subscribers = snd (mem_Subscribe (snd (mem_Subscribe NewInMemoryBroker)))"

definition example_event :: Event where
  "example_event = \<lparr>Kind = EntryAppended, ev_ChatID = ''c1'', ev_Sequence = 0, ev_EntryHash = ''h''\<rparr>"

lemma two_subscribers_reachable: "broker_reachable two_subscribers"
  unfolding two_subscribers_def by (intro broker_reachable.intros)

lemma two_subscribers_live:
  "subscribers two_subscribers = [(0, 0), (1, 1)]" "(1, 1) \<in> mem_live two_subscribers"
  "mem_pending two_subscribers (1, 1) = []"
  by (simp_all add: two_subscribers_def mem_Subscribe_def NewInMemoryBroker_def Let_def mem_live_def mem_issued_def
      image_def mem_pending_def make_chan_def)

theorem broker_no_panic_witness:
  "mem_Publish example_event two_subscribers = (None, the (Publish_loop [1, 0] example_event two_subscribers))
    \<and> Publish_loop [1, 0] example_event two_subscribers \<noteq> None \<and> cancel_run 7 two_subscribers \<noteq> None"
  by (rule broker_no_panic [OF two_subscribers_reachable]) (simp add: two_subscribers_live)

text \<open>
  C26. Delivery: whatever is published while a subscription is live reaches it in order, and only
  what exceeds the 64 places of its buffer is dropped; in particular nothing is lost while at most
  64 events are unread.
\<close>

theorem broker_delivers_in_order:
  assumes "broker_reachable b" "h \<in> mem_live b"
  shows "mem_pending (publish_list InMemoryBroker_ops es b) h = take 64 (mem_pending b h @ es)"
  using mem_broker.publish_all [OF broker_reachable_ok [OF assms(1)] assms(2)] by blast

theorem broker_delivers_in_order_witness:
  "mem_pending (publish_list InMemoryBroker_ops (replicate 70 example_event) two_subscribers) (1, 1)
     = take 64 ([] @ replicate 70 example_event)"
  using broker_delivers_in_order [OF two_subscribers_reachable two_subscribers_live(2)]
  unfolding two_subscribers_live(3) .

primrec reads :: "nat \<Rightarrow> nat \<Rightarrow> InMemoryBroker \<Rightarrow> received list" where
  "reads 0 ch b = []"
| "reads (Suc n) ch b = (let (r, b') = mem_recv ch b in r # reads n ch b')"

lemma reads_closed:
  assumes "ch < length (chans b)" "closed (chans b ! ch)" "buf (chans b ! ch) = es"
  shows "reads (length es + 1) ch b = map Received es @ [Closed]"
  using assms
proof (induction es arbitrary: b)
  case Nil
  then show ?case by (simp add: mem_recv_def recv_def)
next
  case (Cons e es)
  let ?b = "b\<lparr>chans := (chans b)[ch := (chans b ! ch)\<lparr>buf := es\<rparr>]\<rparr>"
  have "mem_recv ch b = (Received e, ?b)"
    using Cons.prems by (simp add: mem_recv_def recv_def)
  moreover have "reads (length es + 1) ch ?b = map Received es @ [Closed]"
    using Cons.prems by (intro Cons.IH) simp_all
  ultimately show ?case
    by (simp del: reads.simps(2) add: reads.simps(2) [of "Suc (length es)"])
qed

text \<open>
  Cancelling ends delivery and closes the channel: later publications add nothing, the events
  already buffered can still be read in order, and then the channel reports that it is closed.
\<close>

theorem broker_cancel_closes:
  assumes "broker_reachable b" "h \<in> mem_issued b"
  shows "reads (length (mem_pending b h) + 1) (fst h) (publish_list InMemoryBroker_ops es (mem_Cancel h b))
    = map Received (mem_pending b h) @ [Closed]"
proof -
  let ?b = "publish_list InMemoryBroker_ops es (mem_Cancel h b)"
  have *: "mem_broker_ok ?b" "mem_issued ?b = mem_issued b" "h \<notin> mem_live ?b" "mem_pending ?b h = mem_pending b h"
    using mem_broker.cancelled_is_silent [OF broker_reachable_ok [OF assms(1)] assms(2)]
    by simp_all
  have "h \<in> mem_issued ?b"
    using *(2) assms(2) by simp
  then obtain n where h: "h = (n, int n)" "n < length (chans ?b)"
    by (cases h) (simp add: mem_issued_iff)
  have "map_of (subscribers ?b) (int n) \<noteq> Some n"
    using *(3) h \<open>h \<in> mem_issued ?b\<close> by (simp add: mem_live_def)
  then have "map_of (subscribers ?b) (int n) = None"
    using map_of_subscribers(1) [OF *(1), of "int n"] by (metis not_None_eq of_nat_eq_iff)
  then have "closed (chans ?b ! n)"
    using *(1) h(2) by (simp add: mem_broker_ok_def)
  then show ?thesis
    using *(4) h by (intro reads_closed) (simp_all add: mem_pending_def)
qed

theorem broker_cancel_closes_witness:
  "reads (length [example_event] + 1) 1
     (publish_list InMemoryBroker_ops [example_event]
       (mem_Cancel (1, 1) (snd (mem_Publish example_event two_subscribers))))
   = map Received [example_event] @ [Closed]"
proof -
  let ?b = "snd (mem_Publish example_event two_subscribers)"
  have "mem_pending ?b (1, 1) = [example_event]" "(1, 1) \<in> mem_issued ?b"
    using mem_pending_delivered [OF broker_reachable_ok [OF two_subscribers_reachable], of "(1, 1)" example_event]
      two_subscribers_live(2,3) broker_reachable_ok [OF two_subscribers_reachable]
    by (simp_all add: mem_Publish_delivers mem_live_def mem_issued_def)
  moreover have "broker_reachable ?b"
    using broker_reachable.publish [OF two_subscribers_reachable refl
        any_order_delivers [OF broker_reachable_ok [OF two_subscribers_reachable] refl]]
    by (simp add: mem_Publish_delivers broker_reachable_ok two_subscribers_reachable)
  ultimately show ?thesis
    using broker_cancel_closes [of ?b "(1, 1)" "[example_event]"] by simp
qed

end
