(* ===== verification/Chatlog.thy ===== *)
theory Chatlog
  imports Keys Merkle Storage Cache Broker
begin

text \<open>
  Package \<open>internal/chatlog\<close>: the append-only log over the storage, cache and broker ports. This theory
  holds the operations of \<open>log.go\<close>; \<open>Chatlog_Props\<close> proves them correct against the ports' contracts.
  The clock reading of \<open>snapshot\<close> and the signature scheme are arguments.
\<close>

section \<open>Errors, state and construction\<close>

definition ErrInvalidSignature :: go_error where
  "ErrInvalidSignature = Sentinel ''chatlog: invalid message signature''"

definition ErrUnsupportedVersion :: go_error where
  "ErrUnsupportedVersion = Sentinel ''chatlog: unsupported message schema version''"

definition ErrNotSnapshotted :: go_error where
  "ErrNotSnapshotted = Sentinel ''chatlog: message not yet covered by a snapshot''"

declare ErrInvalidSignature_def [err_defs] ErrUnsupportedVersion_def [err_defs]
  ErrNotSnapshotted_def [err_defs]

definition supportedVersion :: "int \<Rightarrow> bool" where
  "supportedVersion v \<longleftrightarrow> v = CurrentSchemaVersion"

text \<open>
  Each interface field of the Go struct is a method table with the state behind it. \<open>locks\<close> is the
  \<open>sync.Map\<close> from chats to mutexes; a mutex is its address, and addresses count the mutexes stored.
\<close>

record ('s, 'c, 'b) Log =
  store_ops :: "'s storage_ops"
  store :: 's
  cache_ops :: "'c cache_ops"
  cache :: 'c
  broker_ops :: "'b broker_ops"
  broker :: 'b
  locks :: "(string \<times> nat) list"

definition New :: "'s storage_ops \<Rightarrow> 's \<Rightarrow> ('s, unit, nat) Log" where
  "New S s =
     \<lparr>store_ops = S, store = s, cache_ops = Noop_cache, cache = (), broker_ops = Noop_broker, broker = 0,
      locks = []\<rparr>"

text \<open>The options replace a port, and with it the type of the state behind it.\<close>

definition WithCache :: "'d cache_ops \<Rightarrow> 'd \<Rightarrow> ('s, 'c, 'b) Log \<Rightarrow> ('s, 'd, 'b) Log" where
  "WithCache C c l =
     \<lparr>store_ops = store_ops l, store = store l, cache_ops = C, cache = c, broker_ops = broker_ops l,
      broker = broker l, locks = locks l\<rparr>"

definition WithBroker :: "'d broker_ops \<Rightarrow> 'd \<Rightarrow> ('s, 'c, 'b) Log \<Rightarrow> ('s, 'c, 'd) Log" where
  "WithBroker B b l =
     \<lparr>store_ops = store_ops l, store = store l, cache_ops = cache_ops l, cache = cache l,
      broker_ops = B, broker = b, locks = locks l\<rparr>"

text \<open>\<open>LoadOrStore\<close>: the mutex of the chat, a new one if the chat has none.\<close>

definition chatLock :: "string \<Rightarrow> ('s, 'c, 'b) Log \<Rightarrow> nat \<times> ('s, 'c, 'b) Log" where
  "chatLock chatID l =
     (case map_of (locks l) chatID of
        Some m \<Rightarrow> (m, l)
      | None \<Rightarrow> (length (locks l), l\<lparr>locks := (chatID, length (locks l)) # locks l\<rparr>))"

section \<open>Appending\<close>

definition publish :: "Event \<Rightarrow> ('s, 'c, 'b) Log \<Rightarrow> ('s, 'c, 'b) Log" where
  "publish e l = l\<lparr>broker := snd (Publish (broker_ops l) e (broker l))\<rparr>"

definition snapshot :: "Time \<Rightarrow> string \<Rightarrow> LogEntry \<Rightarrow> ('s, 'c, 'b) Log \<Rightarrow> go_error option \<times> ('s, 'c, 'b) Log" where
  "snapshot now chatID tip l =
     (let prev = (case LatestSnapshot (store_ops l) chatID (store l) of
                    Inr prev \<Rightarrow> Inr (ToSequence prev + 1, SnapshotIndex prev + 1)
                  | Inl err \<Rightarrow> if errors_Is err ErrNotFound then Inr (0, 0) else Inl err)
      in case prev of
           Inl err \<Rightarrow> (Some err, l)
         | Inr (from, index) \<Rightarrow>
             (case EntriesSince (store_ops l) chatID from (store l) of
                Inl err \<Rightarrow> (Some err, l)
              | Inr window \<Rightarrow>
                  (let root = Root (map EntryHash window);
                       (err, s) = SaveSnapshot (store_ops l)
                         \<lparr>snap_ChatID = chatID, SnapshotIndex = index, FromSequence = from,
                          ToSequence = Sequence tip, MerkleRoot = root, LastEntryHash = EntryHash tip,
                          CreatedAt = now\<rparr> (store l);
                       l1 = l\<lparr>store := s\<rparr>
                   in case err of
                        Some e \<Rightarrow> (Some e, l1)
                      | None \<Rightarrow>
                          (None,
                           publish \<lparr>Kind = SnapshotCreated, ev_ChatID = chatID, ev_Sequence = Sequence tip,
                                    ev_EntryHash = EntryHash tip\<rparr>
                             (l1\<lparr>cache := SetMerkleRoot (cache_ops l1) chatID root (cache l1)\<rparr>)))))"

text \<open>The part of \<open>Append\<close> that runs with the chat's mutex held.\<close>

definition Append_locked :: "Time \<Rightarrow> SignedMessage \<Rightarrow> ('s, 'c, 'b) Log \<Rightarrow> LogEntry res \<times> ('s, 'c, 'b) Log" where
  "Append_locked now msg l =
     (let tip = (case LastEntry (store_ops l) (ChatID msg) (store l) of
                   Inr lst \<Rightarrow> Inr (EntryHash lst, Sequence lst + 1)
                 | Inl err \<Rightarrow> if errors_Is err ErrNotFound then Inr (GenesisHash, 0)
                             else Inl (Wrapped ''read tip'' err))
      in case tip of
           Inl err \<Rightarrow> (Inl err, l)
         | Inr (prevHash, nextSeq) \<Rightarrow>
             (let entry0 = \<lparr>Sequence = nextSeq, Message = msg, PrevHash = prevHash, EntryHash = []\<rparr>;
                  entry = entry0\<lparr>EntryHash := ComputeHash entry0\<rparr>;
                  (err, s) = AppendEntry (store_ops l) (ChatID msg) entry (store l);
                  l1 = l\<lparr>store := s\<rparr>
              in case err of
                   Some e \<Rightarrow> (Inl (Wrapped ''append'' e), l1)
                 | None \<Rightarrow>
                     (let l2 = publish \<lparr>Kind = EntryAppended, ev_ChatID = ChatID msg,
                                        ev_Sequence = Sequence entry, ev_EntryHash = EntryHash entry\<rparr> l1
                      in if (Sequence entry + 1) mod SnapshotInterval = 0
                         then (case snapshot now (ChatID msg) entry l2 of
                                 (Some e, l3) \<Rightarrow> (Inl (Wrapped ''snapshot'' e), l3)
                               | (None, l3) \<Rightarrow> (Inr entry, l3))
                         else (Inr entry, l2))))"

definition Append ::
  "ed25519 \<Rightarrow> Time \<Rightarrow> SignedMessage \<Rightarrow> ('s, 'c, 'b) Log \<Rightarrow> LogEntry res \<times> ('s, 'c, 'b) Log" where
  "Append ed now msg l =
     (if \<not> supportedVersion (SchemaVersion msg) then (Inl ErrUnsupportedVersion, l)
      else if \<not> VerifyMessage ed msg then (Inl ErrInvalidSignature, l)
      else (let (lock, l1) = chatLock (ChatID msg) l in Append_locked now msg l1))"

definition Log_Subscribe :: "('s, 'c, 'b) Log \<Rightarrow> subscription res \<times> ('s, 'c, 'b) Log" where
  "Log_Subscribe l = (let (r, b) = Subscribe (broker_ops l) (broker l) in (r, l\<lparr>broker := b\<rparr>))"

section \<open>Inclusion proofs\<close>

record InclusionProof =
  ip_ChatID :: string
  ip_Sequence :: uint64
  ip_EntryHash :: string
  ip_SnapshotIndex :: uint64
  ip_MerkleRoot :: string
  ip_Proof :: "ProofNode list"

text \<open>
  The conversions \<open>int(x)\<close> of \<open>uint64\<close> values are signed readings. A negative length given to \<open>make\<close>
  and an index outside the slice panic.
\<close>

definition ProveInclusion :: "string \<Rightarrow> uint64 \<Rightarrow> ('s, 'c, 'b) Log \<Rightarrow> InclusionProof res" where
  "ProveInclusion chatID sequence l =
     (let snapIndex = sequence div SnapshotInterval
      in case SnapshotAt (store_ops l) chatID snapIndex (store l) of
           Inl err \<Rightarrow> if errors_Is err ErrNotFound then Inl ErrNotSnapshotted else Inl err
         | Inr snap \<Rightarrow>
             (case EntriesSince (store_ops l) chatID (FromSequence snap) (store l) of
                Inl err \<Rightarrow> Inl err
              | Inr window \<Rightarrow>
                  (let size = sint (ToSequence snap - FromSequence snap + 1)
                   in if int (length window) < size
                      then Inl (Errorf (''snapshot window incomplete: have '' @ dec_nat (length window)
                                        @ '' of '' @ dec_int size))
                      else if size < 0 then Inl (Panic ''makeslice: len out of range'')
                      else
                        (let leaves = map EntryHash (take (nat size) window);
                             localIdx = sint (sequence - FromSequence snap);
                             (proof, root) = Proof leaves localIdx
                         in if root \<noteq> MerkleRoot snap
                            then Inl (Errorf ''recomputed root does not match snapshot'')
                            else if localIdx < 0 \<or> int (length leaves) \<le> localIdx
                            then Inl (Panic ''index out of range'')
                            else Inr \<lparr>ip_ChatID = chatID, ip_Sequence = sequence,
                                      ip_EntryHash = leaves ! nat localIdx, ip_SnapshotIndex = snapIndex,
                                      ip_MerkleRoot = MerkleRoot snap, ip_Proof = proof\<rparr>))))"

section \<open>Reading\<close>

definition History :: "string \<Rightarrow> uint64 \<Rightarrow> int \<Rightarrow> ('s, 'c, 'b) Log \<Rightarrow> LogEntry list res" where
  "History chatID from limit l =
     (case EntriesSince (store_ops l) chatID from (store l) of
        Inl err \<Rightarrow> Inl err
      | Inr es \<Rightarrow> if 0 < limit \<and> limit < int (length es) then Inr (take (nat limit) es) else Inr es)"

definition Log_Entry :: "string \<Rightarrow> uint64 \<Rightarrow> ('s, 'c, 'b) Log \<Rightarrow> LogEntry res" where
  "Log_Entry chatID sequence l = Entry (store_ops l) chatID sequence (store l)"

section \<open>Verification\<close>

record MessageVerification =
  mv_Sequence :: uint64
  mv_Valid :: bool
  mv_Reason :: string

definition VerifyEntry :: "ed25519 \<Rightarrow> string \<Rightarrow> uint64 \<Rightarrow> ('s, 'c, 'b) Log \<Rightarrow> MessageVerification res" where
  "VerifyEntry ed chatID sequence l =
     (case Entry (store_ops l) chatID sequence (store l) of
        Inl err \<Rightarrow> Inl err
      | Inr e \<Rightarrow>
          (let res = \<lparr>mv_Sequence = sequence, mv_Valid = False, mv_Reason = []\<rparr>
           in if \<not> supportedVersion (SchemaVersion (Message e))
              then Inr (res\<lparr>mv_Reason := ''unsupported schema version''\<rparr>)
              else if ComputeHash e \<noteq> EntryHash e then Inr (res\<lparr>mv_Reason := ''tampered entry''\<rparr>)
              else if \<not> VerifyMessage ed (Message e) then Inr (res\<lparr>mv_Reason := ''bad signature''\<rparr>)
              else (case (if 0 < sequence
                          then map_sum (\<lambda>err. err) EntryHash (Entry (store_ops l) chatID (sequence - 1) (store l))
                          else Inr GenesisHash) of
                      Inl err \<Rightarrow> Inl err
                    | Inr expectedPrev \<Rightarrow>
                        if PrevHash e \<noteq> expectedPrev
                        then Inr (res\<lparr>mv_Reason := ''broken chain link to previous entry''\<rparr>)
                        else Inr (res\<lparr>mv_Valid := True\<rparr>))))"

record VerifyResult =
  vr_Valid :: bool
  vr_Entries :: uint64
  vr_Reason :: string

text \<open>The loop of \<open>Verify\<close>: the reason of the first failing check, if any.\<close>

fun Verify_loop :: "ed25519 \<Rightarrow> nat \<Rightarrow> string \<Rightarrow> LogEntry list \<Rightarrow> string option" where
  "Verify_loop ed i prevHash [] = None"
| "Verify_loop ed i prevHash (e # es) =
     (if Sequence e \<noteq> to_uint64 i then Some (''sequence gap at '' @ dec_nat i)
      else if PrevHash e \<noteq> prevHash then Some (''broken chain at seq '' @ dec_nat (unat (Sequence e)))
      else if \<not> supportedVersion (SchemaVersion (Message e))
      then Some (''unsupported schema version at seq '' @ dec_nat (unat (Sequence e)))
      else if ComputeHash e \<noteq> EntryHash e then Some (''tampered entry at seq '' @ dec_nat (unat (Sequence e)))
      else if \<not> VerifyMessage ed (Message e) then Some (''bad signature at seq '' @ dec_nat (unat (Sequence e)))
      else Verify_loop ed (i + 1) (EntryHash e) es)"

definition Log_Verify :: "ed25519 \<Rightarrow> string \<Rightarrow> ('s, 'c, 'b) Log \<Rightarrow> VerifyResult res" where
  "Log_Verify ed chatID l =
     (case EntriesSince (store_ops l) chatID 0 (store l) of
        Inl err \<Rightarrow> Inl err
      | Inr es \<Rightarrow>
          (case Verify_loop ed 0 GenesisHash es of
             Some reason \<Rightarrow> Inr \<lparr>vr_Valid = False, vr_Entries = 0, vr_Reason = reason\<rparr>
           | None \<Rightarrow> Inr \<lparr>vr_Valid = True, vr_Entries = ulen es, vr_Reason = []\<rparr>))"

section \<open>Synchronisation\<close>

record SyncBundle =
  Snapshot :: "MerkleSnapshot option"
  NewEntries :: "LogEntry list"
  CurrentHash :: string

definition Sync :: "string \<Rightarrow> ('s, 'c, 'b) Log \<Rightarrow> SyncBundle res" where
  "Sync chatID l =
     (let start = (case LatestSnapshot (store_ops l) chatID (store l) of
                     Inr snap \<Rightarrow> Inr (Some snap, ToSequence snap + 1)
                   | Inl err \<Rightarrow> if errors_Is err ErrNotFound then Inr (None, 0) else Inl err)
      in case start of
           Inl err \<Rightarrow> Inl err
         | Inr (snap, from) \<Rightarrow>
             (case EntriesSince (store_ops l) chatID from (store l) of
                Inl err \<Rightarrow> Inl err
              | Inr es \<Rightarrow>
                  (case LastEntry (store_ops l) chatID (store l) of
                     Inr lst \<Rightarrow> Inr \<lparr>Snapshot = snap, NewEntries = es, CurrentHash = EntryHash lst\<rparr>
                   | Inl err \<Rightarrow> if errors_Is err ErrNotFound
                               then Inr \<lparr>Snapshot = snap, NewEntries = es, CurrentHash = GenesisHash\<rparr>
                               else Inl err)))"

end
