(* ===== verification/Chatlog_Spec.thy ===== *)
theory Chatlog_Spec
  imports Chatlog
begin

text \<open>
  What the log promises, stated on lists: a well-formed chain of entries, the snapshots that seal its
  windows of 100, and the abstract append. \<open>Chatlog_Props\<close> shows that the operations of \<open>log.go\<close>
  implement this specification over any store that satisfies the storage contract.
\<close>

section \<open>The hash chain\<close>

definition tip_hash :: "LogEntry list \<Rightarrow> string" where
  "tip_hash es = (if es = [] then GenesisHash else EntryHash (last es))"

definition entry_ok :: "ed25519 \<Rightarrow> LogEntry \<Rightarrow> bool" where
  "entry_ok ed e \<longleftrightarrow> supportedVersion (SchemaVersion (Message e)) \<and> ComputeHash e = EntryHash e
     \<and> VerifyMessage ed (Message e)"

text \<open>Entry \<open>i\<close> has sequence number \<open>i\<close>, links to its predecessor and is intact and authentic.\<close>

definition chained :: "ed25519 \<Rightarrow> LogEntry list \<Rightarrow> bool" where
  "chained ed es \<longleftrightarrow>
     (\<forall>i<length es. Sequence (es ! i) = to_uint64 i \<and> PrevHash (es ! i) = tip_hash (take i es)
        \<and> entry_ok ed (es ! i))"

lemma chained_Nil [simp]: "chained ed []"
  by (simp add: chained_def)

lemma chained_snoc:
  "chained ed (es @ [e]) \<longleftrightarrow> chained ed es \<and> Sequence e = ulen es \<and> PrevHash e = tip_hash es \<and> entry_ok ed e"
  by (auto simp: chained_def nth_append less_Suc_eq ulen_def)

lemma chained_prefix: "chained ed (es @ fs) \<Longrightarrow> chained ed es"
  by (induction fs rule: rev_induct) (simp_all add: chained_snoc flip: append_assoc)

lemma chained_take: "chained ed es \<Longrightarrow> chained ed (take n es)"
  using chained_prefix [of ed "take n es" "drop n es"] by simp

lemma tip_hash_Nil [simp]: "tip_hash [] = GenesisHash"
  by (simp add: tip_hash_def)

lemma tip_hash_snoc [simp]: "tip_hash (es @ [e]) = EntryHash e"
  by (simp add: tip_hash_def)

lemma chained_hash_sized: "chained ed es \<Longrightarrow> hash_sized (map EntryHash es)"
  by (auto simp: chained_def hash_sized_def entry_ok_def in_set_conv_nth) (metis length_ComputeHash)

section \<open>The verifier's loop decides the chain\<close>

text \<open>The fault that the loop reports for one entry, in the order of its checks.\<close>

definition entry_fault :: "ed25519 \<Rightarrow> nat \<Rightarrow> string \<Rightarrow> LogEntry \<Rightarrow> string option" where
  "entry_fault ed i prevHash e = Verify_loop ed i prevHash [e]"

lemma Verify_loop_append:
  "Verify_loop ed i p (es @ [e]) =
     (case Verify_loop ed i p es of
        Some r \<Rightarrow> Some r
      | None \<Rightarrow> entry_fault ed (i + length es) (if es = [] then p else EntryHash (last es)) e)"
  by (induction es arbitrary: i p) (simp_all add: entry_fault_def split: option.splits)

lemma Verify_loop_append_list:
  "Verify_loop ed i p (es @ fs) =
     (case Verify_loop ed i p es of
        Some r \<Rightarrow> Some r
      | None \<Rightarrow> Verify_loop ed (i + length es) (if es = [] then p else EntryHash (last es)) fs)"
  by (induction es arbitrary: i p) (simp_all split: option.splits)

lemma entry_fault_None:
  "entry_fault ed i p e = None \<longleftrightarrow> Sequence e = to_uint64 i \<and> PrevHash e = p \<and> entry_ok ed e"
  by (auto simp: entry_fault_def entry_ok_def)

lemma Verify_loop_iff: "Verify_loop ed 0 GenesisHash es = None \<longleftrightarrow> chained ed es"
proof (induction es rule: rev_induct)
  case (snoc e es)
  then show ?case
    by (auto simp: Verify_loop_append chained_snoc entry_fault_None ulen_def tip_hash_def
        split: option.splits)
qed simp

lemma Verify_loop_suffix:
  assumes "chained ed (es @ fs)"
  shows "Verify_loop ed (length es) (tip_hash es) fs = None"
proof -
  have "Verify_loop ed 0 GenesisHash (es @ fs) = None" "Verify_loop ed 0 GenesisHash es = None"
    using assms chained_prefix [OF assms] by (simp_all add: Verify_loop_iff)
  then show ?thesis
    by (simp add: Verify_loop_append_list tip_hash_def)
qed

lemma Verify_loop_first_fault:
  assumes "Verify_loop ed 0 GenesisHash es = Some r"
  shows "\<exists>k<length es. chained ed (take k es) \<and> entry_fault ed k (tip_hash (take k es)) (es ! k) = Some r"
  using assms
proof (induction es rule: rev_induct)
  case (snoc e es)
  show ?case
  proof (cases "Verify_loop ed 0 GenesisHash es")
    case None
    then have "chained ed es"
      by (simp add: Verify_loop_iff)
    moreover have "entry_fault ed (length es) (tip_hash es) e = Some r"
      using snoc.prems None by (simp add: Verify_loop_append tip_hash_def)
    ultimately show ?thesis
      by (intro exI [of _ "length es"]) simp
  next
    case (Some r')
    then have "\<exists>k<length es. chained ed (take k es) \<and> entry_fault ed k (tip_hash (take k es)) (es ! k) = Some r"
      using snoc by (simp add: Verify_loop_append)
    then obtain k where "k < length es" "chained ed (take k es)"
      "entry_fault ed k (tip_hash (take k es)) (es ! k) = Some r"
      by blast
    then show ?thesis
      by (intro exI [of _ k]) (simp add: nth_append)
  qed
qed simp

section \<open>The tip hash commits to the history\<close>

definition preimages :: "LogEntry list \<Rightarrow> byte list set" where
  "preimages es = (\<Union>e\<in>set es. entry_preimages e)"

definition all_utf8 :: "LogEntry list \<Rightarrow> bool" where
  "all_utf8 es \<longleftrightarrow> (\<forall>e\<in>set es. message_utf8 (Message e))"

lemma tip_hash_commits:
  assumes "chained ed es" "chained ed' es'" "es \<noteq> []" "es' \<noteq> []" "all_utf8 es" "all_utf8 es'"
    and "length es < max_slice" "length es' < max_slice" "tip_hash es = tip_hash es'"
  shows "es = es' \<or> collide (preimages es) (preimages es')"
  using assms
proof (induction es arbitrary: es' rule: rev_induct)
  case (snoc e es)
  then obtain e' fs where es': "es' = fs @ [e']"
    by (metis rev_exhaust)
  have ch: "chained ed es" "chained ed' fs" "entry_ok ed e" "entry_ok ed' e'"
    "Sequence e = ulen es" "Sequence e' = ulen fs" "PrevHash e = tip_hash es" "PrevHash e' = tip_hash fs"
    using snoc.prems(1,2) by (simp_all add: es' chained_snoc)
  have hash: "EntryHash e = EntryHash e'"
    using snoc.prems(9) by (simp add: es')
  have "ComputeHash e = ComputeHash e'"
    using ch hash by (simp add: entry_ok_def)
  then have "(Sequence e = Sequence e' \<and> Message e = Message e' \<and> PrevHash e = PrevHash e')
      \<or> collide (entry_preimages e) (entry_preimages e')"
    using snoc.prems(5,6) by (intro ComputeHash_commits) (simp_all add: es' all_utf8_def)
  then show ?case
  proof
    assume eq: "Sequence e = Sequence e' \<and> Message e = Message e' \<and> PrevHash e = PrevHash e'"
    then have "e = e'"
      using hash by (cases e; cases e') simp
    have "ulen es = ulen fs" "length es < max_slice" "length fs < max_slice"
      using eq ch snoc.prems(7,8) by (simp_all add: es')
    then have len: "length es = length fs"
      by (metis unat_ulen)
    have "es = fs \<or> collide (preimages es) (preimages fs)"
    proof (cases "es = []")
      case False
      then have "fs \<noteq> []"
        using len by auto
      with False show ?thesis
        using snoc.prems(5-8) ch eq by (intro snoc.IH) (simp_all add: es' all_utf8_def)
    qed (use len in simp)
    moreover have "preimages es \<subseteq> preimages (es @ [e])" "preimages fs \<subseteq> preimages es'"
      by (auto simp: preimages_def es')
    ultimately show ?thesis
      using \<open>e = e'\<close> collide_mono [of "preimages es" "preimages fs"] by (auto simp: es')
  next
    assume "collide (entry_preimages e) (entry_preimages e')"
    then have "collide (preimages (es @ [e])) (preimages es')"
      by (rule collide_mono) (auto simp: preimages_def es')
    then show ?thesis ..
  qed
qed simp

section \<open>Sealed windows\<close>

definition window :: "LogEntry list \<Rightarrow> nat \<Rightarrow> LogEntry list" where
  "window es i = take 100 (drop (100 * i) es)"

text \<open>Snapshot \<open>p\<close> seals window \<open>i\<close>; the creation time is not fixed.\<close>

definition seals :: "string \<Rightarrow> LogEntry list \<Rightarrow> nat \<Rightarrow> MerkleSnapshot \<Rightarrow> bool" where
  "seals c es i p \<longleftrightarrow> snap_ChatID p = c \<and> SnapshotIndex p = to_uint64 i
     \<and> FromSequence p = to_uint64 (100 * i) \<and> ToSequence p = to_uint64 (100 * i + 99)
     \<and> MerkleRoot p = Root (map EntryHash (window es i)) \<and> LastEntryHash p = EntryHash (es ! (100 * i + 99))"

text \<open>There is exactly one snapshot per full window, in order.\<close>

definition sealed :: "string \<Rightarrow> LogEntry list \<Rightarrow> MerkleSnapshot list \<Rightarrow> bool" where
  "sealed c es ps \<longleftrightarrow> length ps = length es div 100 \<and> (\<forall>i<length ps. seals c es i (ps ! i))"

lemma window_append: "100 * i + 100 \<le> length es \<Longrightarrow> window (es @ fs) i = window es i"
  by (simp add: window_def)

lemma length_window: "100 * i + 100 \<le> length es \<Longrightarrow> length (window es i) = 100"
  by (simp add: window_def)

lemma seals_append: "100 * i + 100 \<le> length es \<Longrightarrow> seals c (es @ fs) i p = seals c es i p"
  by (simp add: seals_def window_append nth_append)

lemma sealed_window: "sealed c es ps \<Longrightarrow> i < length ps \<Longrightarrow> 100 * i + 100 \<le> length es \<and> seals c es i (ps ! i)"
  by (auto simp: sealed_def)

lemma sealed_keep:
  assumes "sealed c es ps" "(length es + 1) mod 100 \<noteq> 0"
  shows "sealed c (es @ [e]) ps"
proof -
  have "(length es + 1) div 100 = length es div 100"
    using assms(2) div_Suc [of "length es" 100] by (simp split: if_splits)
  then show ?thesis
    using assms(1) sealed_window [OF assms(1)] by (simp add: sealed_def seals_append)
qed

lemma sealed_add:
  assumes "sealed c es ps" "length es + 1 = 100 * (length ps + 1)" "seals c (es @ [e]) (length ps) p"
  shows "sealed c (es @ [e]) (ps @ [p])"
proof -
  have "length (es @ [e]) div 100 = length ps + 1"
    using assms(2) by simp
  moreover have "seals c (es @ [e]) i ((ps @ [p]) ! i)" if "i < length ps + 1" for i
    using that assms(3) sealed_window [OF assms(1), of i] by (auto simp: nth_append seals_append less_Suc_eq)
  ultimately show ?thesis
    by (simp add: sealed_def)
qed

lemma seals_stamp [simp]: "seals c es i (p\<lparr>CreatedAt := t\<rparr>) = seals c es i p"
  by (simp add: seals_def)

section \<open>The abstract log\<close>

text \<open>The entry that a message becomes at the end of a chain.\<close>

definition next_entry :: "LogEntry list \<Rightarrow> SignedMessage \<Rightarrow> LogEntry" where
  "next_entry es m =
     (let e = \<lparr>Sequence = ulen es, Message = m, PrevHash = tip_hash es, EntryHash = []\<rparr>
      in e\<lparr>EntryHash := ComputeHash e\<rparr>)"

type_synonym abs_log = "string \<Rightarrow> LogEntry list"

definition abs_append :: "ed25519 \<Rightarrow> SignedMessage \<Rightarrow> abs_log \<Rightarrow> LogEntry res \<times> abs_log" where
  "abs_append ed m a =
     (if \<not> supportedVersion (SchemaVersion m) then (Inl ErrUnsupportedVersion, a)
      else if \<not> VerifyMessage ed m then (Inl ErrInvalidSignature, a)
      else (let e = next_entry (a (ChatID m)) m in (Inr e, a(ChatID m := a (ChatID m) @ [e]))))"

definition acceptable :: "ed25519 \<Rightarrow> SignedMessage \<Rightarrow> bool" where
  "acceptable ed m \<longleftrightarrow> supportedVersion (SchemaVersion m) \<and> VerifyMessage ed m"

text \<open>The events that an accepted message causes.\<close>

definition entry_event :: "EventKind \<Rightarrow> LogEntry \<Rightarrow> Event" where
  "entry_event k e = \<lparr>Kind = k, ev_ChatID = ChatID (Message e), ev_Sequence = Sequence e,
     ev_EntryHash = EntryHash e\<rparr>"

definition append_events :: "LogEntry \<Rightarrow> Event list" where
  "append_events e =
     entry_event EntryAppended e #
     (if (unat (Sequence e) + 1) mod 100 = 0 then [entry_event SnapshotCreated e] else [])"

lemma ComputeHash_cong:
  "\<lbrakk>Sequence e = Sequence e'; Message e = Message e'; PrevHash e = PrevHash e'\<rbrakk> \<Longrightarrow> ComputeHash e = ComputeHash e'"
  by (simp add: ComputeHash_def chained_input_def digest_input_def)

lemma next_entry_simps [simp]:
  "Sequence (next_entry es m) = ulen es" "Message (next_entry es m) = m"
  "PrevHash (next_entry es m) = tip_hash es"
  by (simp_all add: next_entry_def Let_def)

lemma next_entry_hash: "ComputeHash (next_entry es m) = EntryHash (next_entry es m)"
  by (simp add: next_entry_def Let_def) (rule ComputeHash_cong; simp)

lemma chained_next: "chained ed es \<Longrightarrow> acceptable ed m \<Longrightarrow> chained ed (es @ [next_entry es m])"
  by (simp add: chained_snoc entry_ok_def acceptable_def next_entry_hash)

section \<open>Runs of a node\<close>

text \<open>The calls that change a log, and their effect on it; a run is a list of calls.\<close>

datatype log_op =
    Op_Append Time SignedMessage
  | Op_Subscribe
  | Op_Cancel subscription

fun exec :: "ed25519 \<Rightarrow> log_op \<Rightarrow> ('s, 'c, 'b) Log \<Rightarrow> ('s, 'c, 'b) Log" where
  "exec ed (Op_Append now m) l = snd (Append ed now m l)"
| "exec ed Op_Subscribe l = snd (Log_Subscribe l)"
| "exec ed (Op_Cancel h) l = l\<lparr>broker := Cancel (broker_ops l) h (broker l)\<rparr>"

definition run :: "ed25519 \<Rightarrow> log_op list \<Rightarrow> ('s, 'c, 'b) Log \<Rightarrow> ('s, 'c, 'b) Log" where
  "run ed ops l = fold (exec ed) ops l"

lemma run_simps [simp]:
  "run ed [] l = l"
  "run ed (ops @ [op]) l = exec ed op (run ed ops l)"
  by (simp_all add: run_def)

fun op_messages :: "log_op \<Rightarrow> SignedMessage set" where
  "op_messages (Op_Append now m) = {m}"
| "op_messages _ = {}"

text \<open>What a call does to the abstract log.\<close>

fun abs_exec :: "ed25519 \<Rightarrow> log_op \<Rightarrow> abs_log \<Rightarrow> abs_log" where
  "abs_exec ed (Op_Append now m) a = snd (abs_append ed m a)"
| "abs_exec ed _ a = a"

text \<open>A node as \<open>main\<close> assembles it on the in-memory store, with any cache and any broker.\<close>

definition new_node ::
  "'c cache_ops \<Rightarrow> 'c \<Rightarrow> 'b broker_ops \<Rightarrow> 'b \<Rightarrow> (InMemoryStorage, 'c, 'b) Log" where
  "new_node C c B b = WithBroker B b (WithCache C c (New InMemoryStorage_ops NewInMemoryStorage))"

text \<open>
  The logs that any sequence of calls can lead to. The bound on the number of calls is the size limit
  of Go slices, which no store held in memory can exceed.
\<close>

definition reachable :: "ed25519 \<Rightarrow> (InMemoryStorage, 'c, 'b) Log \<Rightarrow> bool" where
  "reachable ed l \<longleftrightarrow>
     (\<exists>ops C c B b. length ops + 1 < max_slice \<and> l = run ed ops (new_node C c B b))"

end
