(* ===== verification/Chatlog_Props.thy ===== *)
theory Chatlog_Props
  imports Chatlog_Spec
begin

text \<open>
  Correctness of the log over any store that satisfies the storage contract, proved inside the locale
  and then stated for the in-memory store: appends implement the abstract log, every reachable log is
  a well-formed chain with one snapshot per full window, and the readers (history, verification,
  inclusion proofs, synchronisation) answer from that chain.
\<close>

section \<open>Sequence numbers\<close>

lemma unat_100 [simp]: "unat (100 :: uint64) = 100"
  by simp

lemma interval_mod:
  assumes "n < max_slice"
  shows "to_uint64 n mod SnapshotInterval = 0 \<longleftrightarrow> n mod 100 = 0"
  using assms
  by (simp add: SnapshotInterval_def word_unat_eq_iff unat_mod)

lemma interval_div:
  assumes "unat s = n"
  shows "unat (s div SnapshotInterval) = n div 100"
  using assms by (simp add: SnapshotInterval_def unat_div)

lemma to_uint64_diff: "to_uint64 (n + k) - to_uint64 n = to_uint64 k"
  by (simp add: to_uint64_def)

lemma window_size: "to_uint64 (100 * k + 99) - to_uint64 (100 * k) + 1 = to_uint64 100"
  by (simp add: to_uint64_diff to_uint64_Suc)

section \<open>The invariant\<close>

definition chat_ok :: "ed25519 \<Rightarrow> string \<Rightarrow> LogEntry list \<Rightarrow> MerkleSnapshot list \<Rightarrow> bool" where
  "chat_ok ed c es ps \<longleftrightarrow> chained ed es \<and> (\<forall>e\<in>set es. ChatID (Message e) = c) \<and> sealed c es ps"

definition log_inv ::
  "ed25519 \<Rightarrow> 's storage_ops \<Rightarrow> ('s \<Rightarrow> string \<Rightarrow> LogEntry list) \<Rightarrow> ('s \<Rightarrow> string \<Rightarrow> MerkleSnapshot list) \<Rightarrow>
   ('s \<Rightarrow> bool) \<Rightarrow> ('s, 'c, 'b) Log \<Rightarrow> bool" where
  "log_inv ed S ents snaps ok l \<longleftrightarrow>
     store_ops l = S \<and> ok (store l) \<and> (\<forall>c. chat_ok ed c (ents (store l) c) (snaps (store l) c))"

lemma tip_sequence:
  assumes "chained ed es" "es \<noteq> []"
  shows "Sequence (last es) + 1 = ulen es"
proof -
  have "last es = es ! (length es - 1)" "length es - 1 < length es"
    using assms(2) by (simp_all add: last_conv_nth)
  with assms(1) have "Sequence (last es) = to_uint64 (length es - 1)"
    by (simp add: chained_def)
  with assms(2) show ?thesis
    by (simp add: to_uint64_Suc ulen_def)
qed

lemma chatLock_frame [simp]:
  "store_ops (snd (chatLock c l)) = store_ops l" "store (snd (chatLock c l)) = store l"
  "cache_ops (snd (chatLock c l)) = cache_ops l" "cache (snd (chatLock c l)) = cache l"
  "broker_ops (snd (chatLock c l)) = broker_ops l" "broker (snd (chatLock c l)) = broker l"
  by (simp_all add: chatLock_def split: option.splits)

lemma Append_accepts:
  "acceptable ed m \<Longrightarrow> Append ed now m l = Append_locked now m (snd (chatLock (ChatID m) l))"
  by (simp add: Append_def acceptable_def split: prod.splits)

lemma Append_rejects:
  "\<not> acceptable ed m \<Longrightarrow> Append ed now m l =
     (Inl (if supportedVersion (SchemaVersion m) then ErrInvalidSignature else ErrUnsupportedVersion), l)"
  by (auto simp: Append_def acceptable_def)

section \<open>Appending, over the storage contract\<close>

context storage_port
begin

lemma latest_sealed:
  assumes "ok s" "chat_name c" "sealed c es (snaps s c)" "snaps s c \<noteq> []"
  shows "LatestSnapshot S c s = Inr (last (snaps s c))"
    "ToSequence (last (snaps s c)) + 1 = to_uint64 (100 * length (snaps s c))"
    "SnapshotIndex (last (snaps s c)) + 1 = to_uint64 (length (snaps s c))"
proof -
  obtain k where k: "length (snaps s c) = Suc k"
    using assms(4) by (cases "snaps s c") auto
  have "to_uint64 (100 * k + 99) + 1 = to_uint64 (100 * Suc k)"
    unfolding to_uint64_Suc by (rule arg_cong [of _ _ to_uint64]) simp
  moreover have "last (snaps s c) = snaps s c ! k"
    using assms(4) k by (simp add: last_conv_nth)
  then have "seals c es k (last (snaps s c))"
    using assms(3) k by (simp add: sealed_def)
  ultimately show "LatestSnapshot S c s = Inr (last (snaps s c))"
    "ToSequence (last (snaps s c)) + 1 = to_uint64 (100 * length (snaps s c))"
    "SnapshotIndex (last (snaps s c)) + 1 = to_uint64 (length (snaps s c))"
    using assms k by (simp_all add: latest_snapshot seals_def to_uint64_Suc)
qed

lemma snapshot_start:
  assumes "ok s" "chat_name c" "sealed c es (snaps s c)"
  shows "(case LatestSnapshot S c s of
            Inr prev \<Rightarrow> Inr (ToSequence prev + 1, SnapshotIndex prev + 1)
          | Inl err \<Rightarrow> if errors_Is err ErrNotFound then Inr (0, 0) else Inl err)
       = Inr (to_uint64 (100 * length (snaps s c)), to_uint64 (length (snaps s c)))"
  using assms latest_sealed [OF assms]
  by (cases "snaps s c = []") (simp_all add: latest_snapshot)

lemma snapshot_spec:
  assumes l: "store_ops l = S" "ok (store l)"
    and es: "ents (store l) c = es" "length es < max_slice" "es \<noteq> []" "last es = tip"
      "length es = 100 * (length ps + 1)" "Sequence tip = to_uint64 (length es - 1)"
    and ps: "snaps (store l) c = ps" "sealed c (butlast es) ps" "storable c tip"
  shows "\<exists>s p. snapshot now c tip l =
      (None, publish \<lparr>Kind = SnapshotCreated, ev_ChatID = c, ev_Sequence = Sequence tip, ev_EntryHash = EntryHash tip\<rparr>
        (l\<lparr>store := s, cache := SetMerkleRoot (cache_ops l) c (MerkleRoot p) (cache l)\<rparr>))
    \<and> ok s \<and> ents s = ents (store l) \<and> snaps s = (snaps (store l))(c := ps @ [p]) \<and> seals c es (length ps) p"
proof -
  let ?k = "length ps"
  let ?p = "\<lparr>snap_ChatID = c, SnapshotIndex = to_uint64 ?k, FromSequence = to_uint64 (100 * ?k),
    ToSequence = Sequence tip, MerkleRoot = Root (map EntryHash (window es ?k)), LastEntryHash = EntryHash tip,
    CreatedAt = now\<rparr>"
  have name: "chat_name c"
    using ps(3) by (rule storable_name)
  have small: "100 * ?k < max_slice" "?k < max_slice" "?k + 1 < max_slice"
    using es(2,5) by auto
  have win: "drop (100 * ?k) es = window es ?k"
    using es(5) by (simp add: window_def)
  have "es ! (100 * ?k + 99) = tip"
    using es(3-5) by (simp add: last_conv_nth add.commute)
  moreover have "Sequence tip = to_uint64 (100 * ?k + 99)"
    unfolding es(6) by (rule arg_cong [of _ _ to_uint64]) (simp add: es(5))
  ultimately have seals: "seals c es ?k ?p"
    by (simp add: seals_def)
  have "\<exists>s'. SaveSnapshot S ?p (store l) = (None, s') \<and> ok s' \<and> ents s' = ents (store l) \<and>
      snaps s' = (snaps (store l))(snap_ChatID ?p := snaps (store l) (snap_ChatID ?p) @ [?p\<lparr>CreatedAt := stamp (CreatedAt ?p)\<rparr>])"
  proof (rule save_next)
    have "length (window es ?k) = 100"
      using es(5) by (simp add: length_window)
    then show "\<forall>ch\<in>set (MerkleRoot ?p). is_hex ch"
      using Root_hex [of "map EntryHash (window es ?k)"] by simp
    show "storable (snap_ChatID ?p) tip" "LastEntryHash ?p = EntryHash tip"
      using ps(3) by simp_all
  qed (use l ps small in \<open>simp_all add: unat_to_uint64\<close>)
  then obtain s where s: "SaveSnapshot S ?p (store l) = (None, s)" "ok s" "ents s = ents (store l)"
    "snaps s = (snaps (store l))(c := ps @ [?p\<lparr>CreatedAt := stamp now\<rparr>])"
    using ps(1) by auto
  have "snapshot now c tip l =
      (None, publish \<lparr>Kind = SnapshotCreated, ev_ChatID = c, ev_Sequence = Sequence tip, ev_EntryHash = EntryHash tip\<rparr>
        (l\<lparr>store := s, cache := SetMerkleRoot (cache_ops l) c (MerkleRoot ?p) (cache l)\<rparr>))"
    using snapshot_start [OF l(2) name, of "butlast es"] name l es(1) ps small(1) s(1) win
    by (simp add: snapshot_def entries_since unat_to_uint64 Let_def)
  with s seals show ?thesis
    by (intro exI [of _ s] exI [of _ "?p\<lparr>CreatedAt := stamp now\<rparr>"]) (simp add: seals_def)
qed

lemma tip_spec:
  assumes "ok s" "chained ed (ents s c)" "chat_name c"
  shows "(case LastEntry S c s of
            Inr lst \<Rightarrow> Inr (EntryHash lst, Sequence lst + 1)
          | Inl err \<Rightarrow> if errors_Is err ErrNotFound then Inr (GenesisHash, 0) else Inl (Wrapped ''read tip'' err))
       = Inr (tip_hash (ents s c), ulen (ents s c))"
  using assms tip_sequence [OF assms(2)] by (simp add: last_entry tip_hash_def ulen_def)

lemma append_entry_spec:
  assumes "ok s" "length (ents s c) + 1 < max_slice" "storable c (next_entry (ents s c) m)"
  obtains s' where "AppendEntry S c (next_entry (ents s c) m) s = (None, s')" "ok s'" "snaps s' = snaps s"
    "ents s' = (ents s)(c := ents s c @ [next_entry (ents s c) m])"
  using append_tip [OF assms(1) _ assms(2,3)] assms(2) by auto

text \<open>Before the snapshot: the entry is stored and announced.\<close>

lemma Append_locked_steps:
  assumes "store_ops l = S" "ok (store l)" "chained ed es" "length es + 1 < max_slice" "storable c e"
    and "ents (store l) c = es" "ChatID m = c" "e = next_entry es m"
  obtains s where "ok s" "snaps s = snaps (store l)" "ents s = (ents (store l))(c := es @ [e])"
    "Append_locked now m l =
       (let l2 = publish (entry_event EntryAppended e) (l\<lparr>store := s\<rparr>)
        in if (length es + 1) mod 100 = 0
           then (case snapshot now c e l2 of
                   (Some err, l3) \<Rightarrow> (Inl (Wrapped ''snapshot'' err), l3)
                 | (None, l3) \<Rightarrow> (Inr e, l3))
           else (Inr e, l2))"
proof -
  obtain s where s: "AppendEntry S c e (store l) = (None, s)" "ok s" "snaps s = snaps (store l)"
    "ents s = (ents (store l))(c := es @ [e])"
    using append_entry_spec [of "store l" c m] assms by auto
  have seq: "(ulen es + 1) mod SnapshotInterval = 0 \<longleftrightarrow> (length es + 1) mod 100 = 0"
    unfolding ulen_def to_uint64_Suc by (rule interval_mod) (rule assms(4))
  have "Append_locked now m l =
       (let l2 = publish (entry_event EntryAppended e) (l\<lparr>store := s\<rparr>)
        in if (length es + 1) mod 100 = 0
           then (case snapshot now c e l2 of
                   (Some err, l3) \<Rightarrow> (Inl (Wrapped ''snapshot'' err), l3)
                 | (None, l3) \<Rightarrow> (Inr e, l3))
           else (Inr e, l2))"
    using tip_spec [OF assms(2), of ed c] storable_name [OF assms(5)] assms(1,3,6-8) s(1) seq
    by (simp add: Append_locked_def Let_def next_entry_def entry_event_def split: prod.split option.split)
  with s show thesis
    using that by blast
qed

lemma Append_locked_spec:
  assumes "store_ops l = S" "ok (store l)" "chat_ok ed c es ps" "length es + 1 < max_slice" "storable c e"
    and "ents (store l) c = es" "snaps (store l) c = ps" "ChatID m = c" "e = next_entry es m"
  shows "\<exists>s. Append_locked now m l =
      (Inr e, l\<lparr>store := s, broker := publish_list (broker_ops l) (append_events e) (broker l),
        cache := (if (length es + 1) mod 100 = 0
                  then SetMerkleRoot (cache_ops l) c (MerkleRoot (last (snaps s c))) (cache l) else cache l)\<rparr>)
    \<and> ok s \<and> ents s = (ents (store l))(c := es @ [e]) \<and> (\<forall>d. d \<noteq> c \<longrightarrow> snaps s d = snaps (store l) d)
    \<and> prefix ps (snaps s c) \<and> sealed c (es @ [e]) (snaps s c)"
proof -
  have ch: "chained ed es" and se: "sealed c es ps"
    using assms(3) by (simp_all add: chat_ok_def)
  obtain s where s: "ok s" "snaps s = snaps (store l)" "ents s = (ents (store l))(c := es @ [e])"
    and step: "Append_locked now m l =
       (let l2 = publish (entry_event EntryAppended e) (l\<lparr>store := s\<rparr>)
        in if (length es + 1) mod 100 = 0
           then (case snapshot now c e l2 of
                   (Some err, l3) \<Rightarrow> (Inl (Wrapped ''snapshot'' err), l3)
                 | (None, l3) \<Rightarrow> (Inr e, l3))
           else (Inr e, l2))"
    by (rule Append_locked_steps [OF assms(1,2) ch assms(4-6,8,9)])
  have seq: "unat (Sequence e) = length es"
    using assms(4,9) by simp
  show ?thesis
  proof (cases "(length es + 1) mod 100 = 0")
    case False
    then show ?thesis
      using s step seq sealed_keep [OF se False] assms(7)
      by (intro exI [of _ s]) (simp add: publish_def append_events_def publish_list_def)
  next
    case True
    have len: "length es + 1 = 100 * (length ps + 1)"
      using True se div_Suc [of "length es" 100] by (simp add: sealed_def mod_Suc split: if_splits)
    let ?l = "publish (entry_event EntryAppended e) (l\<lparr>store := s\<rparr>)"
    obtain s' p where "snapshot now c e ?l =
      (None, publish \<lparr>Kind = SnapshotCreated, ev_ChatID = c, ev_Sequence = Sequence e, ev_EntryHash = EntryHash e\<rparr>
        (?l\<lparr>store := s', cache := SetMerkleRoot (cache_ops ?l) c (MerkleRoot p) (cache ?l)\<rparr>))"
      "ok s'" "ents s' = ents (store ?l)" "snaps s' = (snaps (store ?l))(c := ps @ [p])"
      "seals c (es @ [e]) (length ps) p"
      using snapshot_spec [of ?l c "es @ [e]" e ps now] s assms len se
      by (auto simp: publish_def ulen_def)
    then show ?thesis
      using s step seq True sealed_add [OF se len] assms
      by (intro exI [of _ s']) (simp add: publish_def append_events_def publish_list_def entry_event_def)
  qed
qed

lemma Append_spec:
  assumes "log_inv ed S ents snaps ok l" "acceptable ed m" "length es + 1 < max_slice" "storable c e"
    and "ents (store l) c = es" "ChatID m = c" "e = next_entry es m"
  obtains l' where "Append ed now m l = (Inr e, l')" "log_inv ed S ents snaps ok l'"
    "ents (store l') = (ents (store l))(c := es @ [e])" "\<forall>d. d \<noteq> c \<longrightarrow> snaps (store l') d = snaps (store l) d"
    "prefix (snaps (store l) c) (snaps (store l') c)" "broker_ops l' = broker_ops l" "broker l' = publish_list (broker_ops l) (append_events e) (broker l)"
    "cache_ops l' = cache_ops l"
    "cache l' = (if (length es + 1) mod 100 = 0
       then SetMerkleRoot (cache_ops l) c (MerkleRoot (last (snaps (store l') c))) (cache l) else cache l)"
proof -
  let ?l = "snd (chatLock c l)"
  have l: "store_ops ?l = S" "ok (store ?l)" and chat: "chat_ok ed d (ents (store l) d) (snaps (store l) d)" for d
    using assms(1) by (simp_all add: log_inv_def)
  obtain s where s: "Append_locked now m ?l =
      (Inr e, ?l\<lparr>store := s, broker := publish_list (broker_ops ?l) (append_events e) (broker ?l),
        cache := (if (length es + 1) mod 100 = 0
                  then SetMerkleRoot (cache_ops ?l) c (MerkleRoot (last (snaps s c))) (cache ?l) else cache ?l)\<rparr>)"
    "ok s" "ents s = (ents (store l))(c := es @ [e])" "\<forall>d. d \<noteq> c \<longrightarrow> snaps s d = snaps (store l) d"
    "prefix (snaps (store l) c) (snaps s c)" "sealed c (es @ [e]) (snaps s c)"
    using Append_locked_spec [OF l chat [of c, unfolded assms(5)] assms(3,4) _ _ assms(6,7), of now] assms(5)
    unfolding chatLock_frame by blast
  have "chat_ok ed d (ents s d) (snaps s d)" for d
    using chat [of d] chat [of c] s(3,4,6) assms(2,5-7) chained_next [of ed es m] by (simp add: chat_ok_def)
  then show thesis
    using s l(1) Append_accepts [OF assms(2), of now l] assms(6)
    by (intro that [of "snd (Append_locked now m ?l)"]) (simp_all add: log_inv_def)
qed

lemma Append_inv:
  assumes "log_inv ed S ents snaps ok l" "length (ents (store l) (ChatID m)) + 1 < max_slice"
    and "chained ed (ents (store l) (ChatID m)) \<Longrightarrow>
      storable (ChatID m) (next_entry (ents (store l) (ChatID m)) m)"
  shows "log_inv ed S ents snaps ok (snd (Append ed now m l))
    \<and> (fst (Append ed now m l), ents (store (snd (Append ed now m l)))) = abs_append ed m (ents (store l))
    \<and> (\<forall>d. prefix (snaps (store l) d) (snaps (store (snd (Append ed now m l))) d))"
proof (cases "acceptable ed m")
  case True
  have "storable (ChatID m) (next_entry (ents (store l) (ChatID m)) m)"
    using assms(1,3) by (simp add: log_inv_def chat_ok_def)
  from Append_spec [OF assms(1) True assms(2) this refl refl refl, of now] show ?thesis
    using True by (simp add: abs_append_def acceptable_def Let_def) (metis fst_conv snd_conv prefix_order.refl)
next
  case False
  with assms(1) show ?thesis
    by (auto simp: Append_rejects abs_append_def acceptable_def)
qed

text \<open>Every run keeps the invariant and only ever adds entries.\<close>

lemma exec_inv:
  assumes "log_inv ed S ents snaps ok l" "\<And>c. length (ents (store l) c) + 1 < max_slice"
    and "\<And>m es. \<lbrakk>m \<in> op_messages op; chained ed es\<rbrakk> \<Longrightarrow> storable (ChatID m) (next_entry es m)"
  shows "log_inv ed S ents snaps ok (exec ed op l)
    \<and> (\<forall>c. prefix (ents (store l) c) (ents (store (exec ed op l)) c)
         \<and> prefix (snaps (store l) c) (snaps (store (exec ed op l)) c)
         \<and> length (ents (store (exec ed op l)) c) \<le> length (ents (store l) c) + 1)"
proof (cases op)
  case (Op_Append now m)
  have "log_inv ed S ents snaps ok (snd (Append ed now m l))
    \<and> (fst (Append ed now m l), ents (store (snd (Append ed now m l)))) = abs_append ed m (ents (store l))
    \<and> (\<forall>d. prefix (snaps (store l) d) (snaps (store (snd (Append ed now m l))) d))"
    using assms by (intro Append_inv) (auto simp: Op_Append)
  then show ?thesis
    by (auto simp: Op_Append abs_append_def Let_def split: if_splits)
next
  case Op_Subscribe
  with assms(1) show ?thesis by (simp add: Log_Subscribe_def log_inv_def split: prod.splits)
next
  case (Op_Cancel h)
  with assms(1) show ?thesis by (simp add: log_inv_def)
qed

lemma run_inv:
  assumes "log_inv ed S ents snaps ok l" "\<And>c. length (ents (store l) c) + length ops < max_slice"
    and "\<And>op m es. \<lbrakk>op \<in> set ops; m \<in> op_messages op; chained ed es\<rbrakk> \<Longrightarrow> storable (ChatID m) (next_entry es m)"
  shows "log_inv ed S ents snaps ok (run ed ops l)
    \<and> (\<forall>c. prefix (ents (store l) c) (ents (store (run ed ops l)) c)
         \<and> prefix (snaps (store l) c) (snaps (store (run ed ops l)) c)
         \<and> length (ents (store (run ed ops l)) c) \<le> length (ents (store l) c) + length ops)"
  using assms(2,3)
proof (induction ops rule: rev_induct)
  case Nil
  with assms(1) show ?case by simp
next
  case (snoc op ops)
  have "length (ents (store l) c) + length ops < max_slice" for c
    using snoc.prems(1) [of c] by simp
  with snoc.IH snoc.prems(2) have IH: "log_inv ed S ents snaps ok (run ed ops l)"
    "\<And>c. prefix (ents (store l) c) (ents (store (run ed ops l)) c)"
    "\<And>c. prefix (snaps (store l) c) (snaps (store (run ed ops l)) c)"
    "\<And>c. length (ents (store (run ed ops l)) c) \<le> length (ents (store l) c) + length ops"
    by (auto simp: image_iff)
  have "length (ents (store (run ed ops l)) c) + 1 < max_slice" for c
    using IH(4) [of c] snoc.prems(1) [of c] by simp
  then have step: "log_inv ed S ents snaps ok (exec ed op (run ed ops l))"
    "prefix (ents (store (run ed ops l)) c) (ents (store (exec ed op (run ed ops l))) c)"
    "prefix (snaps (store (run ed ops l)) c) (snaps (store (exec ed op (run ed ops l))) c)"
    "length (ents (store (exec ed op (run ed ops l))) c) \<le> length (ents (store (run ed ops l)) c) + 1" for c
    using exec_inv [OF IH(1), of op] snoc.prems(2) by auto
  have "prefix (ents (store l) c) (ents (store (run ed (ops @ [op]) l)) c)
      \<and> prefix (snaps (store l) c) (snaps (store (run ed (ops @ [op]) l)) c)
      \<and> length (ents (store (run ed (ops @ [op]) l)) c) \<le> length (ents (store l) c) + length (ops @ [op])" for c
    using prefix_order.trans [OF IH(2) step(2)] prefix_order.trans [OF IH(3) step(3)] IH(4) [of c] step(4) [of c]
    by simp
  with step(1) show ?case
    by simp
qed

text \<open>Runs on any store follow the abstract log.\<close>

lemma exec_abs:
  assumes "log_inv ed S ents snaps ok l" "\<And>c. length (ents (store l) c) + 1 < max_slice"
    and "\<And>m es. \<lbrakk>m \<in> op_messages op; chained ed es\<rbrakk> \<Longrightarrow> storable (ChatID m) (next_entry es m)"
  shows "ents (store (exec ed op l)) = abs_exec ed op (ents (store l))"
proof (cases op)
  case (Op_Append now m)
  then show ?thesis
    using Append_inv [OF assms(1,2), of m now] assms(3) [of m]
    by simp (metis snd_conv)
qed (simp_all add: Log_Subscribe_def split: prod.splits)

lemma run_abs:
  assumes "log_inv ed S ents snaps ok l" "\<And>c. length (ents (store l) c) + length ops < max_slice"
    and "\<And>op m es. \<lbrakk>op \<in> set ops; m \<in> op_messages op; chained ed es\<rbrakk> \<Longrightarrow> storable (ChatID m) (next_entry es m)"
  shows "ents (store (run ed ops l)) = fold (abs_exec ed) ops (ents (store l))"
  using assms(2,3)
proof (induction ops rule: rev_induct)
  case (snoc op ops)
  have small: "length (ents (store l) c) + length ops < max_slice" for c
    using snoc.prems(1) [of c] by simp
  have "log_inv ed S ents snaps ok (run ed ops l)"
    and le: "length (ents (store (run ed ops l)) c) \<le> length (ents (store l) c) + length ops" for c
    using run_inv [OF assms(1) small] snoc.prems(2) by auto
  moreover have "length (ents (store (run ed ops l)) c) + 1 < max_slice" for c
    using le [of c] snoc.prems(1) [of c] by simp
  ultimately have "ents (store (exec ed op (run ed ops l))) = abs_exec ed op (ents (store (run ed ops l)))"
    using snoc.prems(2) [of op] by (intro exec_abs) auto
  then show ?case
    using snoc.IH [OF small] snoc.prems(2) by (metis Un_iff fold_simps(1,2) fold_append comp_apply run_simps(2) set_append)
qed simp

section \<open>Reading, over the storage contract\<close>

lemma Log_Verify_spec:
  assumes "store_ops l = S" "ok (store l)" "chat_name c"
  shows "Log_Verify ed c l = Inr (case Verify_loop ed 0 GenesisHash (ents (store l) c) of
     Some r \<Rightarrow> \<lparr>vr_Valid = False, vr_Entries = 0, vr_Reason = r\<rparr>
   | None \<Rightarrow> \<lparr>vr_Valid = True, vr_Entries = ulen (ents (store l) c), vr_Reason = []\<rparr>)"
  using assms by (simp add: Log_Verify_def entries_since max_slice_def split: option.split)

lemma History_spec:
  assumes "store_ops l = S" "ok (store l)" "chat_name c" "unat from < max_slice"
  shows "History c from limit l = Inr (if 0 < limit then take (nat limit) (drop (unat from) (ents (store l) c))
     else drop (unat from) (ents (store l) c))"
  using assms by (auto simp: History_def entries_since)

text \<open>What a single-entry check decides.\<close>

lemma VerifyEntry_spec:
  assumes "store_ops l = S" "ok (store l)" "unat i < length (ents (store l) c)" "chat_name c"
  defines "e \<equiv> ents (store l) c ! unat i"
  shows "\<exists>r. VerifyEntry ed c i l = Inr r \<and> mv_Sequence r = i
    \<and> (mv_Valid r \<longleftrightarrow> entry_ok ed e \<and> PrevHash e = tip_hash (take (unat i) (ents (store l) c)))
    \<and> (mv_Valid r \<longleftrightarrow> mv_Reason r = [])"
proof -
  let ?es = "ents (store l) c"
  have prev: "(if 0 < i then map_sum (\<lambda>err. err) EntryHash (Entry (store_ops l) c (i - 1) (store l))
      else Inr GenesisHash) = Inr (tip_hash (take (unat i) ?es))"
  proof (cases "0 < i")
    case True
    then have "unat (i - 1) = unat i - 1" "0 < unat i"
      using unat_minus_one [of i] by (simp_all add: word_gt_0 unat_gt_0)
    with True assms(1-4) show ?thesis
      by (auto simp: entry_at tip_hash_def last_conv_nth)
  next
    case False
    then show ?thesis by (simp add: tip_hash_def word_gt_0)
  qed
  show ?thesis
    using assms(1-4) prev
    by (simp add: VerifyEntry_def entry_at e_def [symmetric] entry_ok_def Let_def)
qed

lemma VerifyEntry_missing:
  assumes "store_ops l = S" "ok (store l)" "\<not> unat i < length (ents (store l) c)" "chat_name c"
  shows "VerifyEntry ed c i l = Inl ErrNotFound"
  using assms by (simp add: VerifyEntry_def entry_at)

lemma ProveInclusion_missing:
  assumes "log_inv ed S ents snaps ok l" "\<not> unat i < 100 * (length (ents (store l) c) div 100)" "chat_name c"
  shows "ProveInclusion c i l = Inl ErrNotSnapshotted"
proof -
  have "length (snaps (store l) c) = length (ents (store l) c) div 100"
    using assms(1) by (simp add: log_inv_def chat_ok_def sealed_def)
  moreover have "\<not> unat i div 100 < length (ents (store l) c) div 100"
    using assms(2) by (simp add: div_less_iff_less_mult mult.commute)
  ultimately show ?thesis
    using assms(1,3) interval_div [of i] by (simp add: ProveInclusion_def snapshot_at log_inv_def)
qed

lemma ProveInclusion_sealed:
  assumes "log_inv ed S ents snaps ok l" "unat i < 100 * (length es div 100)" "ents (store l) c = es" "chat_name c"
  defines "k \<equiv> unat i div 100"
  obtains pf where "ProveInclusion c i l =
      Inr \<lparr>ip_ChatID = c, ip_Sequence = i, ip_EntryHash = EntryHash (es ! unat i), ip_SnapshotIndex = to_uint64 k,
           ip_MerkleRoot = Root (map EntryHash (window es k)), ip_Proof = pf\<rparr>"
    "VerifyProof (EntryHash (es ! unat i)) pf (Root (map EntryHash (window es k)))" "length pf \<le> 7"
    "Proof (map EntryHash (window es k)) (int (unat i mod 100)) = (pf, Root (map EntryHash (window es k)))"
proof -
  let ?s = "store l" and ?r = "unat i mod 100"
  have l: "store_ops l = S" "ok ?s" and sealed: "sealed c es (snaps ?s c)"
    using assms(1,3) by (auto simp: log_inv_def chat_ok_def)
  have es_len: "length es < max_slice"
    using ents_bound [OF l(2), of c] assms(3) by simp
  have k: "k < length (snaps ?s c)"
    using assms(2) sealed by (simp add: k_def sealed_def div_less_iff_less_mult mult.commute)
  obtain snap where snap: "snaps ?s c ! k = snap" "seals c es k snap" and full: "100 * k + 100 \<le> length es"
    using sealed_window [OF sealed k] by blast
  have i: "unat i = 100 * k + ?r" "?r < 100"
    by (simp_all add: k_def)
  then have "i = to_uint64 (100 * k + ?r)"
    using full es_len by (simp add: word_unat_eq_iff)
  then have idx: "i - to_uint64 (100 * k) = to_uint64 ?r"
    by (metis to_uint64_diff)
  have small: "100 < max_slice" "?r < max_slice"
    using i(2) by (auto simp: max_slice_def)
  have div: "i div SnapshotInterval = to_uint64 k"
    using interval_div [of i] full es_len by (simp add: word_unat_eq_iff k_def)
  have leaves: "length (map EntryHash (window es k)) = 100" "map EntryHash (window es k) ! ?r = EntryHash (es ! unat i)"
    using full i by (simp_all add: length_window) (simp add: window_def)
  obtain pf where pf: "Proof (map EntryHash (window es k)) (int ?r) = (pf, Root (map EntryHash (window es k)))"
    "VerifyProof (EntryHash (es ! unat i)) pf (Root (map EntryHash (window es k)))" "length pf = depth 100"
    using Proof_spec [of ?r "map EntryHash (window es k)"] leaves i(2) by metis
  have "ProveInclusion c i l =
      Inr \<lparr>ip_ChatID = c, ip_Sequence = i, ip_EntryHash = EntryHash (es ! unat i), ip_SnapshotIndex = to_uint64 k,
           ip_MerkleRoot = Root (map EntryHash (window es k)), ip_Proof = pf\<rparr>"
    using l k snap full es_len small i(2) leaves pf(1) assms(3,4)
    by (simp add: ProveInclusion_def div snapshot_at entries_since seals_def window_size idx Let_def
        flip: window_def)
  moreover have "length pf \<le> 7"
    unfolding pf(3) by (rule depth_le) simp
  ultimately show thesis
    using pf(1,2) by (intro that)
qed

lemma Sync_spec:
  assumes "log_inv ed S ents snaps ok l" "ents (store l) c = es" "snaps (store l) c = ps" "chat_name c"
  shows "Sync c l = Inr \<lparr>Snapshot = (if ps = [] then None else Some (last ps)),
    NewEntries = drop (100 * length ps) es, CurrentHash = tip_hash es\<rparr>"
proof -
  have l: "store_ops l = S" "ok (store l)" and sealed: "sealed c es ps"
    using assms by (auto simp: log_inv_def chat_ok_def)
  have "100 * length ps \<le> length es"
    using sealed by (simp add: sealed_def)
  then have "100 * length ps < max_slice"
    using ents_bound [OF l(2), of c] assms(2) by simp
  then show ?thesis
    using l assms(2-4) latest_sealed [OF l(2), of c es] sealed
    by (cases "ps = []") (simp_all add: Sync_def latest_snapshot entries_since last_entry tip_hash_def)
qed

end

section \<open>The in-memory node\<close>

lemma new_node_inv: "log_inv ed InMemoryStorage_ops mem_ents mem_snaps mem_ok (new_node C c B b)"
  by (simp add: log_inv_def new_node_def WithBroker_def WithCache_def New_def chat_ok_def sealed_def)

lemma new_node_empty [simp]: "mem_ents (store (new_node C c B b)) d = []"
  by (simp add: new_node_def WithBroker_def WithCache_def New_def)

lemma node_inv:
  assumes "length ops < max_slice"
  shows "log_inv ed InMemoryStorage_ops mem_ents mem_snaps mem_ok (run ed ops (new_node C c B b))"
    "length (mem_ents (store (run ed ops (new_node C c B b))) d) \<le> length ops"
  using mem.run_inv [OF new_node_inv, of C c B b ops ed] assms by auto

lemma node_ents:
  assumes "length ops < max_slice"
  shows "mem_ents (store (run ed ops (new_node C c B b))) = fold (abs_exec ed) ops (\<lambda>d. [])"
proof -
  have "mem_ents (store (new_node C c B b)) = (\<lambda>d. [])"
    by (simp add: fun_eq_iff)
  then show ?thesis
    using mem.run_abs [OF new_node_inv, of C c B b ops ed] assms by simp
qed

lemma node_bound:
  "length ops + 1 < max_slice \<Longrightarrow> length (mem_ents (store (run ed ops (new_node C c B b))) d) + 1 < max_slice"
  using node_inv(2) [of ops ed C c B b d] by linarith

lemma reachable_inv:
  assumes "reachable ed l"
  shows "log_inv ed InMemoryStorage_ops mem_ents mem_snaps mem_ok l"
    "length (mem_ents (store l) d) + 1 < max_slice"
proof -
  obtain ops C c B b where "length ops + 1 < max_slice" "l = run ed ops (new_node C c B b)"
    using assms by (auto simp: reachable_def)
  then show "log_inv ed InMemoryStorage_ops mem_ents mem_snaps mem_ok l"
    "length (mem_ents (store l) d) + 1 < max_slice"
    using node_inv(1) [of ops ed C c B b] node_bound [of ops ed C c B b d] by simp_all
qed

lemma reachable_store:
  assumes "reachable ed l"
  shows "store_ops l = InMemoryStorage_ops" "mem_ok (store l)"
    "chat_ok ed d (mem_ents (store l) d) (mem_snaps (store l) d)"
  using reachable_inv(1) [OF assms] by (simp_all add: log_inv_def)

text \<open>A concrete run: a node that receives the same signed message \<open>n\<close> times.\<close>

definition demo_run :: "nat \<Rightarrow> log_op list" where
  "demo_run n = replicate n (Op_Append 0 signed_example)"

definition demo_node :: "nat \<Rightarrow> (InMemoryStorage, InMemoryCache, InMemoryBroker) Log" where
  "demo_node n = run toy_scheme (demo_run n)
     (new_node InMemoryCache_ops NewInMemoryCache InMemoryBroker_ops NewInMemoryBroker)"

lemma length_demo_run [simp]: "length (demo_run n) = n"
  by (simp add: demo_run_def)

lemma demo_acceptable: "acceptable toy_scheme signed_example"
  using signed_example_verifies
  by (simp add: acceptable_def signed_example_def example_message_def supportedVersion_def CurrentSchemaVersion_def)

lemma demo_chat: "ChatID signed_example = ''c1''"
  by (simp add: signed_example_def example_message_def)

lemma demo_node_Suc: "demo_node (Suc n) = snd (Append toy_scheme 0 signed_example (demo_node n))"
proof -
  have "demo_run (Suc n) = demo_run n @ [Op_Append 0 signed_example]"
    by (simp add: demo_run_def replicate_append_same)
  then show ?thesis
    by (simp add: demo_node_def)
qed

lemma demo_reachable: "n + 1 < max_slice \<Longrightarrow> reachable toy_scheme (demo_node n)"
  unfolding reachable_def demo_node_def by (metis length_demo_run)

lemma demo_inv:
  "n < max_slice \<Longrightarrow> log_inv toy_scheme InMemoryStorage_ops mem_ents mem_snaps mem_ok (demo_node n)"
  unfolding demo_node_def by (rule node_inv) simp

lemma demo_ents_Suc:
  assumes "Suc n < max_slice" "length (mem_ents (store (demo_node n)) ''c1'') = n"
  shows "mem_ents (store (demo_node (Suc n))) ''c1'' =
    mem_ents (store (demo_node n)) ''c1'' @ [next_entry (mem_ents (store (demo_node n)) ''c1'') signed_example]"
proof -
  have "mem_ents (store (demo_node (Suc n))) =
      snd (abs_append toy_scheme signed_example (mem_ents (store (demo_node n))))"
    using mem.Append_inv [OF demo_inv, of n signed_example 0] demo_chat assms
    by (simp add: demo_node_Suc) (metis snd_conv)
  then show ?thesis
    using demo_acceptable by (simp add: abs_append_def acceptable_def demo_chat Let_def)
qed

lemma demo_entries: "n < max_slice \<Longrightarrow> length (mem_ents (store (demo_node n)) ''c1'') = n"
proof (induction n)
  case 0
  then show ?case by (simp add: demo_node_def demo_run_def)
next
  case (Suc n)
  then show ?case
    using demo_ents_Suc [of n] by simp
qed

lemma demo_messages:
  "n < max_slice \<Longrightarrow> e \<in> set (mem_ents (store (demo_node n)) ''c1'') \<Longrightarrow> Message e = signed_example"
proof (induction n)
  case 0
  then show ?case by (simp add: demo_node_def demo_run_def)
next
  case (Suc n)
  then show ?case
    using demo_ents_Suc [of n] demo_entries [of n] by auto
qed

lemma demo_utf8: "n < max_slice \<Longrightarrow> all_utf8 (mem_ents (store (demo_node n)) ''c1'')"
  using demo_messages signed_example_utf8 by (simp add: all_utf8_def)

section \<open>Properties\<close>

text \<open>
  C1. Every reachable log is well formed: after any sequence of appends (of any messages, valid or
  not), subscriptions and cancellations on a fresh node, each chat's entries form a chain from the
  genesis hash with sequence numbers 0, 1, 2, ..., every entry is intact, authentic, of a supported
  version and belongs to the chat, and there is exactly one snapshot per full window of 100 entries,
  with the Merkle root of that window.
\<close>

theorem node_wellformed:
  assumes "reachable ed l"
  shows "chained ed (mem_ents (store l) d) \<and> (\<forall>e\<in>set (mem_ents (store l) d). ChatID (Message e) = d)
    \<and> sealed d (mem_ents (store l) d) (mem_snaps (store l) d)"
  using reachable_store(3) [OF assms] by (simp add: chat_ok_def)

theorem node_wellformed_witness:
  "let s = store (demo_node 250)
   in chained toy_scheme (mem_ents s ''c1'') \<and> sealed ''c1'' (mem_ents s ''c1'') (mem_snaps s ''c1'')"
  using node_wellformed [OF demo_reachable, of 250 "''c1''"] by (simp add: Let_def max_slice_def)

text \<open>
  C2. \<open>Append\<close> implements the abstract log: in every reachable state it returns what the abstract
  append returns (the version error, the signature error, or the new entry) and changes the stored
  entries in the same way; no other error can occur.
\<close>

theorem Append_refines:
  assumes "reachable ed l" "Append ed now m l = (r, l')"
  shows "(r, mem_ents (store l')) = abs_append ed m (mem_ents (store l))"
  using mem.Append_inv [OF reachable_inv [OF assms(1)], of m now] assms(2) by simp

theorem Append_refines_witness:
  "let l = demo_node 3; (r, l') = Append toy_scheme 5 signed_example l
   in (r, mem_ents (store l')) = abs_append toy_scheme signed_example (mem_ents (store l))"
  using Append_refines [OF demo_reachable, of 3 5 signed_example]
  by (simp add: Let_def max_slice_def split: prod.splits)


text \<open>A store whose single entry claims sequence number 5.\<close>

definition tampered_log :: "(InMemoryStorage, unit, nat) Log" where
  "tampered_log = New InMemoryStorage_ops
     (NewInMemoryStorage\<lparr>entries := [''c1'' \<mapsto> [(next_entry [] signed_example)\<lparr>Sequence := 5\<rparr>]]\<rparr>)"

lemma tampered_store:
  "store_ops tampered_log = InMemoryStorage_ops"
  "mem_ents (store tampered_log) ''c1'' = [(next_entry [] signed_example)\<lparr>Sequence := 5\<rparr>]"
  by (simp_all add: tampered_log_def New_def mem_ents_def slice_at_def)

lemma tampered_ok: "mem_ok (store tampered_log)"
  by (simp add: tampered_log_def New_def mem_ok_def mem_ents_def mem_snaps_def slice_at_def max_slice_def
      NewInMemoryStorage_def)


text \<open>
  Checking every message on its own is as strong as checking the whole chain, except for the
  sequence numbers, which only \<open>Verify\<close> compares with the position: \<open>Verify\<close> reports a valid log
  exactly when \<open>VerifyEntry\<close> accepts every position and each entry carries the number of its position.
\<close>

theorem Verify_by_entries:
  assumes "store_ops l = InMemoryStorage_ops" "mem_ok (store l)" "mem_ents (store l) c = es"
  shows "(\<exists>r. Log_Verify ed c l = Inr r \<and> vr_Valid r) \<longleftrightarrow>
    (\<forall>i<length es. Sequence (es ! i) = to_uint64 i
       \<and> (\<exists>v. VerifyEntry ed c (to_uint64 i) l = Inr v \<and> mv_Valid v))"
proof -
  have "length es < max_slice"
    using mem.ents_bound [OF assms(2), of c] assms(3) by simp
  then have "(\<exists>v. VerifyEntry ed c (to_uint64 i) l = Inr v \<and> mv_Valid v) \<longleftrightarrow>
      entry_ok ed (es ! i) \<and> PrevHash (es ! i) = tip_hash (take i es)" if "i < length es" for i
    using that mem.VerifyEntry_spec [OF assms(1,2), of "to_uint64 i" c ed] assms(3) by fastforce
  then have "(\<forall>i<length es. Sequence (es ! i) = to_uint64 i
       \<and> (\<exists>v. VerifyEntry ed c (to_uint64 i) l = Inr v \<and> mv_Valid v)) \<longleftrightarrow> chained ed es"
    by (auto simp: chained_def)
  then show ?thesis
    using mem.Log_Verify_spec [OF assms(1,2), of ed c] Verify_loop_iff [of ed es] assms(3)
    by (simp split: option.splits)
qed

theorem Verify_by_entries_witness:
  "\<not> (\<exists>r. Log_Verify toy_scheme ''c1'' tampered_log = Inr r \<and> vr_Valid r)"
  using Verify_by_entries [OF tampered_store(1) tampered_ok tampered_store(2), of toy_scheme] by simp

text \<open>
  C6. Inclusion proofs: in every reachable log, a message in a sealed window gets a proof of at most
  7 nodes that \<open>VerifyProof\<close> accepts for the stored entry's hash against the root of the snapshot with
  the returned index; a message in the open window, or beyond the end, gets \<open>ErrNotSnapshotted\<close>.
\<close>

theorem ProveInclusion_correct:
  assumes "reachable ed l" "mem_ents (store l) c = es"
  shows "if unat i < 100 * (length es div 100)
    then \<exists>p. ProveInclusion c i l = Inr p \<and> ip_ChatID p = c \<and> ip_Sequence p = i
      \<and> ip_EntryHash p = EntryHash (es ! unat i) \<and> length (ip_Proof p) \<le> 7
      \<and> ip_MerkleRoot p = MerkleRoot (mem_snaps (store l) c ! unat (ip_SnapshotIndex p))
      \<and> VerifyProof (ip_EntryHash p) (ip_Proof p) (ip_MerkleRoot p)
    else ProveInclusion c i l = Inl ErrNotSnapshotted"
proof (cases "unat i < 100 * (length es div 100)")
  case True
  let ?k = "unat i div 100"
  have sealed: "sealed c es (mem_snaps (store l) c)"
    using reachable_store(3) [OF assms(1), of c] assms(2) by (simp add: chat_ok_def)
  then have k: "?k < length (mem_snaps (store l) c)"
    using True by (simp add: sealed_def div_less_iff_less_mult mult.commute)
  then have "?k < max_slice"
    using mem.snaps_bound [OF reachable_store(2) [OF assms(1)], of c] by simp
  moreover have "MerkleRoot (mem_snaps (store l) c ! ?k) = Root (map EntryHash (window es ?k))"
    using sealed_window [OF sealed k] by (simp add: seals_def)
  ultimately show ?thesis
    using mem.ProveInclusion_sealed [OF reachable_inv(1) [OF assms(1)] True assms(2)] True by fastforce
next
  case False
  then show ?thesis
    using mem.ProveInclusion_missing [OF reachable_inv(1) [OF assms(1)]] assms(2) by simp
qed

theorem ProveInclusion_correct_witness:
  "\<exists>p. ProveInclusion ''c1'' 42 (demo_node 150) = Inr p
     \<and> VerifyProof (ip_EntryHash p) (ip_Proof p) (ip_MerkleRoot p)"
proof -
  have n: "150 + 1 < max_slice"
    by (simp add: max_slice_def)
  show ?thesis
    using ProveInclusion_correct [OF demo_reachable [OF n] refl, of 42 "''c1''"] demo_entries [of 150] n
    by auto
qed

text \<open>
  C17. Synchronisation: in every reachable log the bundle holds the snapshot of the last full window,
  fewer than 100 further entries and the tip hash, and replaying these entries from the snapshot's
  last hash (from the genesis hash where there is no snapshot) succeeds and ends in the tip hash.
\<close>

theorem Sync_replays:
  assumes "reachable ed l" "mem_ents (store l) c = es"
  shows "\<exists>bd. Sync c l = Inr bd \<and> length (NewEntries bd) < 100 \<and> CurrentHash bd = tip_hash es
    \<and> (let n = length es div 100;
           start = (case Snapshot bd of None \<Rightarrow> GenesisHash | Some p \<Rightarrow> LastEntryHash p)
       in take (100 * n) es @ NewEntries bd = es \<and> start = tip_hash (take (100 * n) es)
          \<and> Verify_loop ed (100 * n) start (NewEntries bd) = None
          \<and> (case Snapshot bd of None \<Rightarrow> n = 0 | Some p \<Rightarrow> n > 0 \<and> seals c es (n - 1) p))"
proof -
  let ?ps = "mem_snaps (store l) c" and ?n = "length es div 100"
  have chat: "chained ed es" "sealed c es ?ps" "length ?ps = ?n"
    using reachable_store(3) [OF assms(1), of c] assms(2) by (simp_all add: chat_ok_def sealed_def)
  have len: "length (take (100 * ?n) es) = 100 * ?n" "length (drop (100 * ?n) es) < 100"
    by (simp_all add: mult_div_mod_eq minus_mult_div_eq_mod)
  have last: "seals c es (?n - 1) (last ?ps) \<and> LastEntryHash (last ?ps) = tip_hash (take (100 * ?n) es)"
    if "?n > 0"
  proof -
    have ps: "?ps \<noteq> []" "?n - 1 < length ?ps"
      using that chat(3) by auto
    then have "last ?ps = ?ps ! (?n - 1)"
      using chat(3) by (simp add: last_conv_nth)
    then have seals: "seals c es (?n - 1) (last ?ps)"
      using sealed_window [OF chat(2) ps(2)] by simp
    have "100 * (?n - 1) + 99 = 100 * ?n - 1"
      using that by (simp add: diff_mult_distrib2)
    then have "es ! (100 * (?n - 1) + 99) = last (take (100 * ?n) es)"
      using that len(1) by (subst last_conv_nth) (auto simp: take_eq_Nil)
    with seals that show ?thesis
      by (auto simp: seals_def tip_hash_def take_eq_Nil)
  qed
  have replay: "Verify_loop ed (100 * ?n) (tip_hash (take (100 * ?n) es)) (drop (100 * ?n) es) = None"
    using Verify_loop_suffix [of ed "take (100 * ?n) es" "drop (100 * ?n) es"] chat(1) len(1) by simp
  have "?ps = [] \<longleftrightarrow> ?n = 0"
    using chat(3) by (metis length_0_conv)
  then show ?thesis
    using mem.Sync_spec [OF reachable_inv(1) [OF assms(1)] assms(2) refl] chat(3) len(2) last replay
    by (cases "?n = 0") (simp_all add: Let_def)
qed

theorem Sync_replays_witness:
  "\<exists>bd. Sync ''c1'' (demo_node 250) = Inr bd \<and> length (NewEntries bd) < 100"
  using Sync_replays [OF demo_reachable refl, of 250 "''c1''"] by (auto simp: max_slice_def)

text \<open>
  Paging: reading a chat in pages of \<open>k\<close> entries, each page starting where the previous one
  ended, returns the entries in order without gaps or repetitions; a limit of 0 or less returns all.
\<close>

theorem History_pages:
  assumes "store_ops l = InMemoryStorage_ops" "mem_ok (store l)" "0 < k" "n * k < max_slice"
    and "mem_ents (store l) c = es"
  shows "(\<exists>page. (\<forall>j<n. History c (to_uint64 (j * k)) (int k) l = Inr (page j))
      \<and> concat (map page [0..<n]) = take (n * k) es)
    \<and> (\<forall>limit\<le>0. History c 0 limit l = Inr es)"
proof -
  let ?page = "\<lambda>j. take k (drop (j * k) es)"
  have "concat (map ?page [0..<n]) = take (n * k) es"
    by (induction n) (simp_all add: take_add add.commute [of k])
  moreover have "j * k < max_slice" if "j < n" for j
    using that assms(3,4) by (meson mult_less_mono1 order.strict_trans)
  then have "History c (to_uint64 (j * k)) (int k) l = Inr (?page j)" if "j < n" for j
    using that assms(3) mem.History_spec [OF assms(1,2), of _ c] by (simp add: assms(5))
  ultimately show ?thesis
    using mem.History_spec [OF assms(1,2), of 0 c]
    by (auto simp: assms(5) max_slice_def intro!: exI [of _ ?page])
qed

theorem History_pages_witness:
  "\<exists>p q. History ''c1'' (to_uint64 0) 10 (demo_node 15) = Inr p \<and> History ''c1'' (to_uint64 10) 10 (demo_node 15) = Inr q
    \<and> p @ q = mem_ents (store (demo_node 15)) ''c1''"
proof -
  have r: "reachable toy_scheme (demo_node 15)"
    by (rule demo_reachable) (simp add: max_slice_def)
  have n: "2 * 10 < max_slice" "15 < max_slice"
    by (simp_all add: max_slice_def)
  obtain page where "\<forall>j<2. History ''c1'' (to_uint64 (j * 10)) (int 10) (demo_node 15) = Inr (page j)"
    "concat (map page [0..<2]) = take (2 * 10) (mem_ents (store (demo_node 15)) ''c1'')"
    using History_pages [OF reachable_store(1,2) [OF r] _ n(1) refl, of "''c1''"] by auto
  moreover from this(1) have "History ''c1'' (to_uint64 0) 10 (demo_node 15) = Inr (page 0)"
    "History ''c1'' (to_uint64 10) 10 (demo_node 15) = Inr (page 1)"
    by (fastforce dest: spec [of _ 0], fastforce dest: spec [of _ 1])
  moreover have "[0..<2] = [0, Suc 0]"
    by (simp add: upt_rec)
  ultimately show ?thesis
    using demo_entries [OF n(2)] by auto
qed

lemma readers_cong:
  assumes "store_ops l = InMemoryStorage_ops" "store_ops l' = InMemoryStorage_ops"
    and "mem_ents (store l') d = mem_ents (store l) d" "mem_snaps (store l') d = mem_snaps (store l) d"
  shows "Log_Verify ed d l' = Log_Verify ed d l" "History d i k l' = History d i k l"
    "ProveInclusion d i l' = ProveInclusion d i l" "Sync d l' = Sync d l" "VerifyEntry ed d i l' = VerifyEntry ed d i l"
  unfolding Log_Verify_def History_def ProveInclusion_def Sync_def VerifyEntry_def assms(1,2) mem_ops
    mem_reads_cong [OF assms(3,4)] by (rule refl)+

lemma Append_frame:
  assumes "reachable ed l" "d \<noteq> ChatID m"
  shows "store_ops (snd (Append ed now m l)) = InMemoryStorage_ops"
    "mem_ents (store (snd (Append ed now m l))) d = mem_ents (store l) d"
    "mem_snaps (store (snd (Append ed now m l))) d = mem_snaps (store l) d"
proof -
  have "store_ops l' = InMemoryStorage_ops \<and> mem_ents (store l') d = mem_ents (store l) d
      \<and> mem_snaps (store l') d = mem_snaps (store l) d" if "Append ed now m l = (r, l')" for r l'
  proof (cases "acceptable ed m")
    case True
    then show ?thesis
      using mem.Append_spec [OF reachable_inv(1) [OF assms(1)] True reachable_inv(2) [OF assms(1)]
          TrueI refl refl refl, of now] that assms(2)
      by (metis fun_upd_other log_inv_def prod.inject)
  next
    case False
    then show ?thesis
      using that reachable_store(1) [OF assms(1)] by (simp add: Append_rejects)
  qed
  then show "store_ops (snd (Append ed now m l)) = InMemoryStorage_ops"
    "mem_ents (store (snd (Append ed now m l))) d = mem_ents (store l) d"
    "mem_snaps (store (snd (Append ed now m l))) d = mem_snaps (store l) d"
    by (metis prod.collapse)+
qed

text \<open>
  Chats are isolated: an append to one chat, accepted or not, changes no answer about another
  chat, neither its history, its verification, its proofs nor its catch-up bundle.
\<close>

theorem Append_isolated:
  assumes "reachable ed l" "d \<noteq> ChatID m" "Append ed now m l = (r, l')"
  shows "Log_Verify ed d l' = Log_Verify ed d l \<and> History d i k l' = History d i k l
    \<and> ProveInclusion d i l' = ProveInclusion d i l \<and> Sync d l' = Sync d l \<and> VerifyEntry ed d i l' = VerifyEntry ed d i l"
  using readers_cong [OF reachable_store(1) [OF assms(1)] Append_frame [OF assms(1,2), of now]] assms(3) by simp

theorem Append_isolated_witness:
  "let (r, l') = Append toy_scheme 0 signed_example (demo_node 7)
   in Log_Verify toy_scheme ''c2'' l' = Log_Verify toy_scheme ''c2'' (demo_node 7)
    \<and> History ''c2'' 1 2 l' = History ''c2'' 1 2 (demo_node 7)
    \<and> ProveInclusion ''c2'' 1 l' = ProveInclusion ''c2'' 1 (demo_node 7)
    \<and> Sync ''c2'' l' = Sync ''c2'' (demo_node 7)
    \<and> VerifyEntry toy_scheme ''c2'' 1 l' = VerifyEntry toy_scheme ''c2'' 1 (demo_node 7)"
  using Append_isolated [OF demo_reachable, of 7 "''c2''" signed_example 0] demo_chat
  by (simp add: max_slice_def split: prod.splits)

text \<open>
  C18. The log is append-only: whatever calls follow, the entries and the snapshots that a reachable
  log holds stay where they are, as prefixes of what it holds later.
\<close>

theorem log_append_only:
  assumes "reachable ed l" "\<forall>d. length (mem_ents (store l) d) + length ops < max_slice"
  shows "prefix (mem_ents (store l) c) (mem_ents (store (run ed ops l)) c)
    \<and> prefix (mem_snaps (store l) c) (mem_snaps (store (run ed ops l)) c)"
  using mem.run_inv [OF reachable_inv(1) [OF assms(1)], of ops] assms(2) by simp

theorem log_append_only_witness:
  "prefix (mem_ents (store (demo_node 0)) ''c1'') (mem_ents (store (run toy_scheme (demo_run 120) (demo_node 0))) ''c1'')
    \<and> prefix (mem_snaps (store (demo_node 0)) ''c1'') (mem_snaps (store (run toy_scheme (demo_run 120) (demo_node 0))) ''c1'')"
  by (rule log_append_only)
    (simp_all add: demo_reachable max_slice_def, simp add: demo_node_def demo_run_def)

end
