(* ===== verification/Node.thy ===== *)
theory Node
  imports Chatlog_Props
begin

text \<open>
  The node as \<open>cmd/messenger/main.go\<close> assembles it when no external service is configured: the log over
  the in-memory store, cache and broker. The lemmas follow the broker and the cache through the calls
  of the log, over the contracts of those ports.
\<close>

section \<open>What one append does to the other ports\<close>

lemma Append_effects:
  assumes "reachable ed l" "acceptable ed m" "mem_ents (store l) (ChatID m) = es"
  obtains e l' where "Append ed now m l = (Inr e, l')" "e = next_entry es m"
    "mem_ents (store l') = (mem_ents (store l))(ChatID m := es @ [e])"
    "log_inv ed InMemoryStorage_ops mem_ents mem_snaps mem_ok l'"
    "\<forall>d. d \<noteq> ChatID m \<longrightarrow> mem_snaps (store l') d = mem_snaps (store l) d"
    "broker_ops l' = broker_ops l" "broker l' = publish_list (broker_ops l) (append_events e) (broker l)"
    "cache_ops l' = cache_ops l"
    "cache l' = (if (length es + 1) mod 100 = 0
       then SetMerkleRoot (cache_ops l) (ChatID m) (MerkleRoot (last (mem_snaps (store l') (ChatID m)))) (cache l)
       else cache l)"
proof -
  have "length es + 1 < max_slice"
    using reachable_inv(2) [OF assms(1), of "ChatID m"] assms(3) by simp
  from mem.Append_spec [OF reachable_inv(1) [OF assms(1)] assms(2) this TrueI assms(3) refl refl, of now]
  show thesis
    using that by blast
qed

text \<open>The number of snapshots follows the number of entries.\<close>

lemma reachable_snaps:
  assumes "reachable ed l"
  shows "length (mem_snaps (store l) d) = length (mem_ents (store l) d) div 100"
  using reachable_store(3) [OF assms, of d] by (simp add: chat_ok_def sealed_def)

lemma reachable_run:
  assumes "length (ops @ [op]) + 1 < max_slice"
  shows "reachable ed (run ed ops (new_node C c B b))" "reachable ed (run ed (ops @ [op]) (new_node C c B b))"
  using assms unfolding reachable_def by (metis Suc_eq_plus1 Suc_lessD length_append_singleton)+

lemma exec_append_cases:
  assumes "reachable ed l"
  obtains "exec ed (Op_Append now m) l = l"
  | e l' where "acceptable ed m" "exec ed (Op_Append now m) l = l'" "e = next_entry (mem_ents (store l) (ChatID m)) m"
    "mem_ents (store l') = (mem_ents (store l))(ChatID m := mem_ents (store l) (ChatID m) @ [e])"
    "\<forall>d. d \<noteq> ChatID m \<longrightarrow> mem_snaps (store l') d = mem_snaps (store l) d"
    "broker_ops l' = broker_ops l" "broker l' = publish_list (broker_ops l) (append_events e) (broker l)"
    "cache_ops l' = cache_ops l"
    "cache l' = (if (length (mem_ents (store l) (ChatID m)) + 1) mod 100 = 0
       then SetMerkleRoot (cache_ops l) (ChatID m) (MerkleRoot (last (mem_snaps (store l') (ChatID m)))) (cache l)
       else cache l)"
    "mem_snaps (store l') (ChatID m) = mem_snaps (store l) (ChatID m)
       \<or> (length (mem_ents (store l) (ChatID m)) + 1) mod 100 = 0"
proof (cases "acceptable ed m")
  case False
  then show thesis
    using that(1) by (simp add: Append_rejects)
next
  case True
  obtain e l' where app: "Append ed now m l = (Inr e, l')" "e = next_entry (mem_ents (store l) (ChatID m)) m"
    "mem_ents (store l') = (mem_ents (store l))(ChatID m := mem_ents (store l) (ChatID m) @ [e])"
    "log_inv ed InMemoryStorage_ops mem_ents mem_snaps mem_ok l'"
    "\<forall>d. d \<noteq> ChatID m \<longrightarrow> mem_snaps (store l') d = mem_snaps (store l) d"
    "broker_ops l' = broker_ops l" "broker l' = publish_list (broker_ops l) (append_events e) (broker l)"
    "cache_ops l' = cache_ops l"
    "cache l' = (if (length (mem_ents (store l) (ChatID m)) + 1) mod 100 = 0
       then SetMerkleRoot (cache_ops l) (ChatID m) (MerkleRoot (last (mem_snaps (store l') (ChatID m)))) (cache l)
       else cache l)"
    by (rule Append_effects [OF assms True refl])
  have pre: "prefix (mem_snaps (store l) (ChatID m)) (mem_snaps (store l') (ChatID m))"
    using mem.Append_inv [OF reachable_inv [OF assms], of m now] app(1) by simp
  have "length (mem_snaps (store l') (ChatID m)) = length (mem_ents (store l') (ChatID m)) div 100"
    using app(4) by (simp add: log_inv_def chat_ok_def sealed_def)
  then have "length (mem_snaps (store l') (ChatID m)) = length (mem_snaps (store l) (ChatID m))
      \<or> (length (mem_ents (store l) (ChatID m)) + 1) mod 100 = 0"
    using reachable_snaps [OF assms, of "ChatID m"] app(3)
      div_Suc [of "length (mem_ents (store l) (ChatID m))" 100] by (simp split: if_splits)
  with pre have "mem_snaps (store l') (ChatID m) = mem_snaps (store l) (ChatID m)
      \<or> (length (mem_ents (store l) (ChatID m)) + 1) mod 100 = 0"
    by (auto simp: prefix_def)
  with app True show thesis
    by (intro that(2) [of l' e]) simp_all
qed

section \<open>The cache follows the snapshots\<close>

context cache_port
begin

text \<open>Whatever a cache may have lost, what it answers is current.\<close>

lemma cache_hits:
  assumes "\<And>d. GetMerkleRoot C d c0 = None" "length ops + 1 < max_slice"
    and "l = run ed ops (new_node C c0 B b)"
  shows "cache_ops l = C \<and> (GetMerkleRoot C d (cache l) = Some x \<longrightarrow>
      mem_snaps (store l) d \<noteq> [] \<and> x = MerkleRoot (last (mem_snaps (store l) d)))"
  unfolding assms(3) using assms(2)
proof (induction ops arbitrary: d x rule: rev_induct)
  case Nil
  then show ?case
    using assms(1) by (simp add: new_node_def WithBroker_def WithCache_def New_def)
next
  case (snoc op ops)
  let ?l = "run ed ops (new_node C c0 B b)"
  note r = reachable_run [OF snoc.prems, of ed C c0 B b]
  have IH: "cache_ops ?l = C" "GetMerkleRoot C d (cache ?l) = Some x \<Longrightarrow>
      mem_snaps (store ?l) d \<noteq> [] \<and> x = MerkleRoot (last (mem_snaps (store ?l) d))" for d x
    using snoc by auto
  show ?case
  proof (cases op)
    case (Op_Append now m)
    from r(1) show ?thesis
    proof (cases rule: exec_append_cases [where now = now and m = m])
      case 1
      with IH show ?thesis by (simp add: Op_Append)
    next
      case (2 e l')
      have "mem_snaps (store l') d \<noteq> [] \<and> x = MerkleRoot (last (mem_snaps (store l') d))"
        if hit: "GetMerkleRoot C d (cache l') = Some x"
      proof (cases "(length (mem_ents (store ?l) (ChatID m)) + 1) mod 100 = 0")
        case True
        then have "mem_snaps (store l') (ChatID m) \<noteq> []"
          using reachable_snaps [OF r(2), of "ChatID m"] 2(2,4) by (simp add: Op_Append) fastforce
        then show ?thesis
          using root_hit [of d "ChatID m" "MerkleRoot (last (mem_snaps (store l') (ChatID m)))" "cache ?l" x]
            hit True 2(5,9) IH by (cases "d = ChatID m") simp_all
      next
        case False
        then show ?thesis
          using hit 2(5,9,10) IH by (cases "d = ChatID m") simp_all
      qed
      then show ?thesis
        using 2(2,8) IH(1) by (simp add: Op_Append)
    qed
  qed (use IH in \<open>auto simp: Log_Subscribe_def split: prod.splits\<close>)
qed

end

context exact_cache_port
begin

lemma cache_follows:
  assumes "\<And>d. GetMerkleRoot C d c0 = None" "length ops + 1 < max_slice"
  shows "cache_ops (run ed ops (new_node C c0 B b)) = C
    \<and> GetMerkleRoot C d (cache (run ed ops (new_node C c0 B b))) =
      (if mem_snaps (store (run ed ops (new_node C c0 B b))) d = [] then None
       else Some (MerkleRoot (last (mem_snaps (store (run ed ops (new_node C c0 B b))) d))))"
  using assms(2)
proof (induction ops arbitrary: d rule: rev_induct)
  case Nil
  then show ?case
    using assms(1) by (simp add: new_node_def WithBroker_def WithCache_def New_def)
next
  case (snoc op ops)
  let ?l = "run ed ops (new_node C c0 B b)"
  note r = reachable_run [OF snoc.prems, of ed C c0 B b]
  have IH: "cache_ops ?l = C" "GetMerkleRoot C d (cache ?l) =
      (if mem_snaps (store ?l) d = [] then None else Some (MerkleRoot (last (mem_snaps (store ?l) d))))" for d
    using snoc by simp_all
  show ?case
  proof (cases op)
    case (Op_Append now m)
    from r(1) show ?thesis
    proof (cases rule: exec_append_cases [where now = now and m = m])
      case 1
      with IH show ?thesis by (simp add: Op_Append)
    next
      case (2 e l')
      have "mem_snaps (store l') (ChatID m) \<noteq> []" if "(length (mem_ents (store ?l) (ChatID m)) + 1) mod 100 = 0"
        using reachable_snaps [OF r(2), of "ChatID m"] 2(2,4) that by (simp add: Op_Append) fastforce
      with 2 IH show ?thesis
        by (auto simp: Op_Append get_set_root)
    qed
  qed (use IH in \<open>simp_all add: Log_Subscribe_def split: prod.splits\<close>)
qed

end

section \<open>The broker receives the events of the log\<close>

lemma publish_list_ok: "mem_broker_ok b \<Longrightarrow> mem_broker_ok (publish_list InMemoryBroker_ops es b)"
proof (induction es rule: rev_induct)
  case (snoc e es)
  then show ?case
    using mem_broker.publish [of "publish_list InMemoryBroker_ops es b" e] by auto
qed simp

lemma mem_Cancel_ok: "mem_broker_ok b \<Longrightarrow> mem_broker_ok (mem_Cancel h b)"
  by (metis cancel_run_ok mem_Cancel_def option.simps(5))

lemma broker_follows:
  assumes "length ops + 1 < max_slice"
  shows "broker_ops (run ed ops (new_node C c InMemoryBroker_ops NewInMemoryBroker)) = InMemoryBroker_ops
    \<and> mem_broker_ok (broker (run ed ops (new_node C c InMemoryBroker_ops NewInMemoryBroker)))"
  using assms
proof (induction ops rule: rev_induct)
  case Nil
  then show ?case
    using broker_reachable_ok [OF broker_reachable.new] by (simp add: new_node_def WithBroker_def)
next
  case (snoc op ops)
  let ?l = "run ed ops (new_node C c InMemoryBroker_ops NewInMemoryBroker)"
  note r = reachable_run [OF snoc.prems, of ed C c InMemoryBroker_ops NewInMemoryBroker]
  have IH: "broker_ops ?l = InMemoryBroker_ops" "mem_broker_ok (broker ?l)"
    using snoc by simp_all
  show ?case
  proof (cases op)
    case (Op_Append now m)
    from r(1) show ?thesis
      by (cases rule: exec_append_cases [where now = now and m = m])
        (use IH in \<open>simp_all add: Op_Append publish_list_ok\<close>)
  next
    case Op_Subscribe
    with IH mem_broker_ok_subscribe [OF IH(2)] show ?thesis
      by (auto simp: Log_Subscribe_def split: prod.splits)
  next
    case (Op_Cancel h)
    with IH show ?thesis by (simp add: mem_Cancel_ok)
  qed
qed

text \<open>The node that \<open>main\<close> builds without any external service, after some calls.\<close>

definition mem_node :: "ed25519 \<Rightarrow> log_op list \<Rightarrow> (InMemoryStorage, InMemoryCache, InMemoryBroker) Log" where
  "mem_node ed ops = run ed ops (new_node InMemoryCache_ops NewInMemoryCache InMemoryBroker_ops NewInMemoryBroker)"

lemma mem_node_reachable: "length ops + 1 < max_slice \<Longrightarrow> reachable ed (mem_node ed ops)"
  unfolding reachable_def mem_node_def by metis

lemma mem_node_demo: "mem_node toy_scheme (demo_run n) = demo_node n"
  by (simp add: mem_node_def demo_node_def)

section \<open>Properties\<close>

lemma Sync_current_hash:
  assumes "store_ops l = InMemoryStorage_ops" "mem_ok (store l)" "Sync c l = Inr bd"
  shows "CurrentHash bd = tip_hash (mem_ents (store l) c)"
  using assms by (auto simp: Sync_def mem_last mem_latest mem_since tip_hash_def Let_def split: if_splits)

lemma Verify_chained:
  assumes "store_ops l = InMemoryStorage_ops" "mem_ok (store l)" "Log_Verify ed c l = Inr r" "vr_Valid r"
  shows "chained ed (mem_ents (store l) c)"
  using assms mem.Log_Verify_spec [OF assms(1,2), of ed c] Verify_loop_iff [of ed "mem_ents (store l) c"]
  by (auto split: option.splits)



text \<open>
  C25. Subscribers of a node see every accepted message: an append publishes an \<open>entry_appended\<close> event
  with the entry's chat, number and hash, followed by a \<open>snapshot_created\<close> event when the entry fills a
  window, to every live subscription, in this order, and only a full buffer loses them; a rejected
  message publishes nothing.
\<close>

theorem append_notifies:
  assumes "length ops + 1 < max_slice" "Append ed now m (mem_node ed ops) = (r, l')"
    and "h \<in> mem_live (broker (mem_node ed ops))"
  shows "mem_pending (broker l') h =
    take 64 (mem_pending (broker (mem_node ed ops)) h @ (case r of Inr e \<Rightarrow> append_events e | Inl _ \<Rightarrow> []))"
proof -
  let ?l = "mem_node ed ops"
  have b: "broker_ops ?l = InMemoryBroker_ops" "mem_broker_ok (broker ?l)"
    using broker_follows [OF assms(1), of ed InMemoryCache_ops NewInMemoryCache] by (simp_all add: mem_node_def)
  show ?thesis
  proof (cases "acceptable ed m")
    case True
    obtain e where "r = Inr e" "broker l' = publish_list (broker_ops ?l) (append_events e) (broker ?l)"
      using Append_effects [OF mem_node_reachable [OF assms(1), of ed] True refl, of now] assms(2)
      by (metis prod.inject)
    then show ?thesis
      using mem_broker.publish_all [OF b(2) assms(3)] b(1) by simp
  next
    case False
    then have "l' = ?l" "\<exists>err. r = Inl err"
      using assms(2) by (auto simp: Append_rejects)
    then show ?thesis
      using mem_broker.pending_cap [OF b(2) assms(3)] by auto
  qed
qed

theorem append_notifies_witness:
  "let l = mem_node toy_scheme [Op_Subscribe]; (r, l') = Append toy_scheme 0 signed_example l
   in mem_pending (broker l') (0, 0) = take 64 (mem_pending (broker l) (0, 0) @ (case r of Inr e \<Rightarrow> append_events e | Inl _ \<Rightarrow> []))"
proof -
  have "(0, 0) \<in> mem_live (broker (mem_node toy_scheme [Op_Subscribe]))"
    by (simp add: mem_node_def run_def Log_Subscribe_def new_node_def WithBroker_def mem_Subscribe_def NewInMemoryBroker_def
        mem_live_def mem_issued_iff Let_def)
  then show ?thesis
    using append_notifies [of "[Op_Subscribe]" toy_scheme 0 signed_example _ _ "(0, 0)"]
    by (simp add: Let_def max_slice_def split: prod.splits)
qed

text \<open>
  C29. The cached Merkle root is the root of the latest snapshot: in every reachable state of the node
  the cache answers, for each chat, the root of its last snapshot, and misses when it has none.
\<close>

theorem cached_root_is_latest:
  assumes "length ops + 1 < max_slice" "l = mem_node ed ops"
  shows "GetMerkleRoot (cache_ops l) d (cache l) =
    (if mem_snaps (store l) d = [] then None else Some (MerkleRoot (last (mem_snaps (store l) d))))"
proof -
  have "GetMerkleRoot InMemoryCache_ops d NewInMemoryCache = None" for d
    by (simp add: cache_defs NewInMemoryCache_def)
  from mem_cache.cache_follows [OF this assms(1), of ed InMemoryBroker_ops NewInMemoryBroker d] show ?thesis
    by (simp add: assms(2) mem_node_def)
qed

theorem cached_root_is_latest_witness:
  "\<exists>p. mem_snaps (store (demo_node 150)) ''c1'' = [p]
     \<and> GetMerkleRoot (cache_ops (demo_node 150)) ''c1'' (cache (demo_node 150)) = Some (MerkleRoot p)"
proof -
  have n: "150 + 1 < max_slice" "150 < max_slice"
    by (simp_all add: max_slice_def)
  have "length (mem_snaps (store (demo_node 150)) ''c1'') = 1"
    using reachable_snaps [OF demo_reachable [OF n(1)], of "''c1''"] demo_entries [OF n(2)] by simp
  then obtain p where "mem_snaps (store (demo_node 150)) ''c1'' = [p]"
    by (metis One_nat_def length_0_conv length_Suc_conv)
  then show ?thesis
    using cached_root_is_latest [of "demo_run 150" "demo_node 150" toy_scheme "''c1''"] n(1) by (simp add: mem_node_demo)
qed

text \<open>What a client signs with its own key is acceptable.\<close>

lemma client_signs:
  assumes "ed25519_correct ed" "GenerateKeyPair ed entropy = Inr (priv, pub)"
    and "m = NewMessage rnd t chatID senderID pub content contentType filename encrypted"
  obtains m' where "SignMessage ed m priv = Inr m'" "acceptable ed m'" "ChatID m' = chatID"
proof -
  have pk: "PublicKey m = pub" "SchemaVersion m = 1" "ChatID m = chatID"
    by (simp_all add: assms(3) NewMessage_def CurrentSchemaVersion_def)
  have gen: "ed_GenerateKey ed entropy = Inr (pub, priv)"
    using assms(2) by (auto simp: GenerateKeyPair_def split: sum.splits)
  have len: "length pub = 32" "length priv = 64" "\<And>data. length (ed_Sign ed priv data) = 64"
    "\<And>data. ed_Verify ed pub data (ed_Sign ed priv data)"
    using assms(1) gen unfolding ed25519_correct_def by blast+
  let ?m = "m\<lparr>Signature := ed_Sign ed priv (SigningPayload m)\<rparr>"
  have "ed_Sign ed priv (SigningPayload m) \<noteq> []"
    using len(3) by (metis list.size(3) zero_neq_numeral)
  then have "acceptable ed ?m" "ChatID ?m = chatID"
    using len pk by (simp_all add: acceptable_def supportedVersion_def CurrentSchemaVersion_def VerifyMessage_iff)
  then show thesis
    using len(2) by (intro that [of ?m]) (simp_all add: SignMessage_def Sign_def PrivateKeySize_def)
qed

text \<open>
  C13. A client's message goes through: a message built by \<open>NewMessage\<close> and signed by \<open>SignMessage\<close> with
  the keys of \<open>GenerateKeyPair\<close> is accepted by every reachable node, at the end of its chat, and the
  node's single-message check of the new entry succeeds.
\<close>

theorem client_message_accepted:
  assumes "ed25519_correct ed" "GenerateKeyPair ed entropy = Inr (priv, pub)" "reachable ed l"
    and "SignMessage ed (NewMessage rnd t chatID senderID pub content contentType filename encrypted) priv = Inr m"
  shows "\<exists>e l' v. Append ed now m l = (Inr e, l') \<and> Message e = m
    \<and> mem_ents (store l') chatID = mem_ents (store l) chatID @ [e]
    \<and> VerifyEntry ed chatID (Sequence e) l' = Inr v \<and> mv_Valid v"
proof -
  have acc: "acceptable ed m" "ChatID m = chatID"
    using client_signs [OF assms(1,2) refl] assms(4) by (metis old.sum.inject(2))+
  let ?es = "mem_ents (store l) chatID"
  obtain e l' where app: "Append ed now m l = (Inr e, l')" "e = next_entry ?es m"
    "mem_ents (store l') = (mem_ents (store l))(ChatID m := ?es @ [e])"
    "log_inv ed InMemoryStorage_ops mem_ents mem_snaps mem_ok l'"
    by (rule Append_effects [OF assms(3) acc(1), of ?es now]) (simp_all add: acc(2))
  have es': "mem_ents (store l') chatID = ?es @ [e]"
    using app(3) acc(2) by simp
  have ch: "chained ed (?es @ [e])" "store_ops l' = InMemoryStorage_ops" "mem_ok (store l')"
    using app(4) es' by (simp_all add: log_inv_def chat_ok_def) metis
  have seq: "unat (Sequence e) = length ?es"
    using app(2) reachable_inv(2) [OF assms(3), of chatID] by simp
  have "\<exists>v. VerifyEntry ed chatID (Sequence e) l' = Inr v \<and> mv_Valid v"
    using mem.VerifyEntry_spec [OF ch(2,3), of "Sequence e" chatID ed] ch(1) by (auto simp: es' seq chained_snoc)
  then show ?thesis
    using app(1,2) es' by auto
qed

theorem client_message_accepted_witness:
  "let key = sha256 (replicate 32 5);
       m = NewMessage (replicate 16 1) 1500000 ''c1'' ''alice'' key [104, 105] ContentTypeText [] False;
       signed = m\<lparr>Signature := key @ sha256 (SigningPayload m)\<rparr>
   in \<exists>e l' v. Append toy_scheme 0 signed (demo_node 3) = (Inr e, l') \<and> Message e = signed
    \<and> mem_ents (store l') ''c1'' = mem_ents (store (demo_node 3)) ''c1'' @ [e]
    \<and> VerifyEntry toy_scheme ''c1'' (Sequence e) l' = Inr v \<and> mv_Valid v"
  unfolding Let_def
proof (rule client_message_accepted [OF toy_scheme_correct, where entropy = "replicate 32 5"])
  show "GenerateKeyPair toy_scheme (replicate 32 5) =
      Inr (replicate 32 5 @ sha256 (replicate 32 5), sha256 (replicate 32 5))"
    by (simp add: GenerateKeyPair_def toy_scheme_def)
qed (simp_all add: demo_reachable max_slice_def SignMessage_def Sign_def PrivateKeySize_def, simp add: toy_scheme_def)

end
