(* ===== verification/Aes_Gcm.thy ===== *)
theory Aes_Gcm
  imports Sha256
begin

text \<open>
  AES-256 (FIPS 197) and Galois/Counter Mode (NIST SP 800-38D) as the program uses them from Go's
  \<open>crypto/aes\<close> and \<open>crypto/cipher\<close>: a 12-byte nonce, no additional data, a 16-byte tag. The definitions
  compute, so nothing is assumed about the cipher.
\<close>

section \<open>AES-256\<close>

definition aes_sbox :: "byte list" where
  "aes_sbox =
    [
     0x63, 0x7c, 0x77, 0x7b, 0xf2, 0x6b, 0x6f, 0xc5, 0x30, 0x01, 0x67, 0x2b, 0xfe, 0xd7, 0xab, 0x76,
     0xca, 0x82, 0xc9, 0x7d, 0xfa, 0x59, 0x47, 0xf0, 0xad, 0xd4, 0xa2, 0xaf, 0x9c, 0xa4, 0x72, 0xc0,
     0xb7, 0xfd, 0x93, 0x26, 0x36, 0x3f, 0xf7, 0xcc, 0x34, 0xa5, 0xe5, 0xf1, 0x71, 0xd8, 0x31, 0x15,
     0x04, 0xc7, 0x23, 0xc3, 0x18, 0x96, 0x05, 0x9a, 0x07, 0x12, 0x80, 0xe2, 0xeb, 0x27, 0xb2, 0x75,
     0x09, 0x83, 0x2c, 0x1a, 0x1b, 0x6e, 0x5a, 0xa0, 0x52, 0x3b, 0xd6, 0xb3, 0x29, 0xe3, 0x2f, 0x84,
     0x53, 0xd1, 0x00, 0xed, 0x20, 0xfc, 0xb1, 0x5b, 0x6a, 0xcb, 0xbe, 0x39, 0x4a, 0x4c, 0x58, 0xcf,
     0xd0, 0xef, 0xaa, 0xfb, 0x43, 0x4d, 0x33, 0x85, 0x45, 0xf9, 0x02, 0x7f, 0x50, 0x3c, 0x9f, 0xa8,
     0x51, 0xa3, 0x40, 0x8f, 0x92, 0x9d, 0x38, 0xf5, 0xbc, 0xb6, 0xda, 0x21, 0x10, 0xff, 0xf3, 0xd2,
     0xcd, 0x0c, 0x13, 0xec, 0x5f, 0x97, 0x44, 0x17, 0xc4, 0xa7, 0x7e, 0x3d, 0x64, 0x5d, 0x19, 0x73,
     0x60, 0x81, 0x4f, 0xdc, 0x22, 0x2a, 0x90, 0x88, 0x46, 0xee, 0xb8, 0x14, 0xde, 0x5e, 0x0b, 0xdb,
     0xe0, 0x32, 0x3a, 0x0a, 0x49, 0x06, 0x24, 0x5c, 0xc2, 0xd3, 0xac, 0x62, 0x91, 0x95, 0xe4, 0x79,
     0xe7, 0xc8, 0x37, 0x6d, 0x8d, 0xd5, 0x4e, 0xa9, 0x6c, 0x56, 0xf4, 0xea, 0x65, 0x7a, 0xae, 0x08,
     0xba, 0x78, 0x25, 0x2e, 0x1c, 0xa6, 0xb4, 0xc6, 0xe8, 0xdd, 0x74, 0x1f, 0x4b, 0xbd, 0x8b, 0x8a,
     0x70, 0x3e, 0xb5, 0x66, 0x48, 0x03, 0xf6, 0x0e, 0x61, 0x35, 0x57, 0xb9, 0x86, 0xc1, 0x1d, 0x9e,
     0xe1, 0xf8, 0x98, 0x11, 0x69, 0xd9, 0x8e, 0x94, 0x9b, 0x1e, 0x87, 0xe9, 0xce, 0x55, 0x28, 0xdf,
     0x8c, 0xa1, 0x89, 0x0d, 0xbf, 0xe6, 0x42, 0x68, 0x41, 0x99, 0x2d, 0x0f, 0xb0, 0x54, 0xbb, 0x16]"

definition xtime :: "byte \<Rightarrow> byte" where
  "xtime b = push_bit 1 b XOR (if bit b 7 then 0x1b else 0)"

definition sub_bytes :: "byte list \<Rightarrow> byte list" where
  "sub_bytes s = map (\<lambda>b. aes_sbox ! unat b) s"

text \<open>A state is a list of 16 bytes, column after column.\<close>

definition shift_rows :: "byte list \<Rightarrow> byte list" where
  "shift_rows s = map (\<lambda>i. s ! ((i + 4 * (i mod 4)) mod 16)) [0..<16]"

fun mix_columns :: "byte list \<Rightarrow> byte list" where
  "mix_columns (a # b # c # d # s) =
     [xtime a XOR xtime b XOR b XOR c XOR d, a XOR xtime b XOR xtime c XOR c XOR d,
      a XOR b XOR xtime c XOR xtime d XOR d, xtime a XOR a XOR b XOR c XOR xtime d] @ mix_columns s"
| "mix_columns _ = []"

definition add_round_key :: "byte list \<Rightarrow> byte list \<Rightarrow> byte list" where
  "add_round_key k s = map (\<lambda>i. s ! i XOR k ! i) [0..<16]"

definition aes_rcon :: "nat \<Rightarrow> byte" where
  "aes_rcon i = push_bit (i - 1) 1"

text \<open>The key schedule as a list of 4-byte words, newest first.\<close>

definition next_key_word :: "nat \<Rightarrow> byte list list \<Rightarrow> byte list" where
  "next_key_word i ws =
     (let temp = hd ws;
          temp' = (if i mod 8 = 0
                   then (case sub_bytes (tl temp @ [hd temp]) of
                           x # xs \<Rightarrow> (x XOR aes_rcon (i div 8)) # xs | [] \<Rightarrow> [])
                   else if i mod 8 = 4 then sub_bytes temp else temp)
      in map2 (XOR) (ws ! 7) temp')"

primrec expand_key :: "nat \<Rightarrow> byte list list \<Rightarrow> byte list list" where
  "expand_key 0 ws = ws"
| "expand_key (Suc n) ws = expand_key n (next_key_word (length ws) ws # ws)"

fun chunks :: "nat \<Rightarrow> 'a list \<Rightarrow> 'a list list" where
  "chunks n xs = (if n = 0 \<or> xs = [] then [] else take n xs # chunks n (drop n xs))"

declare chunks.simps [simp del]

text \<open>The 15 round keys of 16 bytes.\<close>

definition round_keys :: "byte list \<Rightarrow> byte list list" where
  "round_keys key = chunks 16 (concat (rev (expand_key 52 (rev (chunks 4 key)))))"

definition aes_encrypt :: "byte list \<Rightarrow> byte list \<Rightarrow> byte list" where
  "aes_encrypt key block =
     (let ks = round_keys key;
          s = fold (\<lambda>k s. add_round_key k (mix_columns (shift_rows (sub_bytes s))))
                (take 13 (tl ks)) (add_round_key (hd ks) block)
      in add_round_key (ks ! 14) (shift_rows (sub_bytes s)))"

section \<open>GCM\<close>

definition block_word :: "byte list \<Rightarrow> 128 word" where
  "block_word bs = fold (\<lambda>b w. push_bit 8 w OR ucast b) bs 0"

definition word_block :: "128 word \<Rightarrow> byte list" where
  "word_block w = map (\<lambda>i. ucast (drop_bit (120 - 8 * i) w)) [0..<16]"

text \<open>Multiplication in the field of GHASH, bit by bit.\<close>

primrec gf_mult_loop :: "nat \<Rightarrow> 128 word \<Rightarrow> 128 word \<Rightarrow> 128 word \<Rightarrow> 128 word" where
  "gf_mult_loop 0 x z v = z"
| "gf_mult_loop (Suc n) x z v =
     gf_mult_loop n x (if bit x n then z XOR v else z)
       (if bit v 0 then drop_bit 1 v XOR push_bit 120 0xe1 else drop_bit 1 v)"

definition gf_mult :: "128 word \<Rightarrow> 128 word \<Rightarrow> 128 word" where
  "gf_mult x y = gf_mult_loop 128 x 0 y"

definition pad16 :: "byte list \<Rightarrow> byte list" where
  "pad16 bs = bs @ replicate ((16 - length bs mod 16) mod 16) 0"

text \<open>GHASH of a ciphertext without additional data.\<close>

definition ghash :: "128 word \<Rightarrow> byte list \<Rightarrow> 128 word" where
  "ghash h c =
     fold (\<lambda>b y. gf_mult (y XOR block_word b) h)
       (chunks 16 (pad16 c) @ [replicate 8 0 @ be64 (8 * word_of_nat (length c))]) 0"

definition gcm_counter :: "byte list \<Rightarrow> nat \<Rightarrow> byte list" where
  "gcm_counter nonce i = nonce @ be32 (word_of_nat i)"

definition gcm_keystream :: "byte list \<Rightarrow> byte list \<Rightarrow> nat \<Rightarrow> byte list" where
  "gcm_keystream key nonce n =
     concat (map (\<lambda>i. aes_encrypt key (gcm_counter nonce (i + 2))) [0..<(n + 15) div 16])"

definition gcm_ctr :: "byte list \<Rightarrow> byte list \<Rightarrow> byte list \<Rightarrow> byte list" where
  "gcm_ctr key nonce data = map2 (XOR) data (gcm_keystream key nonce (length data))"

definition gcm_tag :: "byte list \<Rightarrow> byte list \<Rightarrow> byte list \<Rightarrow> byte list" where
  "gcm_tag key nonce c =
     word_block (block_word (aes_encrypt key (gcm_counter nonce 1))
       XOR ghash (block_word (aes_encrypt key (replicate 16 0))) c)"

text \<open>
  \<open>Seal\<close> panics on a plaintext beyond the counter's range, \<open>Open\<close> refuses such a ciphertext; both
  limits are those of \<open>crypto/cipher\<close>.
\<close>

definition gcm_limit :: int where
  "gcm_limit = (2 ^ 32 - 2) * 16"

definition errOpen :: go_error where
  "errOpen = Sentinel ''cipher: message authentication failed''"

definition gcm_Seal :: "byte list \<Rightarrow> byte list \<Rightarrow> byte list \<Rightarrow> byte list res" where
  "gcm_Seal key nonce plaintext =
     (if gcm_limit < int (length plaintext) then Inl (Panic ''crypto/cipher: message too large for GCM'')
      else (let c = gcm_ctr key nonce plaintext in Inr (c @ gcm_tag key nonce c)))"

definition gcm_Open :: "byte list \<Rightarrow> byte list \<Rightarrow> byte list \<Rightarrow> byte list res" where
  "gcm_Open key nonce ciphertext =
     (if length ciphertext < 16 \<or> gcm_limit + 16 < int (length ciphertext) then Inl errOpen
      else (let c = take (length ciphertext - 16) ciphertext;
                tag = drop (length ciphertext - 16) ciphertext
            in if gcm_tag key nonce c \<noteq> tag then Inl errOpen else Inr (gcm_ctr key nonce c)))"

section \<open>Opening inverts sealing\<close>

lemma length_add_round_key [simp]: "length (add_round_key k s) = 16"
  by (simp add: add_round_key_def)

lemma length_aes_encrypt [simp]: "length (aes_encrypt key block) = 16"
  by (simp add: aes_encrypt_def Let_def)

lemma length_gcm_tag [simp]: "length (gcm_tag key nonce c) = 16"
  by (simp add: gcm_tag_def word_block_def)

lemma length_gcm_keystream: "n \<le> length (gcm_keystream key nonce n)"
proof -
  have "length (concat (map (\<lambda>i. aes_encrypt key (gcm_counter nonce (i + 2))) [0..<k])) = 16 * k" for k
    by (induction k) simp_all
  moreover have "n \<le> 16 * ((n + 15) div 16)"
    by presburger
  ultimately show ?thesis
    by (simp only: gcm_keystream_def)
qed

lemma length_gcm_ctr [simp]: "length (gcm_ctr key nonce data) = length data"
  using length_gcm_keystream [of "length data" key nonce] by (simp add: gcm_ctr_def)

lemma map2_xor_twice:
  "length (xs :: byte list) \<le> length ks \<Longrightarrow> map2 (XOR) (map2 (XOR) xs ks) ks = xs"
proof (induction xs arbitrary: ks)
  case (Cons x xs)
  then obtain k ks' where "ks = k # ks'"
    by (cases ks) auto
  moreover have "(x XOR k) XOR k = x"
    by (simp add: xor.assoc)
  ultimately show ?case
    using Cons by simp
qed simp

lemma gcm_ctr_twice [simp]: "gcm_ctr key nonce (gcm_ctr key nonce data) = data"
proof -
  have "gcm_ctr key nonce (gcm_ctr key nonce data) =
      map2 (XOR) (map2 (XOR) data (gcm_keystream key nonce (length data))) (gcm_keystream key nonce (length data))"
    by (simp add: gcm_ctr_def [of key nonce "gcm_ctr key nonce data"]) (simp add: gcm_ctr_def)
  then show ?thesis
    using length_gcm_keystream by (simp add: map2_xor_twice)
qed

lemma gcm_Open_iff: "gcm_Open key nonce ct = Inr p \<longleftrightarrow> gcm_Seal key nonce p = Inr ct"
proof
  assume open_ok: "gcm_Open key nonce ct = Inr p"
  let ?c = "take (length ct - 16) ct"
  have len: "16 \<le> length ct" "int (length ct) \<le> gcm_limit + 16" and tag: "gcm_tag key nonce ?c = drop (length ct - 16) ct"
    and p: "p = gcm_ctr key nonce ?c"
    using open_ok by (auto simp: gcm_Open_def Let_def split: if_splits)
  have "gcm_ctr key nonce p = ?c"
    using p by simp
  moreover have "\<not> gcm_limit < int (length p)"
    using len p by simp
  ultimately show "gcm_Seal key nonce p = Inr ct"
    using tag by (simp add: gcm_Seal_def Let_def)
next
  assume "gcm_Seal key nonce p = Inr ct"
  then show "gcm_Open key nonce ct = Inr p"
    by (auto simp: gcm_Seal_def gcm_Open_def Let_def split: if_splits)
qed

lemma length_gcm_Seal: "gcm_Seal key nonce p = Inr ct \<Longrightarrow> length ct = length p + 16"
  by (auto simp: gcm_Seal_def Let_def split: if_splits)

end
