(* ===== verification/Encrypt.thy ===== *)
theory Encrypt
  imports Aes_Gcm Models
begin

text \<open>
  Package \<open>internal/crypto\<close>, file \<open>encrypt.go\<close>: content keys, and blobs of a nonce followed by the
  AES-256-GCM ciphertext and tag. What the random source delivers is an argument: the bytes, or an error.
\<close>

section \<open>The code\<close>

definition ContentKeySize :: nat where
  "ContentKeySize = 32"

definition ErrInvalidKey :: go_error where
  "ErrInvalidKey = Sentinel ''crypto: content key must be 32 bytes''"

definition ErrMalformedCiphertext :: go_error where
  "ErrMalformedCiphertext = Sentinel ''crypto: malformed ciphertext''"

declare ErrInvalidKey_def [err_defs] ErrMalformedCiphertext_def [err_defs] errOpen_def [err_defs]

definition NewContentKey :: "byte list res \<Rightarrow> byte list res" where
  "NewContentKey rnd = (case rnd of Inl err \<Rightarrow> Inl err | Inr key \<Rightarrow> Inr key)"

text \<open>
  \<open>aes.NewCipher\<close> and \<open>cipher.NewGCM\<close> do not fail on a 32-byte key, so a GCM instance is its key.
\<close>

definition newGCM :: "byte list \<Rightarrow> byte list res" where
  "newGCM key = (if length key \<noteq> ContentKeySize then Inl ErrInvalidKey else Inr key)"

definition NonceSize :: nat where
  "NonceSize = 12"

definition Encrypt :: "byte list res \<Rightarrow> byte list \<Rightarrow> byte list \<Rightarrow> byte list res" where
  "Encrypt rnd key plaintext =
     (case newGCM key of
        Inl err \<Rightarrow> Inl err
      | Inr gcm \<Rightarrow>
          (case rnd of
             Inl err \<Rightarrow> Inl err
           | Inr nonce \<Rightarrow>
               (case gcm_Seal gcm nonce plaintext of
                  Inl p \<Rightarrow> Inl p
                | Inr sealed \<Rightarrow> Inr (nonce @ sealed))))"

definition Decrypt :: "byte list \<Rightarrow> byte list \<Rightarrow> byte list res" where
  "Decrypt key blob =
     (case newGCM key of
        Inl err \<Rightarrow> Inl err
      | Inr gcm \<Rightarrow>
          if length blob < NonceSize then Inl ErrMalformedCiphertext
          else gcm_Open gcm (take NonceSize blob) (drop NonceSize blob))"

section \<open>Properties\<close>

text \<open>
  C32. \<open>Decrypt\<close> and \<open>Encrypt\<close> are inverse to each other: a blob is accepted, with plaintext \<open>p\<close>, exactly
  when it is what \<open>Encrypt\<close> makes of \<open>p\<close> under the same key with the nonce at the front of the blob.
  So what was encrypted decrypts to itself, and no other blob is accepted under that key and nonce.
\<close>

theorem Decrypt_iff_Encrypt:
  assumes "12 \<le> length blob"
  shows "Decrypt key blob = Inr p \<longleftrightarrow> Encrypt (Inr (take 12 blob)) key p = Inr blob"
proof -
  have "take 12 blob @ x = blob \<longleftrightarrow> x = drop 12 blob" for x
    by (metis append_take_drop_id same_append_eq)
  then have "Encrypt (Inr (take 12 blob)) key p = Inr blob \<longleftrightarrow>
      length key = 32 \<and> gcm_Seal key (take 12 blob) p = Inr (drop 12 blob)"
    by (auto simp: Encrypt_def newGCM_def ContentKeySize_def split: sum.splits)
  moreover have "Decrypt key blob = Inr p \<longleftrightarrow> length key = 32 \<and> gcm_Open key (take 12 blob) (drop 12 blob) = Inr p"
    using assms by (auto simp: Decrypt_def newGCM_def ContentKeySize_def NonceSize_def)
  ultimately show ?thesis
    by (simp add: gcm_Open_iff)
qed

theorem Decrypt_iff_Encrypt_witness:
  "let blob = replicate 12 1 @ gcm_ctr (replicate 32 2) (replicate 12 1) [104, 105]
         @ gcm_tag (replicate 32 2) (replicate 12 1) (gcm_ctr (replicate 32 2) (replicate 12 1) [104, 105])
   in Decrypt (replicate 32 2) blob = Inr [104, 105] \<longleftrightarrow>
      Encrypt (Inr (take 12 blob)) (replicate 32 2) [104, 105] = Inr blob"
  unfolding Let_def by (rule Decrypt_iff_Encrypt) simp

text \<open>
  Sealing adds 28 bytes and never fails on content that fits a request: with a 32-byte key and a
  12-byte nonce, a plaintext below the cipher's limit (which is far above the 72 MiB of a request)
  gives a blob 28 bytes longer than the plaintext that decrypts to it; with a key of any other length
  both directions report \<open>ErrInvalidKey\<close>.
\<close>

theorem Encrypt_roundtrip:
  assumes "length nonce = 12" "length p < 72 * 2 ^ 20"
  shows "if length key = 32
    then \<exists>blob. Encrypt (Inr nonce) key p = Inr blob \<and> length blob = length p + 28 \<and> Decrypt key blob = Inr p
    else Encrypt (Inr nonce) key p = Inl ErrInvalidKey \<and> (\<forall>blob. Decrypt key blob = Inl ErrInvalidKey)"
proof (cases "length key = 32")
  case True
  have "int (length p) \<le> gcm_limit"
    using assms(2) by (simp add: gcm_limit_def)
  then obtain ct where ct: "gcm_Seal key nonce p = Inr ct"
    by (simp add: gcm_Seal_def Let_def)
  have "Encrypt (Inr nonce) key p = Inr (nonce @ ct)"
    using ct True by (simp add: Encrypt_def newGCM_def ContentKeySize_def)
  moreover have "Decrypt key (nonce @ ct) = Inr p"
    using ct True assms(1) by (simp add: Decrypt_def newGCM_def ContentKeySize_def NonceSize_def gcm_Open_iff)
  ultimately show ?thesis
    using length_gcm_Seal [OF ct] True assms(1) by simp
next
  case False
  then show ?thesis
    by (simp add: Encrypt_def Decrypt_def newGCM_def ContentKeySize_def)
qed

theorem Encrypt_roundtrip_witness:
  "\<exists>blob. Encrypt (Inr (replicate 12 1)) (replicate 32 2) [104, 105] = Inr blob \<and> length blob = length [104, 105 :: byte] + 28
     \<and> Decrypt (replicate 32 2) blob = Inr [104, 105]"
  using Encrypt_roundtrip [of "replicate 12 1" "[104, 105]" "replicate 32 2"] by simp

end
