(* ===== verification/Service.thy ===== *)
theory Service
  imports Node Encrypt
begin

text \<open>
  Package \<open>internal/service\<close>: the facade over the log. Submission adds a size limit, reading delegates,
  and \<open>DecryptContent\<close> is the client's counterpart of encrypting before signing.
\<close>

section \<open>The code\<close>

definition MaxPhotoBytes :: int where
  "MaxPhotoBytes = push_bit 20 10"

definition MaxVideoBytes :: int where
  "MaxVideoBytes = push_bit 20 50"

record ('s, 'c, 'b) Messenger =
  log :: "('s, 'c, 'b) Log"

definition New_Messenger :: "('s, 'c, 'b) Log \<Rightarrow> ('s, 'c, 'b) Messenger" where
  "New_Messenger l = \<lparr>log = l\<rparr>"

definition Submit ::
  "ed25519 \<Rightarrow> Time \<Rightarrow> SignedMessage \<Rightarrow> int \<Rightarrow> ('s, 'c, 'b) Messenger \<Rightarrow> LogEntry res \<times> ('s, 'c, 'b) Messenger" where
  "Submit ed now msg maxContentBytes m =
     (if 0 < maxContentBytes \<and> maxContentBytes < int (length (Content msg))
      then (Inl (Errorf (''content exceeds '' @ dec_int maxContentBytes @ '' bytes'')), m)
      else (let (r, l) = Append ed now msg (log m) in (r, m\<lparr>log := l\<rparr>)))"

definition DecryptContent :: "SignedMessage \<Rightarrow> byte list \<Rightarrow> byte list res" where
  "DecryptContent msg contentKey =
     (if \<not> Encrypted msg then Inr (Content msg) else Decrypt contentKey (Content msg))"

definition svc_History :: "string \<Rightarrow> uint64 \<Rightarrow> int \<Rightarrow> ('s, 'c, 'b) Messenger \<Rightarrow> LogEntry list res" where
  "svc_History chatID from limit m = History chatID from limit (log m)"

definition svc_Message :: "string \<Rightarrow> uint64 \<Rightarrow> ('s, 'c, 'b) Messenger \<Rightarrow> LogEntry res" where
  "svc_Message chatID sequence m = Log_Entry chatID sequence (log m)"

definition svc_ProveInclusion :: "string \<Rightarrow> uint64 \<Rightarrow> ('s, 'c, 'b) Messenger \<Rightarrow> InclusionProof res" where
  "svc_ProveInclusion chatID sequence m = ProveInclusion chatID sequence (log m)"

definition svc_VerifyMessage ::
  "ed25519 \<Rightarrow> string \<Rightarrow> uint64 \<Rightarrow> ('s, 'c, 'b) Messenger \<Rightarrow> MessageVerification res" where
  "svc_VerifyMessage ed chatID sequence m = VerifyEntry ed chatID sequence (log m)"

definition svc_Verify :: "ed25519 \<Rightarrow> string \<Rightarrow> ('s, 'c, 'b) Messenger \<Rightarrow> VerifyResult res" where
  "svc_Verify ed chatID m = Log_Verify ed chatID (log m)"

definition svc_Sync :: "string \<Rightarrow> ('s, 'c, 'b) Messenger \<Rightarrow> SyncBundle res" where
  "svc_Sync chatID m = Sync chatID (log m)"

definition svc_Subscribe :: "('s, 'c, 'b) Messenger \<Rightarrow> subscription res \<times> ('s, 'c, 'b) Messenger" where
  "svc_Subscribe m = (let (r, l) = Log_Subscribe (log m) in (r, m\<lparr>log := l\<rparr>))"

section \<open>Properties\<close>

text \<open>
  C31. End to end: content encrypted under a chat key, put into a message, signed and submitted within
  the size limit comes back from the node's history as it was: the stored message at the returned
  sequence number is the submitted one, and decrypting it with the chat key gives the plaintext.
\<close>

theorem Submit_roundtrip:
  assumes "reachable ed (log m)" "acceptable ed msg" "Encrypted msg"
    and "Encrypt (Inr nonce) key plaintext = Inr (Content msg)" "length nonce = 12"
    and "lim \<le> 0 \<or> int (length (Content msg)) \<le> lim"
    and "Submit ed now msg lim m = (r, m')"
  shows "\<exists>e. r = Inr e \<and> svc_Message (ChatID msg) (Sequence e) m' = Inr e \<and> Message e = msg
    \<and> DecryptContent (Message e) key = Inr plaintext"
proof -
  let ?es = "mem_ents (store (log m)) (ChatID msg)"
  obtain e l' where app: "Append ed now msg (log m) = (Inr e, l')" "e = next_entry ?es msg"
    "mem_ents (store l') = (mem_ents (store (log m)))(ChatID msg := ?es @ [e])"
    "log_inv ed InMemoryStorage_ops mem_ents mem_snaps mem_ok l'"
    by (rule Append_effects [OF assms(1,2) refl])
  have "r = Inr e" "log m' = l'"
    using assms(6,7) app(1) by (auto simp: Submit_def split: if_splits)
  moreover have "unat (Sequence e) = length ?es"
    using app(2) reachable_inv(2) [OF assms(1), of "ChatID msg"] by simp
  then have "Log_Entry (ChatID msg) (Sequence e) l' = Inr e"
    using app(3,4) by (simp add: Log_Entry_def log_inv_def mem_at)
  moreover obtain ct where "gcm_Seal key nonce plaintext = Inr ct" "Content msg = nonce @ ct" "length key = 32"
    using assms(4) by (auto simp: Encrypt_def newGCM_def ContentKeySize_def split: sum.splits if_splits)
  then have "Decrypt key (Content msg) = Inr plaintext"
    using assms(5) by (simp add: Decrypt_def newGCM_def ContentKeySize_def NonceSize_def gcm_Open_iff)
  ultimately show ?thesis
    using app(2) assms(3) by (simp add: svc_Message_def DecryptContent_def)
qed

text \<open>An encrypted message of a client, signed with the example scheme.\<close>

definition secret_message :: SignedMessage where
  "secret_message =
     (let m = example_message\<lparr>Encrypted := True,
            Content := replicate 12 1 @ gcm_ctr (replicate 32 2) (replicate 12 1) [104, 105]
              @ gcm_tag (replicate 32 2) (replicate 12 1) (gcm_ctr (replicate 32 2) (replicate 12 1) [104, 105])\<rparr>
      in m\<lparr>Signature := replicate 32 7 @ sha256 (SigningPayload m)\<rparr>)"

lemma secret_message_acceptable: "acceptable toy_scheme secret_message"
  by (simp add: acceptable_def secret_message_def Let_def VerifyMessage_iff toy_scheme_def)
    (simp add: example_message_def supportedVersion_def CurrentSchemaVersion_def)

theorem Submit_roundtrip_witness:
  "let (r, m') = Submit toy_scheme 0 secret_message MaxPhotoBytes (New_Messenger (demo_node 2))
   in \<exists>e. r = Inr e \<and> svc_Message (ChatID secret_message) (Sequence e) m' = Inr e \<and> Message e = secret_message
      \<and> DecryptContent (Message e) (replicate 32 2) = Inr [104, 105]"
proof -
  have r: "reachable toy_scheme (log (New_Messenger (demo_node 2)))"
    by (simp add: New_Messenger_def demo_reachable max_slice_def)
  have len: "lim \<le> 0 \<or> int (length (Content secret_message)) \<le> lim" if "lim = MaxPhotoBytes" for lim
    using that by (simp add: secret_message_def Let_def MaxPhotoBytes_def)
  have enc: "Encrypted secret_message"
    "Encrypt (Inr (replicate 12 1)) (replicate 32 2) [104, 105] = Inr (Content secret_message)"
    by (simp_all add: secret_message_def Let_def Encrypt_def newGCM_def ContentKeySize_def gcm_Seal_def gcm_limit_def)
  show ?thesis
    using Submit_roundtrip [OF r secret_message_acceptable enc _ len [OF refl], of 0] by (auto split: prod.splits)
qed

text \<open>
  The size limit rejects before anything else: content longer than a positive limit gives the size
  error and leaves the service unchanged, whatever the message; the limits of the photo and video
  endpoints count the stored bytes, so an encrypted photo may carry 28 bytes less than \<open>MaxPhotoBytes\<close>.
\<close>

theorem Submit_limit:
  assumes "length nonce = 12" "length key = 32" "Encrypt (Inr nonce) key plaintext = Inr (Content msg)"
    and "MaxPhotoBytes - 28 < int (length plaintext)"
  shows "Submit ed now msg MaxPhotoBytes m =
    (Inl (Errorf (''content exceeds '' @ dec_int MaxPhotoBytes @ '' bytes'')), m)"
proof -
  obtain ct where ct: "gcm_Seal key nonce plaintext = Inr ct" "Content msg = nonce @ ct"
    using assms(2,3) by (auto simp: Encrypt_def newGCM_def ContentKeySize_def split: sum.splits)
  have "0 < MaxPhotoBytes"
    by (simp add: MaxPhotoBytes_def)
  moreover have "MaxPhotoBytes < int (length (Content msg))"
    using length_gcm_Seal [OF ct(1)] ct(2) assms(1,4) by simp
  ultimately show ?thesis
    by (simp add: Submit_def)
qed

theorem Submit_limit_witness:
  "\<exists>msg. Submit toy_scheme 0 msg MaxPhotoBytes (New_Messenger (demo_node 0)) =
    (Inl (Errorf (''content exceeds '' @ dec_int MaxPhotoBytes @ '' bytes'')), New_Messenger (demo_node 0))"
proof -
  define p :: "byte list" where "p = replicate (nat MaxPhotoBytes) 0"
  have len: "int (length p) = MaxPhotoBytes" "MaxPhotoBytes \<le> gcm_limit"
    by (simp_all add: p_def MaxPhotoBytes_def gcm_limit_def)
  then obtain ct where "gcm_Seal (replicate 32 2) (replicate 12 1) p = Inr ct"
    by (simp add: gcm_Seal_def Let_def)
  then have "Encrypt (Inr (replicate 12 1)) (replicate 32 2) p = Inr (replicate 12 1 @ ct)"
    by (simp add: Encrypt_def newGCM_def ContentKeySize_def)
  then show ?thesis
    using Submit_limit [of "replicate 12 1" "replicate 32 2" p "example_message\<lparr>Content := replicate 12 1 @ ct\<rparr>"
        toy_scheme 0 "New_Messenger (demo_node 0)"] len(1) by auto
qed

end
