(* ===== verification/Ratelimit.thy ===== *)
theory Ratelimit
  imports Complex_Main Go_Time
begin

text \<open>
  Package \<open>internal/ratelimit\<close>: one token bucket per client, with eviction of idle buckets. The bucket
  itself is \<open>golang.org/x/time/rate\<close>, outside the repository: its two operations are a parameter, and
  its documented behaviour (a bucket of a given size, initially full and refilled at a given rate) is
  the locale \<open>token_bucket\<close>. Under it the limiter keeps every client to its budget, treats clients
  independently, and evicts buckets without granting anything extra. A \<open>float64\<close> is the real number
  that it denotes.
\<close>

section \<open>The code\<close>

record 'k rate_ops =
  rate_NewLimiter :: "real \<Rightarrow> int \<Rightarrow> 'k"
  rate_Allow :: "Time \<Rightarrow> 'k \<Rightarrow> bool \<times> 'k"

record 'k bucket =
  limiter :: 'k
  lastSeen :: Time

record 'k Limiter =
  rps :: real
  burst :: int
  idle :: Time
  buckets :: "string \<rightharpoonup> 'k bucket"
  done_closed :: bool

definition New_Limiter :: "real \<Rightarrow> int \<Rightarrow> Time \<Rightarrow> 'k Limiter" where
  "New_Limiter r b idleTimeout =
     \<lparr>rps = r, burst = b, idle = idleTimeout, buckets = Map.empty, done_closed = False\<rparr>"

text \<open>
  \<open>Allow\<close> reads the clock twice, once for \<open>lastSeen\<close> and once inside the bucket.
\<close>

definition Allow :: "'k rate_ops \<Rightarrow> Time \<Rightarrow> Time \<Rightarrow> string \<Rightarrow> 'k Limiter \<Rightarrow> bool \<times> 'k Limiter" where
  "Allow R now now' key l =
     (let b = (case buckets l key of
                 Some b \<Rightarrow> b
               | None \<Rightarrow> \<lparr>limiter = rate_NewLimiter R (rps l) (burst l), lastSeen = 0\<rparr>);
          (ok, lim) = rate_Allow R now' (limiter b)
      in (ok, l\<lparr>buckets := (buckets l)(key \<mapsto> \<lparr>limiter = lim, lastSeen = now\<rparr>)\<rparr>))"

text \<open>Closing a closed channel panics.\<close>

definition Close_Limiter :: "'k Limiter \<Rightarrow> go_error option \<times> 'k Limiter" where
  "Close_Limiter l =
     (if done_closed l then (Some (Panic ''close of closed channel''), l) else (None, l\<lparr>done_closed := True\<rparr>))"

definition evictIdle :: "Time \<Rightarrow> 'k Limiter \<Rightarrow> 'k Limiter" where
  "evictIdle now l =
     (let cutoff = now - idle l
      in l\<lparr>buckets := (\<lambda>k. case buckets l k of
                             None \<Rightarrow> None
                           | Some b \<Rightarrow> if lastSeen b < cutoff then None else Some b)\<rparr>)"

text \<open>
  The eviction goroutine: what \<open>select\<close> picks, in order. It evicts at every tick and ends when \<open>done\<close> is
  closed.
\<close>

datatype evict_case = Ticker Time | Done

fun evictLoop :: "evict_case list \<Rightarrow> 'k Limiter \<Rightarrow> 'k Limiter" where
  "evictLoop [] l = l"
| "evictLoop (Ticker now # cs) l = evictLoop cs (evictIdle now l)"
| "evictLoop (Done # cs) l = l"

text \<open>
  The calls that take the mutex, in the order in which they get it: requests of clients, with the two
  clock readings, and evictions. \<open>decisions\<close> lists the answers to the requests.
\<close>

datatype limiter_event =
    Request string Time Time
  | Evict Time

fun decisions :: "'k rate_ops \<Rightarrow> limiter_event list \<Rightarrow> 'k Limiter \<Rightarrow> (string \<times> bool) list" where
  "decisions R [] l = []"
| "decisions R (Request key now now' # evs) l =
     (let (ok, l') = Allow R now now' key l in (key, ok) # decisions R evs l')"
| "decisions R (Evict now # evs) l = decisions R evs (evictIdle now l)"

section \<open>The documented token bucket\<close>

definition refill :: "real \<Rightarrow> Time \<Rightarrow> real" where
  "refill r d = r * of_int d / 1000000000"

lemma refill_add: "refill r (a + b) = refill r a + refill r b"
  by (simp add: refill_def distrib_left add_divide_distrib)

lemma refill_mono: "0 \<le> r \<Longrightarrow> a \<le> b \<Longrightarrow> refill r a \<le> refill r b"
  by (simp add: refill_def divide_right_mono mult_left_mono)

lemma refill_0 [simp]: "refill r 0 = 0"
  by (simp add: refill_def)

text \<open>
  \<open>bucket_of r b t k\<close>: \<open>k\<close> is a bucket of rate \<open>r\<close> and size \<open>b\<close> that was last used at time \<open>t\<close> or before;
  \<open>tokens k t\<close> is what it holds at time \<open>t\<close>.
\<close>

locale token_bucket =
  fixes R :: "'k rate_ops"
    and bucket_of :: "real \<Rightarrow> int \<Rightarrow> Time \<Rightarrow> 'k \<Rightarrow> bool"
    and tokens :: "'k \<Rightarrow> Time \<Rightarrow> real"
  assumes fresh: "bucket_of r b t (rate_NewLimiter R r b)" "tokens (rate_NewLimiter R r b) t = of_int b"
    and later: "\<lbrakk>bucket_of r b t k; t \<le> t'\<rbrakk> \<Longrightarrow> bucket_of r b t' k"
    and refills: "\<lbrakk>bucket_of r b t k; t \<le> t'; 0 \<le> r\<rbrakk> \<Longrightarrow>
      tokens k t' = min (of_int b) (tokens k t + refill r (t' - t))"
    and takes: "\<lbrakk>bucket_of r b t k; rate_Allow R t k = (ok, k')\<rbrakk> \<Longrightarrow>
      bucket_of r b t k' \<and> (ok \<longleftrightarrow> 1 \<le> tokens k t) \<and> tokens k' t = tokens k t - (if ok then 1 else 0)"

section \<open>What a client may still use\<close>

definition avail :: "('k \<Rightarrow> Time \<Rightarrow> real) \<Rightarrow> 'k Limiter \<Rightarrow> string \<Rightarrow> Time \<Rightarrow> real" where
  "avail tokens l key t =
     (case buckets l key of None \<Rightarrow> of_int (burst l) | Some b \<Rightarrow> tokens (limiter b) t)"

text \<open>
  Up to time \<open>t\<close>: every bucket is one of the configured rate and size, was used at most \<open>d\<close> after
  its \<open>lastSeen\<close>, and held an amount between 0 and its size then.
\<close>

definition limiter_inv ::
  "(real \<Rightarrow> int \<Rightarrow> Time \<Rightarrow> 'k \<Rightarrow> bool) \<Rightarrow> ('k \<Rightarrow> Time \<Rightarrow> real) \<Rightarrow> Time \<Rightarrow> Time \<Rightarrow> 'k Limiter \<Rightarrow> bool" where
  "limiter_inv bucket_of tokens d t l \<longleftrightarrow> 0 \<le> rps l \<and> 0 \<le> burst l \<and>
     (\<forall>key b. buckets l key = Some b \<longrightarrow>
        (\<exists>u. u \<le> t \<and> u \<le> lastSeen b + d \<and> bucket_of (rps l) (burst l) u (limiter b)
           \<and> 0 \<le> tokens (limiter b) u \<and> tokens (limiter b) u \<le> of_int (burst l)))"

text \<open>
  Events in the order of time, from \<open>t\<close> up to \<open>T\<close>; the two readings of a request are at most \<open>d\<close>
  apart. An eviction may have read the clock before it got the mutex.
\<close>

fun in_time :: "Time \<Rightarrow> Time \<Rightarrow> Time \<Rightarrow> limiter_event list \<Rightarrow> bool" where
  "in_time d t T [] \<longleftrightarrow> t \<le> T"
| "in_time d t T (Request key now now' # evs) \<longleftrightarrow> t \<le> now \<and> now \<le> now' \<and> now' \<le> now + d \<and> in_time d now' T evs"
| "in_time d t T (Evict now # evs) \<longleftrightarrow> in_time d (max t now) T evs"

fun is_request :: "limiter_event \<Rightarrow> bool" where
  "is_request (Request key now now') \<longleftrightarrow> True"
| "is_request (Evict now) \<longleftrightarrow> False"

lemma in_time_le: "in_time d t T evs \<Longrightarrow> t \<le> T"
  by (induction d t T evs rule: in_time.induct) auto

lemma Allow_config:
  "Allow R now now' key l = (ok, l') \<Longrightarrow> rps l' = rps l \<and> burst l' = burst l \<and> idle l' = idle l"
  by (auto simp: Allow_def Let_def split: prod.splits)

lemma evictIdle_config [simp]:
  "rps (evictIdle now l) = rps l" "burst (evictIdle now l) = burst l" "idle (evictIdle now l) = idle l"
  by (simp_all add: evictIdle_def Let_def)

lemma evictIdle_bucket:
  "buckets (evictIdle now l) key =
     (case buckets l key of None \<Rightarrow> None | Some b \<Rightarrow> if lastSeen b < now - idle l then None else Some b)"
  by (simp add: evictIdle_def)

context token_bucket
begin

lemma avail_later:
  assumes "limiter_inv bucket_of tokens d t l" "t \<le> u" "u \<le> v"
  shows "avail tokens l key v = min (of_int (burst l)) (avail tokens l key u + refill (rps l) (v - u))"
    and "0 \<le> avail tokens l key u" "avail tokens l key u \<le> of_int (burst l)"
proof -
  have r: "0 \<le> rps l" "0 \<le> burst l" "0 \<le> refill (rps l) (v - u)"
    using assms refill_mono [of "rps l" 0 "v - u"] by (auto simp: limiter_inv_def)
  have "avail tokens l key v = min (of_int (burst l)) (avail tokens l key u + refill (rps l) (v - u))
      \<and> 0 \<le> avail tokens l key u \<and> avail tokens l key u \<le> of_int (burst l)"
  proof (cases "buckets l key")
    case None
    with r show ?thesis
      by (simp add: avail_def)
  next
    case (Some b)
    then obtain w where w: "w \<le> t" "bucket_of (rps l) (burst l) w (limiter b)" "0 \<le> tokens (limiter b) w"
      using assms(1) by (auto simp: limiter_inv_def)
    have "bucket_of (rps l) (burst l) u (limiter b)"
      using later [OF w(2)] w(1) assms(2) by simp
    from refills [OF this assms(3) r(1)] refills [OF w(2) _ r(1), of u] w assms(2) r
      refill_mono [of "rps l" 0 "u - w"]
    show ?thesis
      by (simp add: avail_def Some)
  qed
  then show "avail tokens l key v = min (of_int (burst l)) (avail tokens l key u + refill (rps l) (v - u))"
    and "0 \<le> avail tokens l key u" "avail tokens l key u \<le> of_int (burst l)"
    by simp_all
qed

text \<open>One request: it is allowed exactly when the client has a token left, which it then uses.\<close>

lemma Allow_spec:
  assumes "limiter_inv bucket_of tokens d t l" "t \<le> now" "now \<le> now'" "now' \<le> now + d"
    and "Allow R now now' key l = (ok, l')"
  shows "limiter_inv bucket_of tokens d now' l'" "ok \<longleftrightarrow> 1 \<le> avail tokens l key now'"
    "avail tokens l' key now' = avail tokens l key now' - (if ok then 1 else 0)"
    "key' \<noteq> key \<Longrightarrow> avail tokens l' key' u = avail tokens l key' u"
proof -
  define k where "k = (case buckets l key of Some b \<Rightarrow> limiter b | None \<Rightarrow> rate_NewLimiter R (rps l) (burst l))"
  obtain k' where k': "rate_Allow R now' k = (ok, k')" "l' = l\<lparr>buckets := (buckets l)(key \<mapsto> \<lparr>limiter = k', lastSeen = now\<rparr>)\<rparr>"
    using assms(5) by (auto simp: Allow_def k_def Let_def split: prod.splits option.splits)
  have inv: "0 \<le> rps l" "0 \<le> burst l"
    using assms(1) by (simp_all add: limiter_inv_def)
  have b: "bucket_of (rps l) (burst l) now' k"
  proof (cases "buckets l key")
    case (Some b)
    then obtain w where "w \<le> t" "bucket_of (rps l) (burst l) w (limiter b)"
      using assms(1) by (auto simp: limiter_inv_def)
    then show ?thesis
      using later [of "rps l" "burst l" w "limiter b" now'] assms(2,3) by (simp add: k_def Some)
  qed (simp add: k_def fresh)
  have tk: "tokens k now' = avail tokens l key now'"
    by (simp add: k_def avail_def fresh split: option.split)
  note tk' = takes [OF b k'(1)]
  show ok: "ok \<longleftrightarrow> 1 \<le> avail tokens l key now'"
    using tk' tk by simp
  show left: "avail tokens l' key now' = avail tokens l key now' - (if ok then 1 else 0)"
    using tk' tk by (simp add: avail_def k')
  have "0 \<le> avail tokens l key now'" "avail tokens l key now' \<le> of_int (burst l)"
    using avail_later(2,3) [OF assms(1), of now' now' key] assms(2,3) by simp_all
  then have new: "0 \<le> tokens k' now' \<and> tokens k' now' \<le> of_int (burst l)"
    using ok tk tk' by (auto split: if_splits)
  have old: "\<exists>u\<le>now'. u \<le> lastSeen b + d \<and> bucket_of (rps l) (burst l) u (limiter b)
      \<and> 0 \<le> tokens (limiter b) u \<and> tokens (limiter b) u \<le> of_int (burst l)" if "buckets l x = Some b" for x b
    using assms(1-3) that unfolding limiter_inv_def by (meson order_trans)
  show "limiter_inv bucket_of tokens d now' l'"
    using inv new old tk' assms(4) by (auto simp: limiter_inv_def k'(2) intro!: exI [of _ now'])
  show "avail tokens l' key' u = avail tokens l key' u" if "key' \<noteq> key"
    using that by (simp add: avail_def k'(2) split: option.split)
qed

text \<open>Eviction changes what no client may use, once an idle bucket has had the time to fill up.\<close>

lemma evictIdle_spec:
  assumes "limiter_inv bucket_of tokens d t l" "of_int (burst l) \<le> refill (rps l) (idle l - d)"
  shows "limiter_inv bucket_of tokens d (max t now) (evictIdle now l)"
    "max t now \<le> u \<Longrightarrow> avail tokens (evictIdle now l) key u = avail tokens l key u"
proof -
  show "limiter_inv bucket_of tokens d (max t now) (evictIdle now l)"
    unfolding limiter_inv_def evictIdle_config
  proof (intro conjI allI impI)
    fix x b
    assume "buckets (evictIdle now l) x = Some b"
    then have "buckets l x = Some b"
      by (auto simp: evictIdle_bucket split: option.splits if_splits)
    then show "\<exists>u\<le>max t now. u \<le> lastSeen b + d \<and> bucket_of (rps l) (burst l) u (limiter b)
        \<and> 0 \<le> tokens (limiter b) u \<and> tokens (limiter b) u \<le> of_int (burst l)"
      using assms(1) unfolding limiter_inv_def by (metis max.coboundedI1)
  qed (use assms(1) in \<open>simp_all add: limiter_inv_def\<close>)
  assume u: "max t now \<le> u"
  show "avail tokens (evictIdle now l) key u = avail tokens l key u"
  proof (cases "\<exists>b. buckets l key = Some b \<and> lastSeen b < now - idle l")
    case True
    then obtain b where b: "buckets l key = Some b" "lastSeen b < now - idle l"
      by blast
    then obtain w where w: "w \<le> t" "w \<le> lastSeen b + d" "bucket_of (rps l) (burst l) w (limiter b)"
      "0 \<le> tokens (limiter b) w" and r: "0 \<le> rps l" "0 \<le> burst l"
      using assms(1) by (auto simp: limiter_inv_def)
    have "refill (rps l) (idle l - d) \<le> refill (rps l) (u - w)"
      using r(1) w(2) b(2) u by (intro refill_mono) simp_all
    then have "tokens (limiter b) u = of_int (burst l)"
      using refills [OF w(3) _ r(1), of u] w(1,4) assms(2) u by (simp add: min_def)
    with b show ?thesis
      by (simp add: avail_def evictIdle_bucket)
  next
    case False
    then have "buckets (evictIdle now l) key = buckets l key"
      by (auto simp: evictIdle_bucket split: option.splits)
    then show ?thesis
      by (simp add: avail_def split: option.split)
  qed
qed

lemma decisions_bound:
  assumes "limiter_inv bucket_of tokens d t l" "of_int (burst l) \<le> refill (rps l) (idle l - d)" "in_time d t T evs"
  shows "of_nat (count_list (decisions R evs l) (key, True)) \<le> avail tokens l key t + refill (rps l) (T - t)"
  using assms
proof (induction evs arbitrary: t l)
  case Nil
  have "0 \<le> refill (rps l) (T - t)"
    using Nil.prems(1,3) refill_mono [of "rps l" 0 "T - t"] by (simp add: limiter_inv_def)
  then show ?case
    using avail_later(2) [OF Nil.prems(1), of t t key] by simp
next
  case (Cons ev evs)
  show ?case
  proof (cases ev)
    case (Request k now now')
    with Cons.prems have time: "t \<le> now" "now \<le> now'" "now' \<le> now + d" "in_time d now' T evs"
      by simp_all
    obtain ok l' where step: "Allow R now now' k l = (ok, l')"
      by fastforce
    note spec = Allow_spec [OF Cons.prems(1) time(1-3) step]
    have "of_nat (count_list (decisions R evs l') (key, True)) \<le> avail tokens l' key now' + refill (rps l') (T - now')"
      using Cons.prems(2) Allow_config [OF step] by (intro Cons.IH spec(1) time(4)) simp
    moreover have "avail tokens l key now' \<le> avail tokens l key t + refill (rps l) (now' - t)"
      using avail_later(1) [OF Cons.prems(1), of t now' key] time(1,2) by simp
    moreover have "refill (rps l) (T - t) = refill (rps l) (now' - t) + refill (rps l) (T - now')"
      by (simp flip: refill_add)
    moreover have "of_nat (count_list (decisions R (ev # evs) l) (key, True))
        = of_nat (count_list (decisions R evs l') (key, True)) + (if k = key \<and> ok then 1 else 0 :: real)"
      by (simp add: Request step)
    ultimately show ?thesis
      using spec(3) spec(4) [of key now'] Allow_config [OF step] by (cases "k = key") simp_all
  next
    case (Evict now)
    then have "in_time d (max t now) T evs"
      using Cons.prems(3) by simp
    from Cons.IH [OF evictIdle_spec(1) [OF Cons.prems(1,2)] _ this] Cons.prems(2)
    have "of_nat (count_list (decisions R evs (evictIdle now l)) (key, True))
        \<le> avail tokens l key (max t now) + refill (rps l) (T - max t now)"
      using evictIdle_spec(2) [OF Cons.prems(1,2), of now "max t now" key] by simp
    moreover have "avail tokens l key (max t now) \<le> avail tokens l key t + refill (rps l) (max t now - t)"
      using avail_later(1) [OF Cons.prems(1), of t "max t now" key] by simp
    moreover have "refill (rps l) (T - t) = refill (rps l) (max t now - t) + refill (rps l) (T - max t now)"
      by (simp flip: refill_add)
    ultimately show ?thesis
      by (simp add: Evict)
  qed
qed

lemma decisions_unevicted:
  assumes "limiter_inv bucket_of tokens d t l" "limiter_inv bucket_of tokens d t l'"
    and "of_int (burst l) \<le> refill (rps l) (idle l - d)" "rps l = rps l'" "burst l = burst l'" "idle l = idle l'"
    and "in_time d t T evs" "\<And>key u. t \<le> u \<Longrightarrow> avail tokens l key u = avail tokens l' key u"
  shows "decisions R evs l = decisions R (filter is_request evs) l'"
  using assms
proof (induction evs arbitrary: t l l')
  case (Cons ev evs)
  show ?case
  proof (cases ev)
    case (Request k now now')
    with Cons.prems(7) have time: "t \<le> now" "now \<le> now'" "now' \<le> now + d" "in_time d now' T evs"
      by simp_all
    obtain ok m ok' m' where step: "Allow R now now' k l = (ok, m)" "Allow R now now' k l' = (ok', m')"
      by fastforce
    note one = Allow_spec [OF Cons.prems(1) time(1-3) step(1)] and two = Allow_spec [OF Cons.prems(2) time(1-3) step(2)]
    have conf: "rps m = rps l" "burst m = burst l" "idle m = idle l" "rps m' = rps l'" "burst m' = burst l'" "idle m' = idle l'"
      using step [THEN Allow_config] by simp_all
    have now': "avail tokens l k now' = avail tokens l' k now'"
      using Cons.prems(8) time by simp
    then have ok: "ok = ok'"
      using one(2) two(2) by simp
    have "avail tokens m key u = avail tokens m' key u" if "now' \<le> u" for key u
    proof (cases "key = k")
      case True
      then show ?thesis
        using that avail_later(1) [OF one(1), of now' u k] avail_later(1) [OF two(1), of now' u k] one(3) two(3)
          now' ok conf Cons.prems(4,5) by simp
    next
      case False
      then show ?thesis
        using one(4) [OF False] two(4) [OF False] Cons.prems(8) that time by simp
    qed
    then have "decisions R evs m = decisions R (filter is_request evs) m'"
      using Cons.prems(3-6) conf by (intro Cons.IH [OF one(1) two(1)] time(4)) simp_all
    then show ?thesis
      by (simp add: Request step ok)
  next
    case (Evict now)
    have "limiter_inv bucket_of tokens d (max t now) l'"
      using Cons.prems(2) unfolding limiter_inv_def by (metis max.coboundedI1)
    then have "decisions R evs (evictIdle now l) = decisions R (filter is_request evs) l'"
      using Cons.prems(3-8) evictIdle_spec(2) [OF Cons.prems(1,3)]
      by (intro Cons.IH [OF evictIdle_spec(1) [OF Cons.prems(1,3)]]) (simp_all add: Evict)
    then show ?thesis
      by (simp add: Evict)
  qed
qed simp

end

section \<open>An exact token bucket\<close>

text \<open>
  A bucket that keeps its tokens as a real number, which shows that the documented behaviour can be
  met: \<open>eb_last\<close> is the time of the last use, if there was one.
\<close>

record exact_bucket =
  eb_rate :: real
  eb_size :: int
  eb_tokens :: real
  eb_last :: "Time option"

definition eb_at :: "exact_bucket \<Rightarrow> Time \<Rightarrow> real" where
  "eb_at k t = (case eb_last k of
     None \<Rightarrow> of_int (eb_size k)
   | Some u \<Rightarrow> min (of_int (eb_size k)) (eb_tokens k + refill (eb_rate k) (t - u)))"

definition eb_ops :: "exact_bucket rate_ops" where
  "eb_ops =
     \<lparr>rate_NewLimiter = \<lambda>r b. \<lparr>eb_rate = r, eb_size = b, eb_tokens = of_int b, eb_last = None\<rparr>,
      rate_Allow = \<lambda>t k.
        (let x = eb_at k t; ok = 1 \<le> x
         in (ok, k\<lparr>eb_tokens := (if ok then x - 1 else x), eb_last := Some t\<rparr>))\<rparr>"

definition eb_of :: "real \<Rightarrow> int \<Rightarrow> Time \<Rightarrow> exact_bucket \<Rightarrow> bool" where
  "eb_of r b t k \<longleftrightarrow> eb_rate k = r \<and> eb_size k = b \<and> (\<forall>u. eb_last k = Some u \<longrightarrow> u \<le> t)"

interpretation exact: token_bucket eb_ops eb_of eb_at
proof (unfold_locales, goal_cases)
  case (4 r b t k t')
  have cap: "min c (x + y) = min c (min c x + y)" if "0 \<le> y" for c x y :: real
    using that by (simp add: min_def)
  have R: "0 \<le> refill r (t' - t)"
    using 4(2,3) refill_mono [of r 0 "t' - t"] by simp
  have k: "eb_rate k = r" "eb_size k = b"
    using 4(1) by (simp_all add: eb_of_def)
  show ?case
  proof (cases "eb_last k")
    case None
    then show ?thesis
      using R by (simp add: eb_at_def k)
  next
    case (Some u)
    have "refill r (t' - u) = refill r (t - u) + refill r (t' - t)"
      by (simp flip: refill_add)
    then show ?thesis
      using cap [OF R, of "of_int b" "eb_tokens k + refill r (t - u)"] by (simp add: eb_at_def k Some add.assoc)
  qed
next
  case (5 r b t k ok k')
  have "eb_at k t \<le> of_int (eb_size k)"
    by (simp add: eb_at_def split: option.split)
  moreover have "ok \<longleftrightarrow> 1 \<le> eb_at k t" "k' = k\<lparr>eb_tokens := eb_at k t - (if ok then 1 else 0), eb_last := Some t\<rparr>"
    using 5(2) by (auto simp: eb_ops_def Let_def)
  moreover have "eb_at (k\<lparr>eb_tokens := x, eb_last := Some t\<rparr>) t = min (of_int (eb_size k)) x" for x
    by (simp add: eb_at_def)
  ultimately show ?case
    using 5(1) by (simp add: eb_of_def)
qed (auto simp: eb_of_def eb_ops_def eb_at_def)

section \<open>Properties\<close>

lemma New_Limiter_inv:
  "0 \<le> r \<Longrightarrow> 0 \<le> b \<Longrightarrow> limiter_inv bucket_of tokens d t (New_Limiter r b i)"
  "avail tokens (New_Limiter r b i) key t = of_int b"
  by (simp_all add: limiter_inv_def avail_def New_Limiter_def)

lemma New_Limiter_config [simp]:
  "rps (New_Limiter r b i) = r" "burst (New_Limiter r b i) = b" "idle (New_Limiter r b i) = i"
  by (simp_all add: New_Limiter_def)

text \<open>
  Every client stays within its budget: whatever requests arrive from whatever clients between times
  \<open>t\<close> and \<open>T\<close>, and whenever idle buckets are evicted, one client is allowed at most the burst size plus
  the rate times the elapsed time. An idle bucket must have the time to fill up again before it is
  evicted; \<open>d\<close> bounds the time between the two clock readings of a request.
\<close>

theorem client_within_budget:
  assumes "token_bucket R bucket_of tokens" "0 \<le> r" "0 \<le> b" "of_int b \<le> refill r (i - d)" "in_time d t T evs"
  shows "of_nat (count_list (decisions R evs (New_Limiter r b i)) (key, True)) \<le> of_int b + refill r (T - t)"
  using token_bucket.decisions_bound [OF assms(1) New_Limiter_inv(1) [OF assms(2,3)] _ assms(5), of i key]
    assms(4) New_Limiter_inv(2) [of tokens r b i key t] by simp

text \<open>The node's default settings: 5 requests per second, bursts of 20, eviction after 10 minutes.\<close>

definition demo_events :: "limiter_event list" where
  "demo_events = [Request ''a'' 0 10, Request ''b'' 20 30, Evict 700000000000, Request ''a'' 700000000000 700000000010]"

lemma demo_in_time: "in_time 1000 0 700000000010 demo_events"
  by (simp add: demo_events_def)

lemma demo_idle: "of_int 20 \<le> refill 5 (600000000000 - 1000)"
  by (simp add: refill_def)

theorem client_within_budget_witness:
  "of_nat (count_list (decisions eb_ops demo_events (New_Limiter 5 20 600000000000)) (''a'', True))
     \<le> of_int 20 + refill 5 (700000000010 - 0)"
  by (rule client_within_budget [OF exact.token_bucket_axioms _ _ demo_idle demo_in_time]) simp_all

text \<open>
  C24. Eviction is invisible: if an idle bucket has had the time to fill up before it is evicted, the limiter
  answers every request as if buckets were never evicted, so the bound on memory costs no accuracy.
\<close>

theorem eviction_invisible:
  assumes "token_bucket R bucket_of tokens" "0 \<le> r" "0 \<le> b" "of_int b \<le> refill r (i - d)" "in_time d t T evs"
  shows "decisions R evs (New_Limiter r b i) = decisions R (filter is_request evs) (New_Limiter r b i)"
  by (rule token_bucket.decisions_unevicted [OF assms(1) New_Limiter_inv(1) [OF assms(2,3)]
        New_Limiter_inv(1) [OF assms(2,3)] _ _ _ _ assms(5)]) (use assms(4) in simp_all)

theorem eviction_invisible_witness:
  "decisions eb_ops demo_events (New_Limiter 5 20 600000000000)
     = decisions eb_ops (filter is_request demo_events) (New_Limiter 5 20 600000000000)"
  by (rule eviction_invisible [OF exact.token_bucket_axioms _ _ demo_idle demo_in_time]) simp_all

text \<open>The requests of one client, with the evictions.\<close>

fun concerns :: "string \<Rightarrow> limiter_event \<Rightarrow> bool" where
  "concerns key (Request k now now') \<longleftrightarrow> k = key"
| "concerns key (Evict now) \<longleftrightarrow> True"

lemma decisions_concern:
  assumes "rps l' = rps l" "burst l' = burst l" "idle l' = idle l" "buckets l' key = buckets l key"
  shows "filter (\<lambda>p. fst p = key) (decisions R evs l) = decisions R (filter (concerns key) evs) l'"
  using assms
proof (induction evs arbitrary: l l')
  case (Cons ev evs)
  show ?case
  proof (cases ev)
    case (Request k now now')
    obtain ok m ok' m' where step: "Allow R now now' k l = (ok, m)" "Allow R now now' k l' = (ok', m')"
      by fastforce
    have conf: "rps m = rps l" "burst m = burst l" "idle m = idle l" "rps m' = rps l'" "burst m' = burst l'" "idle m' = idle l'"
      using step [THEN Allow_config] by simp_all
    show ?thesis
    proof (cases "k = key")
      case True
      then have "ok' = ok" "buckets m' key = buckets m key"
        using step Cons.prems by (auto simp: Allow_def Let_def split: prod.splits option.splits)
      then show ?thesis
        using Cons.IH [of m' m] Cons.prems conf by (simp add: Request step [unfolded True] True)
    next
      case False
      then have "buckets m key = buckets l key"
        using step(1) by (auto simp: Allow_def Let_def split: prod.splits)
      then show ?thesis
        using False Cons.IH [of l' m] Cons.prems conf by (simp add: Request step)
    qed
  next
    case (Evict now)
    have "buckets (evictIdle now l') key = buckets (evictIdle now l) key"
      by (simp only: evictIdle_bucket Cons.prems)
    then show ?thesis
      using Cons.IH [of "evictIdle now l'" "evictIdle now l"] Cons.prems by (simp add: Evict)
  qed
qed simp

text \<open>
  Clients are independent: the answers that one client gets are exactly those it would get if it were
  the only client, whatever the buckets do.
\<close>

theorem clients_independent:
  "filter (\<lambda>p. fst p = key) (decisions R evs l) = decisions R (filter (concerns key) evs) l"
  by (rule decisions_concern) (rule refl)+

section \<open>Eviction at the boundary\<close>

text \<open>The eviction goroutine does nothing after \<open>done\<close> is closed.\<close>

lemma evictLoop_stops: "evictLoop (cs @ Done # cs') l = evictLoop cs l"
  by (induction cs l rule: evictLoop.induct) simp_all

text \<open>A bucket that has been idle for exactly the time-out is kept.\<close>

lemma evictIdle_boundary:
  assumes "buckets l key = Some b" "now - lastSeen b = idle l"
  shows "buckets (evictIdle now l) key = Some b"
  using assms by (simp add: evictIdle_bucket)

text \<open>
  The hypothesis of the two theorems above is needed: at one request per 1000 seconds, with bursts of 2 and
  the node's time-out of 10 minutes, a client that comes back after the eviction finds a full bucket
  and is allowed 4 requests in 700 seconds, where its budget is 2.7.
\<close>

theorem low_rate_exceeds_budget:
  "let evs = [Request ''a'' 0 0, Request ''a'' 0 0, Evict 700000000000, Request ''a'' 700000000000 700000000000,
              Request ''a'' 700000000000 700000000000]
   in in_time 0 0 700000000000 evs
    \<and> of_int 2 + refill (1 / 1000) (700000000000 - 0)
        < of_nat (count_list (decisions eb_ops evs (New_Limiter (1 / 1000) 2 600000000000)) (''a'', True))"
  by (simp add: Allow_def New_Limiter_def eb_ops_def eb_at_def refill_def evictIdle_def)

end
