(* ===== verification/Go_Net.thy ===== *)
theory Go_Net
  imports Go_Encoding
begin

text \<open>
  What the HTTP layer uses of Go's standard library: \<open>strconv.ParseUint\<close> in base 10 at 64 bits, with the
  overflow tests of the library, and \<open>net.SplitHostPort\<close>.
\<close>

section \<open>Parsing numbers\<close>

definition ErrSyntax :: go_error where
  "ErrSyntax = Sentinel ''invalid syntax''"

definition ErrRange :: go_error where
  "ErrRange = Sentinel ''value out of range''"

declare ErrSyntax_def [err_defs] ErrRange_def [err_defs]

text \<open>
  The loop over the characters: \<open>n\<close> is the value so far; \<open>n >= cutoff\<close> says that \<open>n * 10\<close> overflows, and
  the sum has wrapped around when it is smaller than before.
\<close>

definition cutoff :: uint64 where
  "cutoff = 0xFFFFFFFFFFFFFFFF div 10 + 1"

fun ParseUint_loop :: "uint64 \<Rightarrow> string \<Rightarrow> uint64 res" where
  "ParseUint_loop n [] = Inr n"
| "ParseUint_loop n (c # s) =
     (if \<not> is_digit c then Inl ErrSyntax
      else if cutoff \<le> n then Inl ErrRange
      else (let n1 = n * 10; n2 = n1 + of_nat (code c - 48)
            in if n2 < n1 then Inl ErrRange else ParseUint_loop n2 s))"

definition ParseUint :: "string \<Rightarrow> uint64 res" where
  "ParseUint s = (if s = [] then Inl ErrSyntax else ParseUint_loop 0 s)"

lemma code_digit: "is_digit c \<Longrightarrow> code c - 48 \<le> 9"
  by (auto simp: is_digit_def)

lemma unat_cutoff: "unat cutoff = (2 ^ 64 - 1) div 10 + 1"
  by (simp add: cutoff_def)

text \<open>One round: the tests of the library detect exactly the overflow.\<close>

lemma ParseUint_round:
  assumes "d \<le> 9"
  shows "(cutoff \<le> n \<or> n * 10 + of_nat d < n * 10) \<longleftrightarrow> 18446744073709551616 \<le> 10 * unat n + d"
    "10 * unat n + d < 18446744073709551616 \<Longrightarrow> unat (n * 10 + of_nat d) = 10 * unat n + d"
proof -
  have d: "unat (of_nat d :: uint64) = d"
    using assms by (simp add: unat_of_nat)
  have cut: "cutoff \<le> n \<longleftrightarrow> 1844674407370955162 \<le> unat n"
    by (simp add: word_le_nat_alt unat_cutoff)
  have ten: "unat (n * 10) = 10 * unat n" if "unat n < 1844674407370955162"
    using that by (simp add: unat_word_ariths(2))
  have sum: "unat (n * 10 + of_nat d) = (10 * unat n + d) mod 18446744073709551616" if "unat n < 1844674407370955162"
    using ten [OF that] d by (simp add: unat_word_ariths(1))
  show "unat (n * 10 + of_nat d) = 10 * unat n + d" if "10 * unat n + d < 18446744073709551616"
    using that sum by simp
  show "(cutoff \<le> n \<or> n * 10 + of_nat d < n * 10) \<longleftrightarrow> 18446744073709551616 \<le> 10 * unat n + d"
  proof (cases "unat n < 1844674407370955162")
    case True
    then have "(10 * unat n + d) mod 18446744073709551616 =
        (if 18446744073709551616 \<le> 10 * unat n + d then 10 * unat n + d - 18446744073709551616 else 10 * unat n + d)"
      using assms by (simp add: mod_if [of "10 * unat n + d"] mod_if [of "10 * unat n + d - 18446744073709551616"])
    then show ?thesis
      using True cut assms by (simp add: word_less_nat_alt sum ten) (intro impI, linarith)
  next
    case False
    then show ?thesis
      using cut by simp
  qed
qed

definition value_from :: "nat \<Rightarrow> string \<Rightarrow> nat" where
  "value_from n s = foldl (\<lambda>n c. 10 * n + (code c - 48)) n s"

lemma value_from_simps [simp]:
  "value_from n [] = n" "value_from n (c # s) = value_from (10 * n + (code c - 48)) s"
  by (simp_all add: value_from_def)

lemma value_from_ge: "n \<le> value_from n s"
proof (induction s arbitrary: n)
  case (Cons c s)
  show ?case
    using Cons.IH [of "10 * n + (code c - 48)"] by simp
qed simp

lemma ParseUint_loop_spec:
  "ParseUint_loop n s = Inr v \<longleftrightarrow>
     (\<forall>c\<in>set s. is_digit c) \<and> value_from (unat n) s < 18446744073709551616 \<and> unat v = value_from (unat n) s"
proof (induction s arbitrary: n)
  case Nil
  have "unat n < 18446744073709551616"
    using unsigned_less [of n, where ?'a = nat] by simp
  then show ?case
    by (auto simp: word_unat_eq_iff)
next
  case (Cons c s)
  let ?d = "code c - 48"
  show ?case
  proof (cases "is_digit c")
    case True
    note round = ParseUint_round [OF code_digit [OF True], of n]
    show ?thesis
    proof (cases "10 * unat n + ?d < 18446744073709551616")
      case small: True
      then have "ParseUint_loop n (c # s) = ParseUint_loop (n * 10 + of_nat ?d) s"
        using round(1) True by (auto simp: Let_def)
      then show ?thesis
        using Cons.IH [of "n * 10 + of_nat ?d"] round(2) [OF small] True by simp
    next
      case False
      then have "\<exists>err. ParseUint_loop n (c # s) = Inl err"
        using round(1) True by (auto simp: Let_def)
      then show ?thesis
        using False value_from_ge [of "10 * unat n + ?d" s] by auto
    qed
  qed simp
qed

lemma ParseUint_iff:
  "ParseUint s = Inr v \<longleftrightarrow> s \<noteq> [] \<and> (\<forall>c\<in>set s. is_digit c) \<and> undec s < 2 ^ 64 \<and> v = of_nat (undec s)"
proof -
  have "undec s = value_from (unat (0 :: uint64)) s"
    by (simp add: undec_def value_from_def)
  moreover have "unat v = undec s \<longleftrightarrow> v = of_nat (undec s)" if "undec s < 2 ^ 64"
    using that by (auto simp: word_unat_eq_iff unat_of_nat)
  ultimately show ?thesis
    using ParseUint_loop_spec [of 0 s v] by (auto simp: ParseUint_def)
qed

lemma ParseUint_dec_nat [simp]: "n < 2 ^ 64 \<Longrightarrow> ParseUint (dec_nat n) = Inr (of_nat n)"
  using dec_nat_digits by (auto simp: ParseUint_iff)

section \<open>Host and port\<close>

fun index_byte :: "string \<Rightarrow> char \<Rightarrow> nat option" where
  "index_byte [] b = None"
| "index_byte (c # s) b = (if c = b then Some 0 else map_option Suc (index_byte s b))"

fun last_index_byte :: "string \<Rightarrow> char \<Rightarrow> nat option" where
  "last_index_byte [] b = None"
| "last_index_byte (c # s) b =
     (case last_index_byte s b of
        Some i \<Rightarrow> Some (Suc i)
      | None \<Rightarrow> if c = b then Some 0 else None)"

definition addr_err :: "string \<Rightarrow> go_error" where
  "addr_err why = Errorf why"

text \<open>The final part: no bracket may remain before the host's end, the port follows the last colon.\<close>

definition split_rest :: "string \<Rightarrow> nat \<Rightarrow> nat \<Rightarrow> nat \<Rightarrow> string \<Rightarrow> (string \<times> string) res" where
  "split_rest hostport i j k host =
     (if CHR ''['' \<in> set (drop j hostport) then Inl (addr_err ''unexpected '[' in address'')
      else if CHR '']'' \<in> set (drop k hostport) then Inl (addr_err ''unexpected ']' in address'')
      else Inr (host, drop (i + 1) hostport))"

definition SplitHostPort :: "string \<Rightarrow> (string \<times> string) res" where
  "SplitHostPort hostport =
     (case last_index_byte hostport CHR '':'' of
        None \<Rightarrow> Inl (addr_err ''missing port in address'')
      | Some i \<Rightarrow>
          if hd hostport = CHR ''['' then
            (case index_byte hostport CHR '']'' of
               None \<Rightarrow> Inl (addr_err ''missing ']' in address'')
             | Some e \<Rightarrow>
                 if e + 1 = length hostport then Inl (addr_err ''missing port in address'')
                 else if e + 1 = i then split_rest hostport i 1 (e + 1) (take (e - 1) (drop 1 hostport))
                 else if hostport ! (e + 1) = CHR '':'' then Inl (addr_err ''too many colons in address'')
                 else Inl (addr_err ''missing port in address''))
          else
            (let host = take i hostport
             in if CHR '':'' \<in> set host then Inl (addr_err ''too many colons in address'')
                else split_rest hostport i 0 0 host))"

lemma last_index_byte_append:
  "b \<notin> set t \<Longrightarrow> last_index_byte (s @ b # t) b = Some (length s)"
proof (induction s)
  case Nil
  then have "last_index_byte t b = None"
    by (induction t) auto
  then show ?case by simp
qed simp

lemma index_byte_append: "b \<notin> set s \<Longrightarrow> index_byte (s @ b # t) b = Some (length s)"
  by (induction s) auto

text \<open>The addresses that a TCP listener reports: IPv4 with a port, and bracketed IPv6 with a port.\<close>

definition no_brackets :: "string \<Rightarrow> bool" where
  "no_brackets s \<longleftrightarrow> CHR ''['' \<notin> set s \<and> CHR '']'' \<notin> set s"

lemma SplitHostPort_v4:
  assumes "ip \<noteq> []" "CHR '':'' \<notin> set ip" "no_brackets ip" "CHR '':'' \<notin> set port" "no_brackets port"
  shows "SplitHostPort (ip @ '':'' @ port) = Inr (ip, port)"
proof -
  have "hd ip \<noteq> CHR ''[''"
    using assms(1,3) by (cases ip) (auto simp: no_brackets_def)
  then show ?thesis
    using assms last_index_byte_append [OF assms(4), of ip]
    by (simp add: SplitHostPort_def split_rest_def no_brackets_def)
qed

lemma SplitHostPort_v6:
  assumes "no_brackets ip" "CHR '':'' \<notin> set port" "no_brackets port"
  shows "SplitHostPort (''['' @ ip @ '']:'' @ port) = Inr (ip, port)"
proof -
  have "last_index_byte ((CHR ''['' # ip @ '']'') @ CHR '':'' # port) CHR '':'' = Some (length ip + 2)"
    using last_index_byte_append [OF assms(2), of "CHR ''['' # ip @ '']''"] by simp
  moreover have "index_byte ((CHR ''['' # ip) @ CHR '']'' # '':'' @ port) CHR '']'' = Some (length ip + 1)"
    using assms(1) index_byte_append [of "CHR '']''" "CHR ''['' # ip"] by (simp add: no_brackets_def)
  ultimately show ?thesis
    using assms by (simp add: SplitHostPort_def split_rest_def no_brackets_def)
qed

end
