(* ===== verification/Api.thy ===== *)
theory Api
  imports Service Ratelimit Go_Net
begin

text \<open>
  Package \<open>internal/api\<close>: the HTTP handlers, the routing table and the rate-limiting middleware. A
  request carries its path as the decoded segments that the mux matches; a response carries the value
  handed to the JSON encoder. The JSON decoder of request bodies, the WebSocket library and the clock
  readings are arguments. Every handler is total, and returns the response and the new service.
\<close>

section \<open>Requests and responses\<close>

record Request =
  Method :: string
  Path :: "string list"
  Query :: "(string \<times> string) list"
  RemoteAddr :: string
  Body :: "byte list"

datatype payload =
    P_Status string
  | P_Error string
  | P_Entry LogEntry
  | P_History "LogEntry list" "uint64 option"
  | P_MessageVerification MessageVerification
  | P_Proof InclusionProof
  | P_VerifyResult VerifyResult
  | P_Sync SyncBundle
  | P_ContentKey "byte list"
  | P_Keys "byte list" "byte list"
  | P_Text string

record Response =
  status :: nat
  headers :: "(string \<times> string) list"
  payload :: payload

definition writeJSON :: "nat \<Rightarrow> payload \<Rightarrow> Response" where
  "writeJSON st v = \<lparr>status = st, headers = [(''Content-Type'', ''application/json'')], payload = v\<rparr>"

definition writeError :: "nat \<Rightarrow> string \<Rightarrow> Response" where
  "writeError st msg = writeJSON st (P_Error msg)"

definition defaultHistoryLimit :: uint64 where
  "defaultHistoryLimit = 50"

definition maxHistoryLimit :: uint64 where
  "maxHistoryLimit = 200"

section \<open>Reading requests\<close>

text \<open>The source address of a request, without the port.\<close>

definition clientIP :: "Request \<Rightarrow> string" where
  "clientIP r = (case SplitHostPort (RemoteAddr r) of Inl _ \<Rightarrow> RemoteAddr r | Inr (host, _) \<Rightarrow> host)"

text \<open>\<open>Query().Get\<close> answers the first value of a key and the empty string without one.\<close>

definition query_get :: "Request \<Rightarrow> string \<Rightarrow> string" where
  "query_get r key = (case map_of (Query r) key of None \<Rightarrow> [] | Some v \<Rightarrow> v)"

definition parseUintQuery :: "Request \<Rightarrow> string \<Rightarrow> uint64 \<Rightarrow> uint64 res" where
  "parseUintQuery r key fallback =
     (let raw = query_get r key in if raw = [] then Inr fallback else ParseUint raw)"

definition decodeSignedMessage ::
  "(byte list \<Rightarrow> SignedMessage option) \<Rightarrow> Request \<Rightarrow> string \<Rightarrow> SignedMessage res" where
  "decodeSignedMessage decode r chatID =
     (case decode (Body r) of
        None \<Rightarrow> Inl (Errorf ''invalid JSON body'')
      | Some msg \<Rightarrow>
          if SenderID msg = [] \<or> length (PublicKey msg) = 0 \<or> length (Signature msg) = 0
          then Inl (Errorf ''sender_id, public_key and signature are required'')
          else Inr (msg\<lparr>ChatID := chatID\<rparr>))"

section \<open>The handlers\<close>

definition handleHealth :: "Request \<Rightarrow> Response" where
  "handleHealth r = writeJSON 200 (P_Status ''ok'')"

text \<open>The common body of the three handlers that accept a message.\<close>

definition submit_handler ::
  "ed25519 \<Rightarrow> (byte list \<Rightarrow> SignedMessage option) \<Rightarrow> Time \<Rightarrow> int \<Rightarrow> string \<Rightarrow> Request \<Rightarrow> ('s, 'c, 'b) Messenger \<Rightarrow>
   Response \<times> ('s, 'c, 'b) Messenger" where
  "submit_handler ed decode now maxBytes chatID r svc =
     (case decodeSignedMessage decode r chatID of
        Inl err \<Rightarrow> (writeError 400 (error_text err), svc)
      | Inr msg \<Rightarrow>
          (case Submit ed now msg maxBytes svc of
             (Inl err, svc') \<Rightarrow> (writeError 422 (error_text err), svc')
           | (Inr entry, svc') \<Rightarrow> (writeJSON 201 (P_Entry entry), svc')))"

definition handleSend ::
  "ed25519 \<Rightarrow> (byte list \<Rightarrow> SignedMessage option) \<Rightarrow> Time \<Rightarrow> string \<Rightarrow> Request \<Rightarrow> ('s, 'c, 'b) Messenger \<Rightarrow>
   Response \<times> ('s, 'c, 'b) Messenger" where
  "handleSend ed decode now chatID r svc = submit_handler ed decode now 0 chatID r svc"

definition handleSendPhoto ::
  "ed25519 \<Rightarrow> (byte list \<Rightarrow> SignedMessage option) \<Rightarrow> Time \<Rightarrow> string \<Rightarrow> Request \<Rightarrow> ('s, 'c, 'b) Messenger \<Rightarrow>
   Response \<times> ('s, 'c, 'b) Messenger" where
  "handleSendPhoto ed decode now chatID r svc = submit_handler ed decode now MaxPhotoBytes chatID r svc"

definition handleSendVideo ::
  "ed25519 \<Rightarrow> (byte list \<Rightarrow> SignedMessage option) \<Rightarrow> Time \<Rightarrow> string \<Rightarrow> Request \<Rightarrow> ('s, 'c, 'b) Messenger \<Rightarrow>
   Response \<times> ('s, 'c, 'b) Messenger" where
  "handleSendVideo ed decode now chatID r svc = submit_handler ed decode now MaxVideoBytes chatID r svc"

definition handleHistory :: "string \<Rightarrow> Request \<Rightarrow> ('s, 'c, 'b) Messenger \<Rightarrow> Response" where
  "handleHistory chatID r svc =
     (case parseUintQuery r ''from'' 0 of
        Inl err \<Rightarrow> writeError 400 ''invalid 'from' parameter''
      | Inr from \<Rightarrow>
          (case parseUintQuery r ''limit'' defaultHistoryLimit of
             Inl err \<Rightarrow> writeError 400 ''invalid 'limit' parameter''
           | Inr requested \<Rightarrow>
               if requested = 0 then writeError 400 ''invalid 'limit' parameter''
               else
                 (let limit = (if maxHistoryLimit < requested then maxHistoryLimit else requested)
                  in case svc_History chatID from (sint limit) svc of
                       Inl err \<Rightarrow> writeError 500 (error_text err)
                     | Inr es \<Rightarrow>
                         writeJSON 200 (P_History es
                           (if ulen es = limit \<and> es \<noteq> [] then Some (Sequence (last es) + 1) else None)))))"

text \<open>The handlers with a sequence number in the path.\<close>

definition handleMessage :: "string \<Rightarrow> string \<Rightarrow> ('s, 'c, 'b) Messenger \<Rightarrow> Response" where
  "handleMessage chatID raw svc =
     (case ParseUint raw of
        Inl err \<Rightarrow> writeError 400 ''sequence must be a non-negative integer''
      | Inr sequence \<Rightarrow>
          (case svc_Message chatID sequence svc of
             Inl err \<Rightarrow> if errors_Is err ErrNotFound then writeError 404 ''message not found''
                        else writeError 500 (error_text err)
           | Inr entry \<Rightarrow> writeJSON 200 (P_Entry entry)))"

definition handleVerifyMessage :: "ed25519 \<Rightarrow> string \<Rightarrow> string \<Rightarrow> ('s, 'c, 'b) Messenger \<Rightarrow> Response" where
  "handleVerifyMessage ed chatID raw svc =
     (case ParseUint raw of
        Inl err \<Rightarrow> writeError 400 ''sequence must be a non-negative integer''
      | Inr sequence \<Rightarrow>
          (case svc_VerifyMessage ed chatID sequence svc of
             Inl err \<Rightarrow> if errors_Is err ErrNotFound then writeError 404 ''message not found''
                        else writeError 500 (error_text err)
           | Inr result \<Rightarrow> writeJSON 200 (P_MessageVerification result)))"

definition handleProof :: "string \<Rightarrow> string \<Rightarrow> ('s, 'c, 'b) Messenger \<Rightarrow> Response" where
  "handleProof chatID raw svc =
     (case ParseUint raw of
        Inl err \<Rightarrow> writeError 400 ''sequence must be a non-negative integer''
      | Inr sequence \<Rightarrow>
          (case svc_ProveInclusion chatID sequence svc of
             Inl err \<Rightarrow>
               if errors_Is err ErrNotSnapshotted
               then writeError 409 ''no snapshot yet covers this message (snapshots seal every 100 messages)''
               else writeError 500 (error_text err)
           | Inr proof \<Rightarrow> writeJSON 200 (P_Proof proof)))"

definition handleGenerateContentKey :: "byte list res \<Rightarrow> Response" where
  "handleGenerateContentKey rnd =
     (case NewContentKey rnd of
        Inl err \<Rightarrow> writeError 500 (error_text err)
      | Inr key \<Rightarrow> writeJSON 200 (P_ContentKey key))"

definition handleVerify :: "ed25519 \<Rightarrow> string \<Rightarrow> ('s, 'c, 'b) Messenger \<Rightarrow> Response" where
  "handleVerify ed chatID svc =
     (case svc_Verify ed chatID svc of
        Inl err \<Rightarrow> writeError 500 (error_text err)
      | Inr result \<Rightarrow> writeJSON 200 (P_VerifyResult result))"

definition handleSync :: "string \<Rightarrow> ('s, 'c, 'b) Messenger \<Rightarrow> Response" where
  "handleSync chatID svc =
     (case svc_Sync chatID svc of
        Inl err \<Rightarrow> writeError 500 (error_text err)
      | Inr bundle \<Rightarrow> writeJSON 200 (P_Sync bundle))"

definition HandleGenerateKeys :: "ed25519 \<Rightarrow> byte list \<Rightarrow> Response" where
  "HandleGenerateKeys ed rnd =
     (case GenerateKeyPair ed rnd of
        Inl err \<Rightarrow> writeError 500 (error_text err)
      | Inr (priv, pub) \<Rightarrow> writeJSON 200 (P_Keys pub priv))"

section \<open>The event stream\<close>

text \<open>
  What \<open>select\<close> picks in the loop of \<open>handleStream\<close>, in order: the client is gone, an event arrives (with
  the outcome of writing it), the subscription's channel is closed, or the ticker fires (with the
  outcome of the ping). The loop ends with the handler; \<open>stream_loop\<close> lists the events written.
\<close>

datatype stream_case =
    Client_gone
  | Event_arrives Event bool
  | Events_closed
  | Ticker_fires bool

fun stream_loop :: "string \<Rightarrow> stream_case list \<Rightarrow> Event list" where
  "stream_loop chatID [] = []"
| "stream_loop chatID (Client_gone # cs) = []"
| "stream_loop chatID (Events_closed # cs) = []"
| "stream_loop chatID (Event_arrives evt ok # cs) =
     (if ev_ChatID evt \<noteq> chatID then stream_loop chatID cs
      else if \<not> ok then []
      else evt # stream_loop chatID cs)"
| "stream_loop chatID (Ticker_fires ok # cs) = (if \<not> ok then [] else stream_loop chatID cs)"

text \<open>
  The handler subscribes, upgrades the connection, runs the loop and cancels the subscription on every way
  out. \<open>upgrade\<close> is the reply of a failed upgrade; \<open>others\<close> is what the other requests do to the
  service while the stream is open.
\<close>

definition handleStream ::
  "Response option \<Rightarrow> stream_case list \<Rightarrow> (('s, 'c, 'b) Messenger \<Rightarrow> ('s, 'c, 'b) Messenger) \<Rightarrow> string \<Rightarrow>
   ('s, 'c, 'b) Messenger \<Rightarrow> Response \<times> Event list \<times> ('s, 'c, 'b) Messenger" where
  "handleStream upgrade cases others chatID svc =
     (case svc_Subscribe svc of
        (Inl err, svc') \<Rightarrow> (writeError 500 (error_text err), [], svc')
      | (Inr h, svc') \<Rightarrow>
          (let cancel = (\<lambda>m. let l = Messenger.log m
                            in m\<lparr>Messenger.log := l\<lparr>broker := Cancel (broker_ops l) h (broker l)\<rparr>\<rparr>)
           in case upgrade of
                Some reply \<Rightarrow> (reply, [], cancel svc')
              | None \<Rightarrow> (\<lparr>status = 101, headers = [], payload = P_Text ''Switching Protocols''\<rparr>,
                         stream_loop chatID cases, cancel (others svc'))))"

section \<open>Routing\<close>

datatype route =
    R_Health
  | R_Keys
  | R_ContentKey
  | R_Send string
  | R_History string
  | R_Message string string
  | R_Proof string string
  | R_VerifyMessage string string
  | R_Photo string
  | R_Video string
  | R_Verify string
  | R_Sync string
  | R_Stream string

text \<open>
  The patterns of the mux that match a path, each with its method. A wildcard does not match the empty
  segment after a trailing slash; the mux has cleaned every other empty segment away.
\<close>

fun routes :: "string list \<Rightarrow> (string \<times> route) list" where
  "routes [a] =
     (if a = ''healthz'' then [(''GET'', R_Health)] else if a = ''keys'' then [(''POST'', R_Keys)] else [])"
| "routes [a, b] = (if a = ''keys'' \<and> b = ''content'' then [(''POST'', R_ContentKey)] else [])"
| "routes [a, chatID, b] =
     (if a \<noteq> ''chats'' then []
      else if b = ''messages'' then [(''POST'', R_Send chatID), (''GET'', R_History chatID)]
      else if b = ''photos'' then [(''POST'', R_Photo chatID)]
      else if b = ''videos'' then [(''POST'', R_Video chatID)]
      else if b = ''verify'' then [(''GET'', R_Verify chatID)]
      else if b = ''sync'' then [(''GET'', R_Sync chatID)]
      else if b = ''ws'' then [(''GET'', R_Stream chatID)]
      else [])"
| "routes [a, chatID, b, sequence] =
     (if a = ''chats'' \<and> b = ''messages'' \<and> sequence \<noteq> [] then [(''GET'', R_Message chatID sequence)] else [])"
| "routes [a, chatID, b, sequence, c] =
     (if a = ''chats'' \<and> b = ''messages'' \<and> c = ''proof'' then [(''GET'', R_Proof chatID sequence)]
      else if a = ''chats'' \<and> b = ''messages'' \<and> c = ''verify'' then [(''GET'', R_VerifyMessage chatID sequence)]
      else [])"
| "routes _ = []"

text \<open>A \<open>GET\<close> pattern also serves \<open>HEAD\<close> requests.\<close>

definition method_matches :: "string \<Rightarrow> string \<Rightarrow> bool" where
  "method_matches m pattern \<longleftrightarrow> m = pattern \<or> (pattern = ''GET'' \<and> m = ''HEAD'')"

text \<open>What a request's handling takes from outside: randomness, the clock, the decoder, the stream.\<close>

record ('s, 'c, 'b) env =
  env_scheme :: ed25519
  env_decode :: "byte list \<Rightarrow> SignedMessage option"
  env_now :: Time
  env_key_rnd :: "byte list"
  env_content_rnd :: "byte list res"
  env_upgrade :: "Response option"
  env_cases :: "stream_case list"
  env_others :: "('s, 'c, 'b) Messenger \<Rightarrow> ('s, 'c, 'b) Messenger"

definition serve_route ::
  "('s, 'c, 'b) env \<Rightarrow> Request \<Rightarrow> route \<Rightarrow> ('s, 'c, 'b) Messenger \<Rightarrow> Response \<times> ('s, 'c, 'b) Messenger" where
  "serve_route env r rt svc =
     (case rt of
        R_Health \<Rightarrow> (handleHealth r, svc)
      | R_Keys \<Rightarrow> (HandleGenerateKeys (env_scheme env) (env_key_rnd env), svc)
      | R_ContentKey \<Rightarrow> (handleGenerateContentKey (env_content_rnd env), svc)
      | R_Send chatID \<Rightarrow> handleSend (env_scheme env) (env_decode env) (env_now env) chatID r svc
      | R_History chatID \<Rightarrow> (handleHistory chatID r svc, svc)
      | R_Message chatID sequence \<Rightarrow> (handleMessage chatID sequence svc, svc)
      | R_Proof chatID sequence \<Rightarrow> (handleProof chatID sequence svc, svc)
      | R_VerifyMessage chatID sequence \<Rightarrow> (handleVerifyMessage (env_scheme env) chatID sequence svc, svc)
      | R_Photo chatID \<Rightarrow> handleSendPhoto (env_scheme env) (env_decode env) (env_now env) chatID r svc
      | R_Video chatID \<Rightarrow> handleSendVideo (env_scheme env) (env_decode env) (env_now env) chatID r svc
      | R_Verify chatID \<Rightarrow> (handleVerify (env_scheme env) chatID svc, svc)
      | R_Sync chatID \<Rightarrow> (handleSync chatID svc, svc)
      | R_Stream chatID \<Rightarrow>
          (case handleStream (env_upgrade env) (env_cases env) (env_others env) chatID svc of
             (resp, _, svc') \<Rightarrow> (resp, svc')))"

text \<open>
  The mux: 404 without a matching pattern, 405 when only the method differs. The headers that \<open>net/http\<close>
  adds to these two replies are left out.
\<close>

definition mux ::
  "('s, 'c, 'b) env \<Rightarrow> Request \<Rightarrow> ('s, 'c, 'b) Messenger \<Rightarrow> Response \<times> ('s, 'c, 'b) Messenger" where
  "mux env r svc =
     (if routes (Path r) = [] then
        (\<lparr>status = 404, headers = [], payload = P_Text ''404 page not found''\<rparr>, svc)
      else case find (\<lambda>(m, _). method_matches (Method r) m) (routes (Path r)) of
             None \<Rightarrow> (\<lparr>status = 405, headers = [], payload = P_Text ''Method Not Allowed''\<rparr>, svc)
           | Some (_, rt) \<Rightarrow> serve_route env r rt svc)"

section \<open>The server\<close>

record ('s, 'c, 'b, 'k) Server =
  srv_svc :: "('s, 'c, 'b) Messenger"
  srv_limiter :: "'k Limiter option"

definition WithRateLimit :: "'k Limiter \<Rightarrow> ('s, 'c, 'b, 'k) Server \<Rightarrow> ('s, 'c, 'b, 'k) Server" where
  "WithRateLimit l s = s\<lparr>srv_limiter := Some l\<rparr>"

definition NewServer ::
  "('s, 'c, 'b) Messenger \<Rightarrow> (('s, 'c, 'b, 'k) Server \<Rightarrow> ('s, 'c, 'b, 'k) Server) list \<Rightarrow> ('s, 'c, 'b, 'k) Server" where
  "NewServer svc opts = fold (\<lambda>opt s. opt s) opts \<lparr>srv_svc = svc, srv_limiter = None\<rparr>"

text \<open>\<open>now\<close> and \<open>now'\<close> are the clock readings of the limiter.\<close>

definition rateLimitMiddleware ::
  "'k rate_ops \<Rightarrow> Time \<Rightarrow> Time \<Rightarrow> 'k Limiter \<Rightarrow>
   (Request \<Rightarrow> ('s, 'c, 'b) Messenger \<Rightarrow> Response \<times> ('s, 'c, 'b) Messenger) \<Rightarrow>
   Request \<Rightarrow> ('s, 'c, 'b, 'k) Server \<Rightarrow> Response \<times> ('s, 'c, 'b, 'k) Server" where
  "rateLimitMiddleware R now now' l next_handler r s =
     (if Path r = [''healthz''] then
        (case next_handler r (srv_svc s) of (resp, svc) \<Rightarrow> (resp, s\<lparr>srv_svc := svc\<rparr>))
      else case Allow R now now' (clientIP r) l of
             (ok, l') \<Rightarrow>
               if \<not> ok then
                 ((writeError 429 ''rate limit exceeded'')\<lparr>headers :=
                    [(''Retry-After'', ''1''), (''Content-Type'', ''application/json'')]\<rparr>,
                  s\<lparr>srv_limiter := Some l'\<rparr>)
               else (case next_handler r (srv_svc s) of
                       (resp, svc) \<Rightarrow> (resp, s\<lparr>srv_svc := svc, srv_limiter := Some l'\<rparr>)))"

definition Handler ::
  "'k rate_ops \<Rightarrow> Time \<Rightarrow> Time \<Rightarrow> ('s, 'c, 'b) env \<Rightarrow> Request \<Rightarrow> ('s, 'c, 'b, 'k) Server \<Rightarrow>
   Response \<times> ('s, 'c, 'b, 'k) Server" where
  "Handler R now now' env r s =
     (case srv_limiter s of
        None \<Rightarrow> (case mux env r (srv_svc s) of (resp, svc) \<Rightarrow> (resp, s\<lparr>srv_svc := svc\<rparr>))
      | Some l \<Rightarrow> rateLimitMiddleware R now now' l (mux env) r s)"

end
