(* ===== verification/Rabbitmq.thy ===== *)
theory Rabbitmq
  imports Broker Go_Time "HOL-Library.Monad_Syntax"
begin

text \<open>
  The RabbitMQ adapter of \<open>internal/broker/rabbitmq.go\<close>. The client \<open>amqp091-go\<close> is outside the
  repository: an AMQP connection is a record of the calls that the adapter makes. Publishing builds the
  JSON body and the routing key; subscribing declares, binds and consumes a queue and starts a
  goroutine that decodes deliveries into a buffered channel, modelled as a machine whose steps are the
  choices of its \<open>select\<close> and the reads of the subscriber.
\<close>

section \<open>The AMQP client\<close>

record Publishing =
  pub_ContentType :: string
  pub_DeliveryMode :: nat
  pub_Timestamp :: Time
  pub_Body :: "byte list"

definition amqp_Persistent :: nat where
  "amqp_Persistent = 2"

text \<open>
  The calls on a connection and its channel. The flags are those of the library: durable, auto-delete,
  exclusive or internal, no-wait for declarations; auto-ack, exclusive, no-local, no-wait for a consumer.
\<close>

record 'q amqp_ops =
  amqp_Channel :: "'q \<Rightarrow> go_error option \<times> 'q"
  amqp_ExchangeDeclare :: "string \<Rightarrow> string \<Rightarrow> bool \<Rightarrow> bool \<Rightarrow> bool \<Rightarrow> bool \<Rightarrow> 'q \<Rightarrow> go_error option \<times> 'q"
  amqp_PublishWithContext :: "Time \<Rightarrow> string \<Rightarrow> string \<Rightarrow> bool \<Rightarrow> bool \<Rightarrow> Publishing \<Rightarrow> 'q \<Rightarrow> go_error option \<times> 'q"
  amqp_QueueDeclare :: "string \<Rightarrow> bool \<Rightarrow> bool \<Rightarrow> bool \<Rightarrow> bool \<Rightarrow> 'q \<Rightarrow> string res \<times> 'q"
  amqp_QueueBind :: "string \<Rightarrow> string \<Rightarrow> string \<Rightarrow> bool \<Rightarrow> 'q \<Rightarrow> go_error option \<times> 'q"
  amqp_Consume :: "string \<Rightarrow> string \<Rightarrow> bool \<Rightarrow> bool \<Rightarrow> bool \<Rightarrow> bool \<Rightarrow> 'q \<Rightarrow> go_error option \<times> 'q"
  amqp_Cancel :: "string \<Rightarrow> bool \<Rightarrow> 'q \<Rightarrow> go_error option \<times> 'q"
  amqp_ch_Close :: "'q \<Rightarrow> go_error option \<times> 'q"
  amqp_conn_Close :: "'q \<Rightarrow> go_error option \<times> 'q"

section \<open>Events as JSON\<close>

text \<open>\<open>json.Marshal\<close> of an \<open>Event\<close>: the fields in the order of the struct, the number in decimal.\<close>

definition event_json :: "Event \<Rightarrow> string" where
  "event_json e =
     ''{'' @ json_string ''kind'' @ '':'' @ json_string (EventKind_string (Kind e))
     @ '','' @ json_string ''chat_id'' @ '':'' @ json_string (ev_ChatID e)
     @ '','' @ json_string ''sequence'' @ '':'' @ dec_nat (unat (ev_Sequence e))
     @ '','' @ json_string ''entry_hash'' @ '':'' @ json_string (ev_EntryHash e) @ ''}''"

definition event_utf8 :: "Event \<Rightarrow> bool" where
  "event_utf8 e \<longleftrightarrow> utf8_valid (ev_ChatID e) \<and> utf8_valid (ev_EntryHash e)"

section \<open>The adapter\<close>

definition exchangeName :: string where
  "exchangeName = ''messenger.log.events''"

text \<open>
  A subscription of the adapter: the consumer's tag, whether \<open>done\<close> is closed, whether the goroutine
  still runs, its output channel, and what the subscriber has read from it.
\<close>

record rabbit_sub =
  sub_tag :: string
  sub_done :: bool
  sub_running :: bool
  sub_out :: chan
  sub_read :: "Event list"

record 'q RabbitMQ =
  amqp :: 'q
  subs :: "rabbit_sub list"

definition NewRabbitMQ :: "'q amqp_ops \<Rightarrow> (string \<Rightarrow> 'q res) \<Rightarrow> string \<Rightarrow> 'q RabbitMQ res" where
  "NewRabbitMQ A Dial url =
     (case Dial url of
        Inl err \<Rightarrow> Inl err
      | Inr conn \<Rightarrow>
          (case amqp_Channel A conn of
             (Some err, conn') \<Rightarrow> Inl err
           | (None, conn') \<Rightarrow>
               (case amqp_ExchangeDeclare A exchangeName ''topic'' True False False False conn' of
                  (Some err, conn'') \<Rightarrow> Inl err
                | (None, conn'') \<Rightarrow> Inr \<lparr>amqp = conn'', subs = []\<rparr>)))"

text \<open>A value from the constructor has both a channel and a connection.\<close>

definition RabbitMQ_Close :: "'q amqp_ops \<Rightarrow> 'q RabbitMQ \<Rightarrow> go_error option \<times> 'q RabbitMQ" where
  "RabbitMQ_Close A r =
     (let (_, q) = amqp_ch_Close A (amqp r); (err, q') = amqp_conn_Close A q in (err, r\<lparr>amqp := q'\<rparr>))"

definition routing_key :: "Event \<Rightarrow> string" where
  "routing_key e = EventKind_string (Kind e) @ ''.'' @ ev_ChatID e"

definition rabbit_Publish :: "'q amqp_ops \<Rightarrow> Time \<Rightarrow> Event \<Rightarrow> 'q RabbitMQ \<Rightarrow> go_error option \<times> 'q RabbitMQ" where
  "rabbit_Publish A now event r =
     (let body = bytes_of (event_json event);
          (err, q) = amqp_PublishWithContext A (5 * 1000000000) exchangeName (routing_key event) False False
            \<lparr>pub_ContentType = ''application/json'', pub_DeliveryMode = amqp_Persistent, pub_Timestamp = now,
             pub_Body = body\<rparr> (amqp r)
      in (err, r\<lparr>amqp := q\<rparr>))"

definition rabbit_Subscribe :: "'q amqp_ops \<Rightarrow> 'q RabbitMQ \<Rightarrow> subscription res \<times> 'q RabbitMQ" where
  "rabbit_Subscribe A r =
     (case amqp_QueueDeclare A [] False True True False (amqp r) of
        (Inl err, q) \<Rightarrow> (Inl err, r\<lparr>amqp := q\<rparr>)
      | (Inr name, q) \<Rightarrow>
          (case amqp_QueueBind A name ''#'' exchangeName False q of
             (Some err, q') \<Rightarrow> (Inl err, r\<lparr>amqp := q'\<rparr>)
           | (None, q') \<Rightarrow>
               (let consumerTag = ''messenger-sub-'' @ name
                in case amqp_Consume A name consumerTag True True False False q' of
                     (Some err, q'') \<Rightarrow> (Inl err, r\<lparr>amqp := q''\<rparr>)
                   | (None, q'') \<Rightarrow>
                       (Inr (length (subs r), 0),
                        r\<lparr>amqp := q'', subs := subs r @
                          [\<lparr>sub_tag = consumerTag, sub_done = False, sub_running = True,
                            sub_out = make_chan 64, sub_read = []\<rparr>]\<rparr>))))"

text \<open>A call of the cancel function: closing \<open>done\<close> a second time panics.\<close>

definition rabbit_cancel_run :: "'q amqp_ops \<Rightarrow> nat \<Rightarrow> 'q RabbitMQ \<Rightarrow> 'q RabbitMQ option" where
  "rabbit_cancel_run A i r =
     (let s = subs r ! i
      in if sub_done s then None
         else Some (r\<lparr>subs := (subs r)[i := s\<lparr>sub_done := True\<rparr>],
                      amqp := snd (amqp_Cancel A (sub_tag s) False (amqp r))\<rparr>))"

definition rabbit_Cancel :: "'q amqp_ops \<Rightarrow> subscription \<Rightarrow> 'q RabbitMQ \<Rightarrow> 'q RabbitMQ" where
  "rabbit_Cancel A h r = (case rabbit_cancel_run A (fst h) r of Some r' \<Rightarrow> r' | None \<Rightarrow> r)"

definition RabbitMQ_ops :: "'q amqp_ops \<Rightarrow> Time \<Rightarrow> 'q RabbitMQ broker_ops" where
  "RabbitMQ_ops A now =
     \<lparr>Publish = rabbit_Publish A now, Subscribe = rabbit_Subscribe A, Cancel = rabbit_Cancel A\<rparr>"

section \<open>The forwarding goroutine\<close>

text \<open>
  One step: a delivery that \<open>select\<close> picked, the end of the deliveries, a closed \<open>done\<close>, or a read by the
  subscriber. A step of a goroutine that has ended, or a pick of \<open>done\<close> while it is open, changes
  nothing; \<open>None\<close> is a panic.
\<close>

datatype forward_event =
    Delivery "byte list"
  | Deliveries_closed
  | Done_closed
  | Subscriber_reads

definition forward_step ::
  "(byte list \<Rightarrow> Event option) \<Rightarrow> forward_event \<Rightarrow> rabbit_sub \<Rightarrow> rabbit_sub option" where
  "forward_step unmarshal ev s =
     (case ev of
        Delivery body \<Rightarrow>
          if \<not> sub_running s then Some s
          else (case unmarshal body of
                  None \<Rightarrow> Some s
                | Some e \<Rightarrow> map_option (\<lambda>c. s\<lparr>sub_out := c\<rparr>) (select_send e (sub_out s)))
      | Deliveries_closed \<Rightarrow>
          if \<not> sub_running s then Some s
          else map_option (\<lambda>c. s\<lparr>sub_running := False, sub_out := c\<rparr>) (close_chan (sub_out s))
      | Done_closed \<Rightarrow>
          if \<not> sub_running s \<or> \<not> sub_done s then Some s
          else map_option (\<lambda>c. s\<lparr>sub_running := False, sub_out := c\<rparr>) (close_chan (sub_out s))
      | Subscriber_reads \<Rightarrow>
          (case recv (sub_out s) of
             (Received e, c) \<Rightarrow> Some (s\<lparr>sub_out := c, sub_read := sub_read s @ [e]\<rparr>)
           | (_, c) \<Rightarrow> Some s))"

fun forward :: "(byte list \<Rightarrow> Event option) \<Rightarrow> forward_event list \<Rightarrow> rabbit_sub \<Rightarrow> rabbit_sub option" where
  "forward unmarshal [] s = Some s"
| "forward unmarshal (ev # evs) s =
     (case forward_step unmarshal ev s of None \<Rightarrow> None | Some s' \<Rightarrow> forward unmarshal evs s')"

text \<open>The events of the deliveries, in order.\<close>

definition event_of :: "(byte list \<Rightarrow> Event option) \<Rightarrow> forward_event \<Rightarrow> Event list" where
  "event_of unmarshal ev =
     (case ev of Delivery body \<Rightarrow> (case unmarshal body of Some e \<Rightarrow> [e] | None \<Rightarrow> []) | _ \<Rightarrow> [])"

definition delivered_events :: "(byte list \<Rightarrow> Event option) \<Rightarrow> forward_event list \<Rightarrow> Event list" where
  "delivered_events unmarshal evs = concat (map (event_of unmarshal) evs)"

text \<open>What a subscriber has seen or will still see.\<close>

definition sub_stream :: "rabbit_sub \<Rightarrow> Event list" where
  "sub_stream s = sub_read s @ buf (sub_out s)"

definition sub_ok :: "rabbit_sub \<Rightarrow> bool" where
  "sub_ok s \<longleftrightarrow> (closed (sub_out s) \<longleftrightarrow> \<not> sub_running s) \<and> chan_cap (sub_out s) = 64 \<and> length (buf (sub_out s)) \<le> 64"

definition taken :: "(byte list \<Rightarrow> Event option) \<Rightarrow> forward_event \<Rightarrow> rabbit_sub \<Rightarrow> Event list" where
  "taken u ev s = (case ev of
     Delivery body \<Rightarrow> (case u body of
       Some e \<Rightarrow> if sub_running s \<and> length (buf (sub_out s)) < 64 then [e] else []
     | None \<Rightarrow> [])
   | _ \<Rightarrow> [])"

lemma forward_step_ok:
  assumes "sub_ok s"
  shows "case forward_step u ev s of None \<Rightarrow> False
    | Some s' \<Rightarrow> sub_ok s' \<and> sub_done s' = sub_done s \<and> sub_stream s' = sub_stream s @ taken u ev s"
proof (cases ev)
  case (Delivery body)
  with assms show ?thesis
    by (auto simp: forward_step_def taken_def sub_ok_def sub_stream_def select_send_def split: option.split)
next
  case Subscriber_reads
  with assms show ?thesis
    by (cases "buf (sub_out s)") (auto simp: forward_step_def taken_def sub_ok_def sub_stream_def recv_def)
qed (use assms in \<open>auto simp: forward_step_def taken_def sub_ok_def sub_stream_def close_chan_def\<close>)

lemma taken_subseq: "subseq (taken u ev s) (event_of u ev)"
  by (auto simp: taken_def event_of_def split: forward_event.split option.split)

lemma delivered_events_simps [simp]:
  "delivered_events u [] = []" "delivered_events u (ev # evs) = event_of u ev @ delivered_events u evs"
  by (simp_all add: delivered_events_def)

lemma forward_ok:
  assumes "sub_ok s"
  shows "\<exists>s' xs. forward u evs s = Some s' \<and> sub_ok s' \<and> sub_stream s' = sub_stream s @ xs
    \<and> subseq xs (delivered_events u evs)"
  using assms
proof (induction evs arbitrary: s)
  case (Cons ev evs)
  obtain s1 where s1: "forward_step u ev s = Some s1" "sub_ok s1" "sub_stream s1 = sub_stream s @ taken u ev s"
    using forward_step_ok [OF Cons.prems, of u ev] by (auto split: option.splits)
  from Cons.IH [OF s1(2)] obtain s' xs where "forward u evs s1 = Some s'" "sub_ok s'"
    "sub_stream s' = sub_stream s1 @ xs" "subseq xs (delivered_events u evs)"
    by blast
  then show ?case
    using s1 list_emb_append_mono [OF taken_subseq [of u ev s]]
    by (intro exI [of _ s'] exI [of _ "taken u ev s @ xs"]) simp
qed simp

text \<open>Nothing is lost while the buffer has room and the goroutine runs.\<close>

lemma forward_step_running:
  assumes "sub_ok s" "forward_step u ev s = Some s'" "sub_running s'"
  shows "sub_running s" "length (buf (sub_out s')) \<le> length (buf (sub_out s)) + length (event_of u ev)"
    "length (buf (sub_out s)) + length (event_of u ev) \<le> 64 \<Longrightarrow> taken u ev s = event_of u ev"
proof -
  show run: "sub_running s"
    using assms(2,3)
    by (auto simp: forward_step_def split: forward_event.splits if_splits option.splits received.splits prod.splits)
  show "length (buf (sub_out s')) \<le> length (buf (sub_out s)) + length (event_of u ev)"
    using assms(2)
    by (auto simp: forward_step_def event_of_def select_send_def close_chan_def recv_def
        split: forward_event.splits if_splits option.splits received.splits prod.splits list.splits)
  show "taken u ev s = event_of u ev" if "length (buf (sub_out s)) + length (event_of u ev) \<le> 64"
    using that run by (auto simp: taken_def event_of_def split: forward_event.splits option.splits)
qed

lemma forward_ended: "sub_ok s \<Longrightarrow> \<not> sub_running s \<Longrightarrow> forward u evs s = Some s' \<Longrightarrow> \<not> sub_running s'"
proof (induction evs arbitrary: s)
  case (Cons ev evs)
  obtain s1 where s1: "forward_step u ev s = Some s1" "sub_ok s1"
    using forward_step_ok [OF Cons.prems(1), of u ev] by (auto split: option.splits)
  with forward_step_running(1) [OF Cons.prems(1) s1(1)] Cons show ?case
    by auto
qed simp

lemma forward_lossless:
  assumes "sub_ok s" "forward u evs s = Some s'" "sub_running s'"
    and "length (buf (sub_out s)) + length (delivered_events u evs) \<le> 64"
  shows "sub_stream s' = sub_stream s @ delivered_events u evs"
  using assms
proof (induction evs arbitrary: s)
  case (Cons ev evs)
  obtain s1 where s1: "forward_step u ev s = Some s1" "sub_ok s1" "sub_stream s1 = sub_stream s @ taken u ev s"
    using forward_step_ok [OF Cons.prems(1), of u ev] by (auto split: option.splits)
  have rest: "forward u evs s1 = Some s'"
    using Cons.prems(2) s1(1) by simp
  then have "sub_running s1"
    using forward_ended [OF s1(2)] Cons.prems(3) by blast
  note step = forward_step_running [OF Cons.prems(1) s1(1) this]
  have "sub_stream s' = sub_stream s1 @ delivered_events u evs"
    using Cons.prems(4) step(2) by (intro Cons.IH [OF s1(2) rest Cons.prems(3)]) simp
  then show ?case
    using s1(3) step(3) Cons.prems(4) by simp
qed simp

section \<open>Reading an event back\<close>

text \<open>A reader for the bodies that \<open>Publish\<close> writes; a full decoder accepts more.\<close>

definition expect :: "string \<Rightarrow> string \<Rightarrow> string option" where
  "expect p s = (if take (length p) s = p then Some (drop (length p) s) else None)"

fun kind_of :: "string \<Rightarrow> EventKind option" where
  "kind_of s = (if s = ''entry_appended'' then Some EntryAppended
     else if s = ''snapshot_created'' then Some SnapshotCreated else None)"

definition read_event :: "byte list \<Rightarrow> Event option" where
  "read_event body =
     do {
       s1 \<leftarrow> expect (''{'' @ json_string ''kind'' @ '':'' @ [dquote]) (string_of body);
       (kind, s2) \<leftarrow> json_read s1;
       k \<leftarrow> kind_of kind;
       s3 \<leftarrow> expect ('','' @ json_string ''chat_id'' @ '':'' @ [dquote]) s2;
       (chat, s4) \<leftarrow> json_read s3;
       s5 \<leftarrow> expect ('','' @ json_string ''sequence'' @ '':'') s4;
       let n = takeWhile is_digit s5;
       s6 \<leftarrow> expect ('','' @ json_string ''entry_hash'' @ '':'' @ [dquote]) (dropWhile is_digit s5);
       (hash, s7) \<leftarrow> json_read s6;
       if s7 = ''}'' then Some \<lparr>Kind = k, ev_ChatID = chat, ev_Sequence = word_of_nat (undec n), ev_EntryHash = hash\<rparr>
       else None
     }"

lemma expect_append [simp]: "expect p (p @ s) = Some s"
  by (simp add: expect_def)

lemma read_event_json:
  assumes "event_utf8 e"
  shows "read_event (bytes_of (event_json e)) = Some e"
proof -
  define P where "P = ''{'' @ json_string ''kind'' @ '':'' @ [dquote]"
  define C where "C = '','' @ json_string ''chat_id'' @ '':'' @ [dquote]"
  define N where "N = '','' @ json_string ''sequence'' @ '':''"
  define H where "H = '','' @ json_string ''entry_hash'' @ '':'' @ [dquote]"
  let ?n = "dec_nat (unat (ev_Sequence e))" and ?h = "json_escape (ev_EntryHash e) @ dquote # ''}''"
  have shape: "event_json e = P @ (json_escape (EventKind_string (Kind e)) @ dquote # (C @
      (json_escape (ev_ChatID e) @ dquote # (N @ (?n @ (H @ ?h))))))"
    by (simp add: event_json_def P_def C_def N_def H_def json_string_def)
  have "hd (H @ ?h) = CHR '',''" "H @ ?h \<noteq> []"
    by (simp_all add: H_def)
  then have num: "takeWhile is_digit (?n @ (H @ ?h)) = ?n" "dropWhile is_digit (?n @ (H @ ?h)) = H @ ?h"
    using dec_nat_digits [of _ "unat (ev_Sequence e)"]
    by (auto simp: H_def takeWhile_append dropWhile_append is_digit_def)
  have kind: "utf8_valid (EventKind_string (Kind e))" "kind_of (EventKind_string (Kind e)) = Some (Kind e)"
    by (cases "Kind e"; simp add: utf8_valid_ascii)+
  have "word_of_nat (unat (ev_Sequence e)) = ev_Sequence e"
    by simp
  then show ?thesis
    using assms kind
    unfolding read_event_def string_of_bytes_of shape P_def [symmetric] C_def [symmetric] N_def [symmetric] H_def [symmetric]
    by (simp only: expect_append json_read_escape num undec_dec_nat event_utf8_def Option.bind.simps prod.case Let_def) simp
qed

section \<open>Properties\<close>

text \<open>The bodies of the deliveries, in order.\<close>

definition bodies :: "forward_event list \<Rightarrow> byte list list" where
  "bodies evs = concat (map (\<lambda>ev. case ev of Delivery body \<Rightarrow> [body] | _ \<Rightarrow> []) evs)"

lemma delivered_bodies: "delivered_events u evs = concat (map (\<lambda>b. case u b of Some e \<Rightarrow> [e] | None \<Rightarrow> []) (bodies evs))"
  by (induction evs) (simp_all add: delivered_events_def bodies_def event_of_def split: forward_event.split)

lemma delivered_published:
  assumes "\<And>e. event_utf8 e \<Longrightarrow> u (bytes_of (event_json e)) = Some e"
    and "bodies evs = map (\<lambda>e. bytes_of (event_json e)) es" "\<forall>e\<in>set es. event_utf8 e"
  shows "delivered_events u evs = es"
proof -
  have "concat (map (\<lambda>b. case u b of Some e \<Rightarrow> [e] | None \<Rightarrow> []) (map (\<lambda>e. bytes_of (event_json e)) es)) = es"
    using assms(3) by (induction es) (simp_all add: assms(1))
  then show ?thesis
    by (simp add: delivered_bodies assms(2))
qed

lemma rabbit_Subscribe_new:
  assumes "rabbit_Subscribe A r = (Inr (i, x), r')"
  shows "sub_ok (subs r' ! i)" "sub_running (subs r' ! i)" "sub_stream (subs r' ! i) = []" "buf (sub_out (subs r' ! i)) = []"
  using assms
  by (auto simp: rabbit_Subscribe_def sub_ok_def sub_stream_def make_chan_def Let_def
      split: prod.splits sum.splits option.splits)


text \<open>A connection on which every call succeeds, and a subscription on it.\<close>

definition quiet_amqp :: "unit amqp_ops" where
  "quiet_amqp =
     \<lparr>amqp_Channel = \<lambda>q. (None, q), amqp_ExchangeDeclare = \<lambda>a b c d e f q. (None, q),
      amqp_PublishWithContext = \<lambda>t a b c d p q. (None, q), amqp_QueueDeclare = \<lambda>a b c d e q. (Inr ''q1'', q),
      amqp_QueueBind = \<lambda>a b c d q. (None, q), amqp_Consume = \<lambda>a b c d e f q. (None, q),
      amqp_Cancel = \<lambda>a b q. (None, q), amqp_ch_Close = \<lambda>q. (None, q), amqp_conn_Close = \<lambda>q. (None, q)\<rparr>"

definition sample_event :: Event where
  "sample_event = \<lparr>Kind = EntryAppended, ev_ChatID = ''c1'', ev_Sequence = 7, ev_EntryHash = ''ab''\<rparr>"


text \<open>
  Cancelling: the first call of a subscription's cancel function succeeds and the goroutine then ends
  at its next look at \<open>done\<close>, closing the channel; a second call panics, unlike that of the
  in-process broker.
\<close>

theorem rabbit_cancel_once:
  assumes "rabbit_Subscribe A r = (Inr (i, x), r')"
  shows "\<exists>r''. rabbit_cancel_run A i r' = Some r'' \<and> rabbit_cancel_run A i r'' = None
    \<and> (\<exists>s. forward_step u Done_closed (subs r'' ! i) = Some s \<and> \<not> sub_running s \<and> closed (sub_out s))"
proof -
  have "sub_ok (subs r' ! i)" "sub_running (subs r' ! i)" "i < length (subs r')" "\<not> sub_done (subs r' ! i)"
    using rabbit_Subscribe_new [OF assms] assms
    by (auto simp: rabbit_Subscribe_def Let_def split: prod.splits sum.splits option.splits)
  then show ?thesis
    by (simp add: rabbit_cancel_run_def Let_def forward_step_def sub_ok_def close_chan_def)
qed

theorem rabbit_cancel_once_witness:
  "\<exists>r' r''. rabbit_Subscribe quiet_amqp \<lparr>amqp = (), subs = []\<rparr> = (Inr (0, 0), r')
     \<and> rabbit_cancel_run quiet_amqp 0 r' = Some r'' \<and> rabbit_cancel_run quiet_amqp 0 r'' = None"
proof -
  obtain r' where sub: "rabbit_Subscribe quiet_amqp \<lparr>amqp = (), subs = []\<rparr> = (Inr (0, 0), r')"
    by (simp add: rabbit_Subscribe_def quiet_amqp_def)
  then show ?thesis
    using rabbit_cancel_once [OF sub, of read_event] by blast
qed

end
