(* ===== verification/Api_Props.thy ===== *)
theory Api_Props
  imports Api Rabbitmq
begin

text \<open>
  Correctness of the HTTP layer over a reachable in-memory node: what each handler answers, that a
  message is only ever stored in the chat of the path, that paging through a history ends and returns
  it whole, that no read fails, and that clients cannot exceed their budget.
\<close>

section \<open>Handlers over a reachable log\<close>

lemmas response_defs = writeJSON_def writeError_def

lemma response_simps [simp]:
  "status (writeJSON st v) = st" "payload (writeJSON st v) = v" "status (writeError st msg) = st"
  "payload (writeError st msg) = P_Error msg"
  by (simp_all add: response_defs)

lemma Submit_reachable:
  assumes "reachable ed (Messenger.log svc)" "mem_ents (store (Messenger.log svc)) (ChatID m) = es"
  shows "if 0 < cap \<and> cap < int (length (Content m)) \<or> \<not> acceptable ed m
    then \<exists>err. Submit ed now m cap svc = (Inl err, svc)
    else \<exists>svc'. Submit ed now m cap svc = (Inr (next_entry es m), svc')
      \<and> mem_ents (store (Messenger.log svc')) = (mem_ents (store (Messenger.log svc)))(ChatID m := es @ [next_entry es m])"
proof (cases "0 < cap \<and> cap < int (length (Content m)) \<or> \<not> acceptable ed m")
  case True
  then show ?thesis
    by (auto simp: Submit_def Append_rejects)
next
  case False
  then obtain l' where "Append ed now m (Messenger.log svc) = (Inr (next_entry es m), l')"
    "mem_ents (store l') = (mem_ents (store (Messenger.log svc)))(ChatID m := es @ [next_entry es m])"
    using Append_effects [OF assms(1) _ assms(2), of now] by metis
  with False show ?thesis
    by (auto simp: Submit_def)
qed

lemma submit_handler_cases:
  assumes "reachable ed (Messenger.log svc)" "mem_ents (store (Messenger.log svc)) c = es"
    and "submit_handler ed decode now cap c r svc = (resp, svc')"
  obtains (bad) "status resp = 400" "svc' = svc"
      "\<nexists>m. decode (Body r) = Some m \<and> SenderID m \<noteq> [] \<and> PublicKey m \<noteq> [] \<and> Signature m \<noteq> []"
  | (refused) m where "status resp = 422" "svc' = svc" "decode (Body r) = Some m"
      "0 < cap \<and> cap < int (length (Content m)) \<or> \<not> acceptable ed (m\<lparr>ChatID := c\<rparr>)"
  | (stored) m where "status resp = 201" "decode (Body r) = Some m" "SenderID m \<noteq> []"
      "\<not> (0 < cap \<and> cap < int (length (Content m)))" "acceptable ed (m\<lparr>ChatID := c\<rparr>)"
      "payload resp = P_Entry (next_entry es (m\<lparr>ChatID := c\<rparr>))"
      "mem_ents (store (Messenger.log svc')) =
         (mem_ents (store (Messenger.log svc)))(c := es @ [next_entry es (m\<lparr>ChatID := c\<rparr>)])"
proof (cases "\<exists>m. decode (Body r) = Some m \<and> SenderID m \<noteq> [] \<and> PublicKey m \<noteq> [] \<and> Signature m \<noteq> []")
  case False
  then have "\<exists>err. decodeSignedMessage decode r c = Inl err"
    by (auto simp: decodeSignedMessage_def split: option.splits)
  then show thesis
    using assms(3) False bad by (auto simp: submit_handler_def)
next
  case True
  then obtain m where m: "decode (Body r) = Some m" "SenderID m \<noteq> []" "PublicKey m \<noteq> []" "Signature m \<noteq> []"
    by blast
  then have dec: "decodeSignedMessage decode r c = Inr (m\<lparr>ChatID := c\<rparr>)"
    by (simp add: decodeSignedMessage_def)
  have es: "mem_ents (store (Messenger.log svc)) (ChatID (m\<lparr>ChatID := c\<rparr>)) = es"
    using assms(2) by simp
  show thesis
  proof (cases "0 < cap \<and> cap < int (length (Content m)) \<or> \<not> acceptable ed (m\<lparr>ChatID := c\<rparr>)")
    case True
    then have "\<exists>err. Submit ed now (m\<lparr>ChatID := c\<rparr>) cap svc = (Inl err, svc)"
      using Submit_reachable [OF assms(1) es, of cap now] by simp
    then show thesis
      using refused [of m] True m(1) assms(3) dec by (auto simp: submit_handler_def)
  next
    case False
    then have "\<exists>svc'. Submit ed now (m\<lparr>ChatID := c\<rparr>) cap svc = (Inr (next_entry es (m\<lparr>ChatID := c\<rparr>)), svc')
      \<and> mem_ents (store (Messenger.log svc')) = (mem_ents (store (Messenger.log svc)))(c := es @ [next_entry es (m\<lparr>ChatID := c\<rparr>)])"
      using Submit_reachable [OF assms(1) es, of cap now] by (auto split: if_splits)
    then show thesis
      using stored [of m] False m assms(3) dec by (auto simp: submit_handler_def)
  qed
qed

section \<open>Reading\<close>

lemma handleHistory_page:
  assumes "store_ops (Messenger.log svc) = InMemoryStorage_ops" "mem_ok (store (Messenger.log svc))"
    and "parseUintQuery r ''from'' 0 = Inr from" "parseUintQuery r ''limit'' defaultHistoryLimit = Inr k" "0 < unat k"
    and "min (unat k) 200 = n" "take n (drop (unat from) (mem_ents (store (Messenger.log svc)) c)) = page"
  shows "handleHistory c r svc = writeJSON 200 (P_History page
    (if length page = n then Some (Sequence (last page) + 1) else None))"
proof -
  let ?limit = "if maxHistoryLimit < k then maxHistoryLimit else k" and ?es = "mem_ents (store (Messenger.log svc)) c"
  have lim: "?limit = to_uint64 n" "0 < n" "n \<le> 200"
    using assms(5,6) by (auto simp: maxHistoryLimit_def word_less_nat_alt to_uint64_def word_unat_eq_iff unat_of_nat)
  then have "n < max_slice"
    by (simp add: max_slice_def)
  then have sint: "sint ?limit = int n"
    using lim(1) by simp
  have hist: "svc_History c from (sint ?limit) svc = Inr page"
    unfolding sint svc_History_def History_def using assms(1,2,7) lim(2) by (auto simp: mem_since)
  have "length page < max_slice"
    using assms(7) \<open>n < max_slice\<close> by auto
  then have "ulen page = ?limit \<longleftrightarrow> length page = n"
    using lim(1) \<open>n < max_slice\<close> by (simp add: ulen_eq_iff eq_commute [of n])
  moreover have "length page = n \<Longrightarrow> page \<noteq> []"
    using lim(2) by auto
  moreover have "k \<noteq> 0"
    using assms(5) by auto
  ultimately show ?thesis
    using hist assms(3,4) by (simp add: handleHistory_def Let_def)
qed

section \<open>Walking through a history\<close>

text \<open>
  A client that reads a chat page by page: it asks for \<open>k\<close> entries, and follows \<open>next_from\<close> until it is
  null. \<open>None\<close> is a walk that does not end within \<open>n\<close> requests or gets anything but a page.
\<close>

definition page_request :: "string \<Rightarrow> uint64 \<Rightarrow> nat \<Rightarrow> Request" where
  "page_request c from k =
     \<lparr>Method = ''GET'', Path = [''chats'', c, ''messages''],
      Query = [(''from'', dec_nat (unat from)), (''limit'', dec_nat k)], RemoteAddr = ''10.0.0.1:999'', Body = []\<rparr>"

fun walk :: "nat \<Rightarrow> string \<Rightarrow> nat \<Rightarrow> uint64 \<Rightarrow> ('s, 'c, 'b) Messenger \<Rightarrow> LogEntry list option" where
  "walk 0 c k from svc = None"
| "walk (Suc n) c k from svc =
     (case payload (handleHistory c (page_request c from k) svc) of
        P_History es None \<Rightarrow> Some es
      | P_History es (Some f) \<Rightarrow> map_option (\<lambda>rest. es @ rest) (walk n c k f svc)
      | _ \<Rightarrow> None)"

lemma page_request_query:
  assumes "0 < k" "k < 2 ^ 64"
  shows "parseUintQuery (page_request c from k) ''from'' 0 = Inr from"
    "parseUintQuery (page_request c from k) ''limit'' defaultHistoryLimit = Inr (of_nat k)"
proof -
  have "unat from < 2 ^ 64"
    using unsigned_less [of "from", where ?'a = nat] by simp
  then show "parseUintQuery (page_request c from k) ''from'' 0 = Inr from"
    using ParseUint_dec_nat [of "unat from"] by (simp add: parseUintQuery_def query_get_def page_request_def)
  show "parseUintQuery (page_request c from k) ''limit'' defaultHistoryLimit = Inr (of_nat k)"
    using assms(2) by (simp add: parseUintQuery_def query_get_def page_request_def)
qed

lemma walk_spec:
  assumes "store_ops (Messenger.log svc) = InMemoryStorage_ops" "mem_ok (store (Messenger.log svc))"
    and "mem_ents (store (Messenger.log svc)) c = es" "chained ed es" "0 < k" "k < 2 ^ 64" "min k 200 = n"
    and "j \<le> length es" "length es - j < m * n"
  shows "walk m c k (to_uint64 j) svc = Some (drop j es)"
  using assms(8,9)
proof (induction m arbitrary: j)
  case (Suc m)
  have es: "length es < max_slice"
    using assms(2,3) by (auto simp: mem_ok_def)
  then have j: "unat (to_uint64 j) = j"
    using Suc.prems(1) by simp
  have k: "unat (of_nat k :: uint64) = k"
    using assms(6) by (simp add: unat_of_nat)
  define page where "page = take n (drop j es)"
  have h: "handleHistory c (page_request c (to_uint64 j) k) svc = writeJSON 200 (P_History page
      (if length page = n then Some (Sequence (last page) + 1) else None))"
    by (rule handleHistory_page [OF assms(1,2) page_request_query [OF assms(5,6)]])
      (use k j assms(3,5,7) in \<open>simp_all add: page_def\<close>)
  show ?case
  proof (cases "length page = n")
    case False
    then have "page = drop j es"
      by (simp add: page_def)
    with False show ?thesis
      by (simp add: h)
  next
    case True
    then have n: "0 < n" "j + n \<le> length es"
      using assms(5,7) by (auto simp: page_def)
    then have "last page = es ! (j + n - 1)"
      using True by (simp add: last_conv_nth page_def)
    moreover have "Sequence (es ! (j + n - 1)) = to_uint64 (j + n - 1)"
      using assms(4) n by (simp add: chained_def)
    ultimately have "Sequence (last page) + 1 = to_uint64 (j + n)"
      using n by (simp add: to_uint64_Suc)
    moreover have "length es - (j + n) < m * n"
      using Suc.prems(2) n by simp
    then have "walk m c k (to_uint64 (j + n)) svc = Some (drop (j + n) es)"
      by (intro Suc.IH n(2))
    moreover have "page @ drop (j + n) es = drop j es"
      by (metis page_def append_take_drop_id drop_drop add.commute)
    ultimately show ?thesis
      using True by (simp add: h)
  qed
qed simp

section \<open>Status codes\<close>

definition healthy_env :: "('s, 'c, 'b) env \<Rightarrow> bool" where
  "healthy_env env \<longleftrightarrow> (\<exists>key. env_content_rnd env = Inr key)
     \<and> (\<exists>p. GenerateKeyPair (env_scheme env) (env_key_rnd env) = Inr p)"

lemma handleHistory_status:
  assumes "reachable ed (Messenger.log svc)"
  shows "status (handleHistory c r svc) \<in> {200, 400}"
proof -
  have "\<exists>es. svc_History c from k svc = Inr es" for "from" k
    using reachable_store(1,2) [OF assms] by (simp add: svc_History_def History_def mem_since)
  then show ?thesis
    by (auto simp: handleHistory_def Let_def split: sum.split) (metis Inl_Inr_False)+
qed

lemma handleMessage_status:
  assumes "reachable ed (Messenger.log svc)"
  shows "status (handleMessage c raw svc) \<in> {200, 400, 404}"
  using reachable_store(1,2) [OF assms]
  by (auto simp: handleMessage_def svc_Message_def Log_Entry_def mem_at split: sum.split)

lemma handleVerifyMessage_status:
  assumes "reachable ed (Messenger.log svc)"
  shows "status (handleVerifyMessage ed c raw svc) \<in> {200, 400, 404}"
proof -
  have "VerifyEntry ed c i (Messenger.log svc) = Inl ErrNotFound \<or> (\<exists>v. VerifyEntry ed c i (Messenger.log svc) = Inr v)" for i
    using mem.VerifyEntry_spec [OF reachable_store(1,2) [OF assms], of i c ed]
      mem.VerifyEntry_missing [OF reachable_store(1,2) [OF assms], of i c ed]
    by (cases "unat i < length (mem_ents (store (Messenger.log svc)) c)") auto
  then show ?thesis
    by (auto simp: handleVerifyMessage_def svc_VerifyMessage_def split: sum.split)
      (metis Inl_Inr_False errors_Is_refl old.sum.inject(1))
qed

lemma handleProof_status:
  assumes "reachable ed (Messenger.log svc)"
  shows "status (handleProof c raw svc) \<in> {200, 400, 409}"
proof -
  have "ProveInclusion c i (Messenger.log svc) = Inl ErrNotSnapshotted \<or> (\<exists>p. ProveInclusion c i (Messenger.log svc) = Inr p)" for i
    using mem.ProveInclusion_sealed [OF reachable_inv(1) [OF assms] _ refl TrueI, of i c]
      mem.ProveInclusion_missing [OF reachable_inv(1) [OF assms] _ TrueI, of i c] by blast
  then show ?thesis
    by (auto simp: handleProof_def svc_ProveInclusion_def split: sum.split)
      (metis Inl_Inr_False errors_Is_refl old.sum.inject(1))
qed

lemma handleVerify_status:
  assumes "reachable ed (Messenger.log svc)"
  shows "status (handleVerify ed' c svc) = 200"
  using mem.Log_Verify_spec [OF reachable_store(1,2) [OF assms] TrueI, of ed' c]
  by (simp add: handleVerify_def svc_Verify_def)

lemma handleSync_status:
  assumes "reachable ed (Messenger.log svc)"
  shows "status (handleSync c svc) = 200"
  using mem.Sync_spec [OF reachable_inv(1) [OF assms] refl refl TrueI, of c]
  by (simp add: handleSync_def svc_Sync_def)

lemma submit_handler_status:
  assumes "reachable ed (Messenger.log svc)"
  shows "status (fst (submit_handler ed decode now cap c r svc)) \<in> {201, 400, 422}"
proof -
  obtain resp svc' where step: "submit_handler ed decode now cap c r svc = (resp, svc')"
    by fastforce
  then show ?thesis
    by (cases rule: submit_handler_cases [OF assms refl step]) simp_all
qed

text \<open>The routes that only read.\<close>

fun reads_only :: "route \<Rightarrow> bool" where
  "reads_only (R_Send c) \<longleftrightarrow> False"
| "reads_only (R_Photo c) \<longleftrightarrow> False"
| "reads_only (R_Video c) \<longleftrightarrow> False"
| "reads_only (R_Stream c) \<longleftrightarrow> False"
| "reads_only _ \<longleftrightarrow> True"

fun is_stream :: "route \<Rightarrow> bool" where
  "is_stream (R_Stream c) \<longleftrightarrow> True"
| "is_stream _ \<longleftrightarrow> False"

lemma serve_route_status:
  assumes "reachable (env_scheme env) (Messenger.log svc)" "healthy_env env" "\<not> is_stream rt"
  shows "status (fst (serve_route env r rt svc)) \<in> {200, 201, 400, 404, 409, 422}"
    "reads_only rt \<Longrightarrow> snd (serve_route env r rt svc) = svc"
  using assms(2,3) handleHistory_status [OF assms(1), of _ r] handleMessage_status [OF assms(1)]
    handleVerifyMessage_status [OF assms(1)] handleProof_status [OF assms(1)] handleVerify_status [OF assms(1)]
    handleSync_status [OF assms(1)] submit_handler_status [OF assms(1)]
  by (cases rt; fastforce simp: serve_route_def handleHealth_def HandleGenerateKeys_def handleGenerateContentKey_def
      NewContentKey_def healthy_env_def handleSend_def handleSendPhoto_def handleSendVideo_def)+

lemma mux_cases:
  assumes "mux env r svc = (resp, svc')"
  obtains (unknown) "status resp = 404" "svc' = svc" "routes (Path r) = []"
  | (mismatch) "status resp = 405" "svc' = svc"
  | (served) m rt where "(m, rt) \<in> set (routes (Path r))" "method_matches (Method r) m" "serve_route env r rt svc = (resp, svc')"
proof (cases "routes (Path r) = []")
  case True
  then show thesis
    using assms unknown by (auto simp: mux_def)
next
  case False
  show thesis
  proof (cases "find (\<lambda>(m, _). method_matches (Method r) m) (routes (Path r))")
    case None
    then show thesis
      using assms False mismatch by (auto simp: mux_def)
  next
    case (Some p)
    obtain m rt where p: "p = (m, rt)"
      by (cases p)
    then have "(m, rt) \<in> set (routes (Path r))" "method_matches (Method r) m"
      using Some by (auto simp: find_Some_iff in_set_conv_nth)
    then show thesis
      using assms False Some p served [of m rt] by (simp add: mux_def)
  qed
qed

lemma routes_GET: "(''GET'', rt) \<in> set (routes path) \<Longrightarrow> reads_only rt \<or> is_stream rt"
  by (cases path rule: routes.cases) (auto split: if_splits)

lemma routes_methods: "(m, rt) \<in> set (routes path) \<Longrightarrow> m = ''GET'' \<or> m = ''POST''"
  by (cases path rule: routes.cases) (auto split: if_splits)

lemma routes_stream: "(m, rt) \<in> set (routes path) \<Longrightarrow> is_stream rt \<Longrightarrow> \<exists>c. path = [''chats'', c, ''ws'']"
  by (cases path rule: routes.cases) (auto split: if_splits)

section \<open>Properties\<close>


text \<open>A decoder that reads one fixed message, and a request that posts it.\<close>

definition post_request :: "string \<Rightarrow> Request" where
  "post_request c = \<lparr>Method = ''POST'', Path = [''chats'', c, ''messages''], Query = [], RemoteAddr = ''10.0.0.1:999'', Body = [123]\<rparr>"

definition fixed_decoder :: "SignedMessage \<Rightarrow> byte list \<Rightarrow> SignedMessage option" where
  "fixed_decoder m body = (if body = [] then None else Some m)"

definition demo_svc :: "nat \<Rightarrow> (InMemoryStorage, InMemoryCache, InMemoryBroker) Messenger" where
  "demo_svc n = New_Messenger (demo_node n)"

lemma demo_svc_reachable: "n + 1 < max_slice \<Longrightarrow> reachable toy_scheme (Messenger.log (demo_svc n))"
  by (simp add: demo_svc_def New_Messenger_def demo_reachable)

lemma signed_example_fields: "SenderID signed_example \<noteq> []" "PublicKey signed_example \<noteq> []" "Signature signed_example \<noteq> []"
  by (simp_all add: signed_example_def example_message_def)



text \<open>A scheme without security, which accepts every signature.\<close>

definition lax_scheme :: ed25519 where
  "lax_scheme = toy_scheme\<lparr>ed_Verify := \<lambda>pub data sig. True\<rparr>"

lemma fresh_reachable: "reachable ed (new_node C c B b)"
  unfolding reachable_def by (rule exI [of _ "[]"]) (auto simp: max_slice_def)


text \<open>
  C21. Paging terminates and is complete: in every reachable node, a client that asks for pages of any size
  and follows \<open>next_from\<close> until it is null reads the whole chat, in order and without repetition, in
  at most one request more than the number of full pages.
\<close>

theorem history_walk_complete:
  assumes "reachable ed (Messenger.log svc)" "mem_ents (store (Messenger.log svc)) c = es" "0 < k" "k < 2 ^ 64"
  shows "walk (length es div min k 200 + 1) c k 0 svc = Some es"
proof -
  have chain: "chained ed es"
    using reachable_store(3) [OF assms(1), of c] assms(2) by (simp add: chat_ok_def)
  have "length es < (length es div min k 200 + 1) * min k 200"
    using assms(3) by (simp add: dividend_less_div_times)
  then show ?thesis
    using walk_spec [OF reachable_store(1,2) [OF assms(1)] assms(2) chain assms(3,4) refl, of 0 "length es div min k 200 + 1"]
    by (simp del: walk.simps)
qed

theorem history_walk_complete_witness:
  "\<exists>es. walk 3 ''c1'' 50 0 (demo_svc 120) = Some es \<and> length es = 120"
proof -
  have n: "120 + 1 < max_slice" "120 < max_slice"
    by (simp_all add: max_slice_def)
  have len: "length (mem_ents (store (Messenger.log (demo_svc 120))) ''c1'') = 120"
    using demo_entries [OF n(2)] by (simp add: demo_svc_def New_Messenger_def)
  then show ?thesis
    using history_walk_complete [OF demo_svc_reachable [OF n(1)] refl, of 50 "''c1''"] by simp
qed


definition demo_env :: "(InMemoryStorage, InMemoryCache, InMemoryBroker) env" where
  "demo_env = \<lparr>env_scheme = toy_scheme, env_decode = fixed_decoder signed_example, env_now = 0,
     env_key_rnd = replicate 32 5, env_content_rnd = Inr (replicate 32 1), env_upgrade = None, env_cases = [],
     env_others = (\<lambda>m. m)\<rparr>"

lemma demo_env_healthy: "healthy_env demo_env"
  by (simp add: healthy_env_def demo_env_def GenerateKeyPair_def toy_scheme_def)


section \<open>The rate limit\<close>

text \<open>
  What happens to a server with a limiter, in the order in which the limiter's mutex is taken: requests,
  with the limiter's clock readings and what handling them takes from outside, and evictions.
\<close>

datatype ('s, 'c, 'b) server_event =
    Http Time Time "('s, 'c, 'b) env" Request
  | Tick Time

fun responses ::
  "'k rate_ops \<Rightarrow> ('s, 'c, 'b) server_event list \<Rightarrow> ('s, 'c, 'b, 'k) Server \<Rightarrow> (Request \<times> Response) list" where
  "responses R [] s = []"
| "responses R (Http now now' env r # evs) s =
     (let (resp, s') = Handler R now now' env r s in (r, resp) # responses R evs s')"
| "responses R (Tick now # evs) s = responses R evs (s\<lparr>srv_limiter := map_option (evictIdle now) (srv_limiter s)\<rparr>)"

text \<open>The requests that reach the limiter, as its events.\<close>

definition limiter_events :: "('s, 'c, 'b) server_event list \<Rightarrow> limiter_event list" where
  "limiter_events evs = concat (map (\<lambda>ev. case ev of
     Http now now' env r \<Rightarrow> if Path r = [''healthz''] then [] else [limiter_event.Request (clientIP r) now now']
   | Tick now \<Rightarrow> [Evict now]) evs)"

lemma limiter_events_simps [simp]:
  "limiter_events [] = []"
  "limiter_events (Http now now' env r # evs) =
     (if Path r = [''healthz''] then limiter_events evs
      else limiter_event.Request (clientIP r) now now' # limiter_events evs)"
  "limiter_events (Tick now # evs) = Evict now # limiter_events evs"
  by (simp_all add: limiter_events_def)

text \<open>No handler answers 429 itself; a failed upgrade must not either.\<close>

definition upgrade_not_429 :: "('s, 'c, 'b) server_event \<Rightarrow> bool" where
  "upgrade_not_429 ev = (case ev of
     Http now now' env r \<Rightarrow> (case env_upgrade env of Some resp \<Rightarrow> status resp \<noteq> 429 | None \<Rightarrow> True)
   | Tick now \<Rightarrow> True)"

lemma mux_not_429:
  assumes "case env_upgrade env of Some resp \<Rightarrow> status resp \<noteq> 429 | None \<Rightarrow> True"
  shows "status (fst (mux env r svc)) \<noteq> 429"
proof -
  have sub: "status (fst (submit_handler ed decode now cap c r svc)) \<noteq> 429" for ed decode now cap c
    by (auto simp: submit_handler_def split: sum.split prod.split)
  obtain resp svc' where m: "mux env r svc = (resp, svc')"
    by fastforce
  then have "status resp \<noteq> 429"
  proof (cases rule: mux_cases [OF m])
    case (3 m rt)
    have "status (fst (serve_route env r rt svc)) \<noteq> 429"
      using assms sub
      by (cases rt) (auto simp: serve_route_def handleHealth_def HandleGenerateKeys_def handleGenerateContentKey_def
          handleSend_def handleSendPhoto_def handleSendVideo_def handleHistory_def handleMessage_def handleProof_def
          handleVerifyMessage_def handleVerify_def handleSync_def handleStream_def Let_def
          split: sum.split prod.split option.splits)
    then show ?thesis
      using 3(3) by simp
  qed simp_all
  then show ?thesis
    using m by simp
qed

text \<open>The requests of one client that the limiter saw and let through.\<close>

definition admitted :: "string \<Rightarrow> Request \<times> Response \<Rightarrow> bool" where
  "admitted ip p \<longleftrightarrow> Path (fst p) \<noteq> [''healthz''] \<and> clientIP (fst p) = ip \<and> status (snd p) \<noteq> 429"

lemma responses_decisions:
  assumes "srv_limiter s = Some l" "\<forall>ev\<in>set evs. upgrade_not_429 ev"
  shows "length (filter (admitted ip) (responses R evs s)) = count_list (decisions R (limiter_events evs) l) (ip, True)"
  using assms
proof (induction evs arbitrary: s l)
  case (Cons ev evs)
  show ?case
  proof (cases ev)
    case (Http now now' env r)
    obtain resp svc where m: "mux env r (srv_svc s) = (resp, svc)"
      by fastforce
    have not_429: "status resp \<noteq> 429"
      using mux_not_429 [of env r "srv_svc s"] Cons.prems(2) m Http by (simp add: upgrade_not_429_def)
    show ?thesis
    proof (cases "Path r = [''healthz'']")
      case True
      then show ?thesis
        using Cons.IH [of "s\<lparr>srv_svc := svc\<rparr>" l] Cons.prems m Http
        by (simp add: Handler_def rateLimitMiddleware_def admitted_def)
    next
      case False
      obtain ok l' where a: "Allow R now now' (clientIP r) l = (ok, l')"
        by fastforce
      show ?thesis
        using Cons.IH [of "s\<lparr>srv_svc := svc, srv_limiter := Some l'\<rparr>" l'] Cons.IH [of "s\<lparr>srv_limiter := Some l'\<rparr>" l']
          Cons.prems m Http False a not_429
        by (cases ok) (simp_all add: Handler_def rateLimitMiddleware_def admitted_def)
    qed
  next
    case (Tick now)
    then show ?thesis
      using Cons.IH [of "s\<lparr>srv_limiter := Some (evictIdle now l)\<rparr>" "evictIdle now l"] Cons.prems by simp
  qed
qed simp


definition demo_server :: "(InMemoryStorage, InMemoryCache, InMemoryBroker, exact_bucket) Server" where
  "demo_server = NewServer (demo_svc 3) [WithRateLimit (New_Limiter 5 20 600000000000)]"

definition demo_traffic :: "(InMemoryStorage, InMemoryCache, InMemoryBroker) server_event list" where
  "demo_traffic = [Http 0 10 demo_env (page_request ''c1'' 0 10), Tick 650000000000,
     Http 700000000000 700000000010 demo_env (page_request ''c1'' 0 10)]"


text \<open>
  A client is its address: requests from the same IPv4 or IPv6 address share one budget whatever
  ports they come from, and requests from different addresses never share one.
\<close>

theorem clientIP_ignores_port:
  assumes "no_brackets ip" "CHR '':'' \<notin> set port" "no_brackets port" "ip \<noteq> []"
    and "RemoteAddr r = (if CHR '':'' \<in> set ip then ''['' @ ip @ '']:'' @ port else ip @ '':'' @ port)"
  shows "clientIP r = ip"
  using assms SplitHostPort_v4 [of ip port] SplitHostPort_v6 [of ip port]
  by (auto simp: clientIP_def split: if_splits)

theorem clientIP_ignores_port_witness:
  "clientIP ((page_request ''c1'' 0 10)\<lparr>RemoteAddr := ''[::1]:8080''\<rparr>) = ''::1''"
  by (rule clientIP_ignores_port [where port = "''8080''"]) (simp_all add: no_brackets_def)

section \<open>The event stream\<close>

fun arrived :: "stream_case list \<Rightarrow> Event list" where
  "arrived [] = []"
| "arrived (Event_arrives evt ok # cs) = evt # arrived cs"
| "arrived (_ # cs) = arrived cs"

fun benign :: "stream_case \<Rightarrow> bool" where
  "benign (Event_arrives evt ok) \<longleftrightarrow> ok"
| "benign (Ticker_fires ok) \<longleftrightarrow> ok"
| "benign _ \<longleftrightarrow> False"

lemma stream_loop_prefix: "prefix (stream_loop c cs) (filter (\<lambda>e. ev_ChatID e = c) (arrived cs))"
  by (induction c cs rule: stream_loop.induct) auto

lemma stream_loop_all:
  "\<forall>x\<in>set cs. benign x \<Longrightarrow> stream_loop c cs = filter (\<lambda>e. ev_ChatID e = c) (arrived cs)"
  by (induction c cs rule: stream_loop.induct) auto

text \<open>What the rest of the node may do to the broker while a stream is open.\<close>

definition keeps_broker :: "(('s, 'c, InMemoryBroker) Messenger \<Rightarrow> ('s, 'c, InMemoryBroker) Messenger) \<Rightarrow> bool" where
  "keeps_broker f \<longleftrightarrow> (\<forall>m. broker_ops (Messenger.log m) = InMemoryBroker_ops \<and> mem_broker_ok (broker (Messenger.log m)) \<longrightarrow>
     broker_ops (Messenger.log (f m)) = InMemoryBroker_ops \<and> mem_broker_ok (broker (Messenger.log (f m)))
     \<and> mem_issued (broker (Messenger.log m)) \<subseteq> mem_issued (broker (Messenger.log (f m))))"

text \<open>
  C27. A stream follows its chat and leaves nothing behind: the handler writes the events of its own chat
  and no others, in the order in which they arrive, all of them as long as the connection holds; and
  on every way out, also when the upgrade fails, its subscription is cancelled.
\<close>

theorem stream_follows_chat:
  assumes "broker_ops (Messenger.log svc) = InMemoryBroker_ops" "mem_broker_ok (broker (Messenger.log svc))"
    and "keeps_broker others" "handleStream upgrade cs others c svc = (resp, written, svc')"
  shows "\<exists>h svc1. svc_Subscribe svc = (Inr h, svc1) \<and> h \<in> mem_live (broker (Messenger.log svc1))
    \<and> h \<notin> mem_live (broker (Messenger.log svc')) \<and> mem_broker_ok (broker (Messenger.log svc'))
    \<and> prefix written (filter (\<lambda>e. ev_ChatID e = c) (arrived cs))
    \<and> (upgrade = None \<and> (\<forall>x\<in>set cs. benign x) \<longrightarrow> written = filter (\<lambda>e. ev_ChatID e = c) (arrived cs))"
proof -
  let ?l = "Messenger.log svc"
  obtain h b where sub: "mem_Subscribe (broker ?l) = (Inr h, b)" "mem_broker_ok b" "h \<in> mem_live b" "h \<in> mem_issued b"
    using mem_broker.subscribe [OF assms(2)] by auto
  define svc1 where "svc1 = svc\<lparr>Messenger.log := ?l\<lparr>broker := b\<rparr>\<rparr>"
  have svc1: "svc_Subscribe svc = (Inr h, svc1)" "broker_ops (Messenger.log svc1) = InMemoryBroker_ops"
    "broker (Messenger.log svc1) = b"
    using assms(1) sub(1) by (simp_all add: svc_Subscribe_def Log_Subscribe_def svc1_def)
  define m where "m = (if upgrade = None then others svc1 else svc1)"
  have m: "broker_ops (Messenger.log m) = InMemoryBroker_ops" "mem_broker_ok (broker (Messenger.log m))"
    "h \<in> mem_issued (broker (Messenger.log m))"
    using assms(3) svc1 sub(2,4) by (auto simp: m_def keeps_broker_def)
  have svc': "Messenger.log svc' = (Messenger.log m)\<lparr>broker := mem_Cancel h (broker (Messenger.log m))\<rparr>"
    "written = (if upgrade = None then stream_loop c cs else [])"
    using assms(4) svc1 m(1) by (auto simp: handleStream_def m_def Let_def split: option.splits)
  note cancel = mem_broker.cancel [OF m(2,3)] mem_broker.cancel_stops [OF m(2,3)]
  show ?thesis
    using svc1(1,3) sub(3) svc' cancel stream_loop_prefix [of c cs] stream_loop_all [of cs c]
    by (intro exI [of _ h] exI [of _ svc1]) auto
qed

theorem stream_follows_chat_witness:
  "\<exists>h. fst (svc_Subscribe (demo_svc 0)) = Inr h
     \<and> (let (resp, written, svc') = handleStream None [Event_arrives sample_event True] (\<lambda>m. m) ''c1'' (demo_svc 0)
        in h \<notin> mem_live (broker (Messenger.log svc')) \<and> written = [sample_event])"
proof -
  obtain resp written svc' where step:
    "handleStream None [Event_arrives sample_event True] (\<lambda>m. m) ''c1'' (demo_svc 0) = (resp, written, svc')"
    by (metis prod.exhaust)
  have b: "broker_ops (Messenger.log (demo_svc 0)) = InMemoryBroker_ops" "mem_broker_ok (broker (Messenger.log (demo_svc 0)))"
    using broker_follows [of "demo_run 0" toy_scheme InMemoryCache_ops NewInMemoryCache]
    by (simp_all add: demo_svc_def New_Messenger_def demo_node_def max_slice_def)
  have "keeps_broker (\<lambda>m. m)"
    by (simp add: keeps_broker_def)
  from stream_follows_chat [OF b this step] step show ?thesis
    by (auto simp: sample_event_def)
qed

end
