(* ===== verification/Scylla.thy ===== *)
theory Scylla
  imports Storage
begin

text \<open>
  The ScyllaDB adapter of \<open>internal/storage/scylla.go\<close>. The driver \<open>gocql\<close> and the cluster behind
  it are outside the repository: a session is a parameter, a record with one operation per CQL
  statement of the adapter, and what the adapter relies on is the locale \<open>cql\<close>, which states how
  a table with a partition key and a clustering key behaves. The adapter is shown to satisfy the storage
  contract over every such session, for the entries that the columns can represent.
\<close>

section \<open>Rows and statements\<close>

text \<open>
  The columns of the two tables besides the partition key \<open>chat_id\<close>. A \<open>bigint\<close> and an \<open>int\<close> are HOL
  integers: the conversion \<open>int64(x)\<close> of a \<open>uint64\<close> is its signed reading and \<open>uint64(x)\<close> wraps.
\<close>

record entry_row =
  row_sequence :: int
  row_schema_version :: int
  row_message_id :: string
  row_sender_id :: string
  row_content :: "byte list"
  row_content_type :: string
  row_filename :: string
  row_encrypted :: bool
  row_ts :: Time
  row_public_key :: "byte list"
  row_signature :: "byte list"
  row_prev_hash :: string
  row_entry_hash :: string

record snapshot_row =
  row_snapshot_index :: int
  row_from_sequence :: int
  row_to_sequence :: int
  row_merkle_root :: string
  row_last_entry_hash :: string
  row_created_at :: Time

text \<open>
  An iterator is the rows it still has to deliver and the error that \<open>Close\<close> reports at the end.
\<close>

record Iter =
  iter_rows :: "entry_row list"
  iter_err :: "go_error option"

record 'q cql_session =
  insert_entry_if_not_exists :: "string \<Rightarrow> entry_row \<Rightarrow> 'q \<Rightarrow> bool res \<times> 'q"
  select_last_entry :: "string \<Rightarrow> 'q \<Rightarrow> Iter"
  select_entry :: "string \<Rightarrow> int \<Rightarrow> 'q \<Rightarrow> Iter"
  select_entries_from :: "string \<Rightarrow> int \<Rightarrow> 'q \<Rightarrow> Iter"
  select_snapshot :: "string \<Rightarrow> int \<Rightarrow> 'q \<Rightarrow> snapshot_row res"
  insert_snapshot :: "string \<Rightarrow> snapshot_row \<Rightarrow> 'q \<Rightarrow> go_error option \<times> 'q"
  select_latest_snapshot :: "string \<Rightarrow> 'q \<Rightarrow> snapshot_row res"
  session_close :: "'q \<Rightarrow> 'q"

definition gocql_ErrNotFound :: go_error where
  "gocql_ErrNotFound = Sentinel ''not found''"

declare gocql_ErrNotFound_def [err_defs]

definition int64_of :: "uint64 \<Rightarrow> int" where
  "int64_of x = sint x"

definition uint64_of :: "int \<Rightarrow> uint64" where
  "uint64_of i = word_of_int i"

section \<open>The adapter\<close>

datatype consistency = Any | One | Two | Three | Quorum | All

record cluster_config =
  Hosts :: "string list"
  Keyspace :: string
  Consistency :: consistency
  Timeout :: Time

text \<open>
  \<open>CreateSession\<close> is the driver's; \<open>gocql.NewCluster\<close> fills the other settings with its defaults.
\<close>

definition NewScylla ::
  "(string list \<Rightarrow> cluster_config) \<Rightarrow> (cluster_config \<Rightarrow> 'q res) \<Rightarrow> string \<Rightarrow> string list \<Rightarrow> 'q res" where
  "NewScylla NewCluster CreateSession keyspace hosts =
     (let cluster = (NewCluster hosts)\<lparr>Keyspace := keyspace, Consistency := Quorum, Timeout := 5 * 1000000000\<rparr>
      in case CreateSession cluster of
           Inl err \<Rightarrow> Inl err
         | Inr session \<Rightarrow> Inr session)"

definition scylla_Close :: "'q cql_session \<Rightarrow> 'q \<Rightarrow> 'q" where
  "scylla_Close Q = session_close Q"

text \<open>The values that \<open>AppendEntry\<close> binds, and the entry that \<open>scanEntry\<close> builds from a row.\<close>

definition entry_columns :: "LogEntry \<Rightarrow> entry_row" where
  "entry_columns entry =
     (let m = Message entry
      in \<lparr>row_sequence = int64_of (Sequence entry), row_schema_version = SchemaVersion m,
          row_message_id = MessageID m, row_sender_id = SenderID m, row_content = Content m,
          row_content_type = ContentType m, row_filename = Filename m, row_encrypted = Encrypted m,
          row_ts = Timestamp m, row_public_key = PublicKey m, row_signature = Signature m,
          row_prev_hash = PrevHash entry, row_entry_hash = EntryHash entry\<rparr>)"

definition row_entry :: "string \<Rightarrow> entry_row \<Rightarrow> LogEntry" where
  "row_entry chatID r =
     \<lparr>Sequence = uint64_of (row_sequence r),
      Message = \<lparr>SchemaVersion = row_schema_version r, MessageID = row_message_id r, ChatID = chatID,
                 SenderID = row_sender_id r, Content = row_content r, ContentType = row_content_type r,
                 Filename = row_filename r, Encrypted = row_encrypted r, Timestamp = row_ts r,
                 PublicKey = row_public_key r, Signature = row_signature r\<rparr>,
      PrevHash = row_prev_hash r, EntryHash = row_entry_hash r\<rparr>"

definition scylla_AppendEntry ::
  "'q cql_session \<Rightarrow> string \<Rightarrow> LogEntry \<Rightarrow> 'q \<Rightarrow> go_error option \<times> 'q" where
  "scylla_AppendEntry Q chatID entry q =
     (case insert_entry_if_not_exists Q chatID (entry_columns entry) q of
        (Inl err, q') \<Rightarrow> (Some err, q')
      | (Inr applied, q') \<Rightarrow> if \<not> applied then (Some ErrSequenceGap, q') else (None, q'))"

text \<open>\<open>scanEntry\<close> takes one row off the iterator, if there is one.\<close>

definition scanEntry :: "string \<Rightarrow> Iter \<Rightarrow> (LogEntry \<times> Iter) option" where
  "scanEntry chatID iter =
     (case iter_rows iter of
        [] \<Rightarrow> None
      | r # rs \<Rightarrow> Some (row_entry chatID r, iter\<lparr>iter_rows := rs\<rparr>))"

text \<open>Reading at most one entry: what \<open>LastEntry\<close> and \<open>Entry\<close> do with their iterator.\<close>

definition scan_one :: "string \<Rightarrow> Iter \<Rightarrow> LogEntry res" where
  "scan_one chatID iter =
     (case iter_err iter of
        Some err \<Rightarrow> Inl err
      | None \<Rightarrow> (case scanEntry chatID iter of None \<Rightarrow> Inl ErrNotFound | Some (entry, _) \<Rightarrow> Inr entry))"

definition scylla_LastEntry :: "'q cql_session \<Rightarrow> string \<Rightarrow> 'q \<Rightarrow> LogEntry res" where
  "scylla_LastEntry Q chatID q = scan_one chatID (select_last_entry Q chatID q)"

definition scylla_Entry :: "'q cql_session \<Rightarrow> string \<Rightarrow> uint64 \<Rightarrow> 'q \<Rightarrow> LogEntry res" where
  "scylla_Entry Q chatID sequence q = scan_one chatID (select_entry Q chatID (int64_of sequence) q)"

text \<open>The loop of \<open>EntriesSince\<close>: it ends because each round takes a row off the iterator.\<close>

function scan_all :: "string \<Rightarrow> Iter \<Rightarrow> LogEntry list \<Rightarrow> LogEntry list" where
  "scan_all chatID iter out =
     (case scanEntry chatID iter of
        None \<Rightarrow> out
      | Some (entry, iter') \<Rightarrow> scan_all chatID iter' (out @ [entry]))"
  by pat_completeness auto
termination
  by (relation "measure (\<lambda>(_, iter, _). length (iter_rows iter))") 
    (auto simp: scanEntry_def split: list.splits)

declare scan_all.simps [simp del]

definition scylla_EntriesSince :: "'q cql_session \<Rightarrow> string \<Rightarrow> uint64 \<Rightarrow> 'q \<Rightarrow> LogEntry list res" where
  "scylla_EntriesSince Q chatID fromSequence q =
     (let iter = select_entries_from Q chatID (int64_of fromSequence) q;
          out = scan_all chatID iter []
      in case iter_err iter of Some err \<Rightarrow> Inl err | None \<Rightarrow> Inr out)"

text \<open>
  A snapshot row as a snapshot. \<open>SnapshotAt\<close> repeats the index it was asked for, \<open>LatestSnapshot\<close>
  converts the one it read.
\<close>

definition row_snapshot :: "string \<Rightarrow> uint64 \<Rightarrow> snapshot_row \<Rightarrow> MerkleSnapshot" where
  "row_snapshot chatID index r =
     \<lparr>snap_ChatID = chatID, SnapshotIndex = index,
      FromSequence = uint64_of (row_from_sequence r), ToSequence = uint64_of (row_to_sequence r),
      MerkleRoot = row_merkle_root r, LastEntryHash = row_last_entry_hash r, CreatedAt = row_created_at r\<rparr>"

definition scylla_SnapshotAt :: "'q cql_session \<Rightarrow> string \<Rightarrow> uint64 \<Rightarrow> 'q \<Rightarrow> MerkleSnapshot res" where
  "scylla_SnapshotAt Q chatID index q =
     (case select_snapshot Q chatID (int64_of index) q of
        Inl err \<Rightarrow> if err = gocql_ErrNotFound then Inl ErrNotFound else Inl err
      | Inr r \<Rightarrow> Inr (row_snapshot chatID index r))"

definition snapshot_columns :: "MerkleSnapshot \<Rightarrow> snapshot_row" where
  "snapshot_columns snap =
     \<lparr>row_snapshot_index = int64_of (SnapshotIndex snap), row_from_sequence = int64_of (FromSequence snap),
      row_to_sequence = int64_of (ToSequence snap), row_merkle_root = MerkleRoot snap,
      row_last_entry_hash = LastEntryHash snap, row_created_at = CreatedAt snap\<rparr>"

definition scylla_SaveSnapshot :: "'q cql_session \<Rightarrow> MerkleSnapshot \<Rightarrow> 'q \<Rightarrow> go_error option \<times> 'q" where
  "scylla_SaveSnapshot Q snap q =
     insert_snapshot Q (snap_ChatID snap) (snapshot_columns snap) q"

definition scylla_LatestSnapshot :: "'q cql_session \<Rightarrow> string \<Rightarrow> 'q \<Rightarrow> MerkleSnapshot res" where
  "scylla_LatestSnapshot Q chatID q =
     (case select_latest_snapshot Q chatID q of
        Inl err \<Rightarrow> if err = gocql_ErrNotFound then Inl ErrNotFound else Inl err
      | Inr r \<Rightarrow> Inr (row_snapshot chatID (uint64_of (row_snapshot_index r)) r))"

definition Scylla_ops :: "'q cql_session \<Rightarrow> 'q storage_ops" where
  "Scylla_ops Q =
     \<lparr>AppendEntry = scylla_AppendEntry Q, LastEntry = scylla_LastEntry Q, Entry = scylla_Entry Q,
      EntriesSince = scylla_EntriesSince Q, SaveSnapshot = scylla_SaveSnapshot Q,
      LatestSnapshot = scylla_LatestSnapshot Q, SnapshotAt = scylla_SnapshotAt Q\<rparr>"

section \<open>What the adapter relies on\<close>

text \<open>
  The values that the columns can represent: text columns hold UTF-8, \<open>int\<close> is 32 bits wide and a
  \<open>timestamp\<close> is a 64-bit number of milliseconds.
\<close>

definition ms_fits :: "Time \<Rightarrow> bool" where
  "ms_fits t \<longleftrightarrow> - (2 ^ 63) \<le> t div 1000000 \<and> t div 1000000 < 2 ^ 63"

definition entry_row_fits :: "string \<Rightarrow> entry_row \<Rightarrow> bool" where
  "entry_row_fits c r \<longleftrightarrow> utf8_valid c \<and> - (2 ^ 31) \<le> row_schema_version r \<and> row_schema_version r < 2 ^ 31
     \<and> list_all utf8_valid [row_message_id r, row_sender_id r, row_content_type r, row_filename r,
         row_prev_hash r, row_entry_hash r] \<and> ms_fits (row_ts r)"

definition snapshot_row_fits :: "string \<Rightarrow> snapshot_row \<Rightarrow> bool" where
  "snapshot_row_fits c r \<longleftrightarrow>
     utf8_valid c \<and> list_all utf8_valid [row_merkle_root r, row_last_entry_hash r]"

text \<open>A \<open>timestamp\<close> column keeps whole milliseconds.\<close>

definition stored_entry_row :: "entry_row \<Rightarrow> entry_row" where
  "stored_entry_row r = r\<lparr>row_ts := Truncate_ms (row_ts r)\<rparr>"

definition stored_snapshot_row :: "snapshot_row \<Rightarrow> snapshot_row" where
  "stored_snapshot_row r = r\<lparr>row_created_at := Truncate_ms (row_created_at r)\<rparr>"

text \<open>
  A session on a healthy cluster. \<open>entry_rows q c\<close> and \<open>snapshot_rows q c\<close> are the rows of the partition
  of chat \<open>c\<close> in clustering order; \<open>live\<close> means that statements neither fail nor time out. The
  conditional insert adds the row if its key is free and reports whether it did; the insert without
  a condition replaces the row with the same key.
\<close>

locale cql =
  fixes Q :: "'q cql_session"
    and entry_rows :: "'q \<Rightarrow> string \<Rightarrow> entry_row list"
    and snapshot_rows :: "'q \<Rightarrow> string \<Rightarrow> snapshot_row list"
    and live :: "'q \<Rightarrow> bool"
  assumes insert_free:
      "\<lbrakk>live q; entry_row_fits c r; row_sequence r \<notin> row_sequence ` set (entry_rows q c)\<rbrakk> \<Longrightarrow>
       \<exists>q'. insert_entry_if_not_exists Q c r q = (Inr True, q') \<and> live q'
         \<and> snapshot_rows q' = snapshot_rows q
         \<and> entry_rows q' = (entry_rows q)(c := insort_key row_sequence (stored_entry_row r) (entry_rows q c))"
    and insert_taken:
      "\<lbrakk>live q; entry_row_fits c r; row_sequence r \<in> row_sequence ` set (entry_rows q c)\<rbrakk> \<Longrightarrow>
       insert_entry_if_not_exists Q c r q = (Inr False, q)"
    and last_row:
      "\<lbrakk>live q; utf8_valid c\<rbrakk> \<Longrightarrow> select_last_entry Q c q =
         \<lparr>iter_rows = take 1 (rev (entry_rows q c)), iter_err = None\<rparr>"
    and row_at:
      "\<lbrakk>live q; utf8_valid c\<rbrakk> \<Longrightarrow> select_entry Q c i q =
         \<lparr>iter_rows = filter (\<lambda>r. row_sequence r = i) (entry_rows q c), iter_err = None\<rparr>"
    and rows_from:
      "\<lbrakk>live q; utf8_valid c\<rbrakk> \<Longrightarrow> select_entries_from Q c i q =
         \<lparr>iter_rows = filter (\<lambda>r. i \<le> row_sequence r) (entry_rows q c), iter_err = None\<rparr>"
    and upsert_snapshot:
      "\<lbrakk>live q; snapshot_row_fits c p\<rbrakk> \<Longrightarrow>
       \<exists>q'. insert_snapshot Q c p q = (None, q') \<and> live q' \<and> entry_rows q' = entry_rows q
         \<and> snapshot_rows q' = (snapshot_rows q)(c := insort_key row_snapshot_index (stored_snapshot_row p)
              (filter (\<lambda>p'. row_snapshot_index p' \<noteq> row_snapshot_index p) (snapshot_rows q c)))"
    and snapshot_row_at:
      "\<lbrakk>live q; utf8_valid c\<rbrakk> \<Longrightarrow> select_snapshot Q c i q =
         (case filter (\<lambda>p. row_snapshot_index p = i) (snapshot_rows q c) of
            [] \<Rightarrow> Inl gocql_ErrNotFound | p # _ \<Rightarrow> Inr p)"
    and latest_snapshot_row:
      "\<lbrakk>live q; utf8_valid c\<rbrakk> \<Longrightarrow> select_latest_snapshot Q c q =
         (case rev (snapshot_rows q c) of [] \<Rightarrow> Inl gocql_ErrNotFound | p # _ \<Rightarrow> Inr p)"

section \<open>The adapter satisfies the storage contract\<close>

text \<open>The abstraction of a partition, and the entries that a row can carry unchanged.\<close>

definition scylla_ents :: "('q \<Rightarrow> string \<Rightarrow> entry_row list) \<Rightarrow> 'q \<Rightarrow> string \<Rightarrow> LogEntry list" where
  "scylla_ents rows q c = map (row_entry c) (rows q c)"

definition scylla_snaps :: "('q \<Rightarrow> string \<Rightarrow> snapshot_row list) \<Rightarrow> 'q \<Rightarrow> string \<Rightarrow> MerkleSnapshot list" where
  "scylla_snaps rows q c = map (\<lambda>r. row_snapshot c (uint64_of (row_snapshot_index r)) r) (rows q c)"

text \<open>The keys of a list of rows are exactly 0, 1, 2, ...\<close>

definition dense :: "('r \<Rightarrow> int) \<Rightarrow> 'r list \<Rightarrow> bool" where
  "dense key rs \<longleftrightarrow> map key rs = map int [0..<length rs] \<and> length rs < max_slice"

definition scylla_ok ::
  "('q \<Rightarrow> string \<Rightarrow> entry_row list) \<Rightarrow> ('q \<Rightarrow> string \<Rightarrow> snapshot_row list) \<Rightarrow> ('q \<Rightarrow> bool) \<Rightarrow> 'q \<Rightarrow> bool" where
  "scylla_ok erows srows live q \<longleftrightarrow> live q \<and>
     (\<forall>c. dense row_sequence (erows q c) \<and> dense row_snapshot_index (srows q c))"

definition scylla_storable :: "string \<Rightarrow> LogEntry \<Rightarrow> bool" where
  "scylla_storable c e \<longleftrightarrow> ChatID (Message e) = c \<and> Timestamp (Message e) mod 1000000 = 0
     \<and> entry_row_fits c (entry_columns e)"

lemma uint64_of_int64_of [simp]: "uint64_of (int64_of x) = x"
  by (simp add: uint64_of_def int64_of_def)

lemma int64_of_small: "unat x < max_slice \<Longrightarrow> int64_of x = int (unat x)"
proof -
  assume "unat x < max_slice"
  then have "sint (to_uint64 (unat x)) = int (unat x)"
    by (rule sint_to_uint64)
  moreover have "to_uint64 (unat x) = x"
    by (simp add: to_uint64_def)
  ultimately show ?thesis
    by (simp only: int64_of_def)
qed

lemma int64_of_big: "\<not> unat x < max_slice \<Longrightarrow> int64_of x = int (unat x) - 2 ^ 64"
proof -
  define k where "k = int (unat x) - 2 ^ 64"
  assume "\<not> unat x < max_slice"
  then have "int (2 ^ 63) \<le> int (unat x)"
    by (simp only: max_slice_def linorder_not_less of_nat_le_iff)
  moreover have "int (unat x) < int (2 ^ 64)"
    using unsigned_less [of x, where ?'a = nat] by (simp only: of_nat_less_iff) simp
  ultimately have "- (2 ^ 63) \<le> k" "k < 2 ^ 63"
    by (simp_all add: k_def)
  then have "sint (word_of_int k :: uint64) = k"
    by (simp add: signed_of_int signed_take_bit_int_eq_self)
  moreover have "(word_of_int (2 ^ 64) :: uint64) = 0"
    by simp
  then have "word_of_int k = x"
    by (simp only: k_def of_int_diff) simp
  ultimately show ?thesis
    by (simp only: int64_of_def k_def)
qed

lemma int64_of_negative: "\<not> unat x < max_slice \<Longrightarrow> int64_of x < 0"
proof -
  assume *: "\<not> unat x < max_slice"
  have "int (unat x) < int (2 ^ 64)"
    using unsigned_less [of x, where ?'a = nat] by (simp only: of_nat_less_iff) simp
  then show ?thesis
    unfolding int64_of_big [OF *] by (simp only: diff_less_0_iff_less of_nat_power of_nat_numeral)
qed

text \<open>So a list is indexed in the same way before and after the conversion to \<open>int64\<close>.\<close>

lemma int64_index:
  assumes "n < max_slice"
  shows "0 \<le> int64_of i \<and> int64_of i < int n \<longleftrightarrow> unat i < n" "unat i < n \<Longrightarrow> nat (int64_of i) = unat i"
proof -
  define u where "u = unat i"
  have "u < 2 ^ 64"
    unfolding u_def using unsigned_less [of i, where ?'a = nat] by simp
  then have "int u < 2 ^ 64"
    by simp
  moreover have "int64_of i = (if u < max_slice then int u else int u - 2 ^ 64)"
    unfolding u_def using int64_of_small [of i] int64_of_big [of i] by presburger
  ultimately show "0 \<le> int64_of i \<and> int64_of i < int n \<longleftrightarrow> unat i < n"
    "unat i < n \<Longrightarrow> nat (int64_of i) = unat i"
    using assms unfolding u_def [symmetric] by (auto split: if_splits)
qed

lemma dense_length: "dense key rs \<Longrightarrow> length rs < max_slice"
  by (simp add: dense_def)

lemma dense_Nil [simp]: "dense key []"
  by (simp add: dense_def max_slice_def)

lemma dense_nth: "dense key rs \<Longrightarrow> i < length rs \<Longrightarrow> key (rs ! i) = int i"
proof -
  assume "dense key rs" "i < length rs"
  then have "map key rs ! i = map int [0..<length rs] ! i"
    by (simp only: dense_def)
  with \<open>i < length rs\<close> show ?thesis
    by simp
qed

lemma dense_key: "dense key rs \<Longrightarrow> i \<in> key ` set rs \<longleftrightarrow> 0 \<le> i \<and> i < int (length rs)"
proof -
  assume "dense key rs"
  then have "key ` set rs = int ` {0..<length rs}"
    by (metis dense_def image_set set_upt)
  then show ?thesis
    by (simp add: image_int_atLeastLessThan)
qed

lemma dense_insort:
  assumes "dense key rs" "key r = int (length rs)" "length rs + 1 < max_slice"
  shows "insort_key key r rs = rs @ [r]" "dense key (rs @ [r])"
proof -
  have "key x < key r" if "x \<in> set rs" for x
    using that dense_key [OF assms(1), of "key x"] assms(2) by auto
  then show "insort_key key r rs = rs @ [r]"
    by (induction rs) fastforce+
  show "dense key (rs @ [r])"
    using assms by (simp add: dense_def)
qed

lemma dense_snoc:
  "dense key (rs @ [r]) \<longleftrightarrow> dense key rs \<and> key r = int (length rs) \<and> length rs + 1 < max_slice"
  by (auto simp: dense_def)

lemma dense_filter_eq:
  "dense key rs \<Longrightarrow> filter (\<lambda>r. key r = i) rs = (if 0 \<le> i \<and> i < int (length rs) then [rs ! nat i] else [])"
  by (induction rs rule: rev_induct) (auto simp: dense_snoc nth_append)

lemma dense_filter_le:
  "dense key rs \<Longrightarrow> filter (\<lambda>r. i \<le> key r) rs = drop (nat i) rs"
  by (induction rs rule: rev_induct) (auto simp: dense_snoc)

lemma scan_all_rows: "scan_all c iter out = out @ map (row_entry c) (iter_rows iter)"
proof (induction "iter_rows iter" arbitrary: iter out)
  case Nil
  then show ?case
    by (subst scan_all.simps) (simp add: scanEntry_def split: list.split)
next
  case (Cons r rs)
  then show ?case
    using Cons(1) [of "iter\<lparr>iter_rows := rs\<rparr>" "out @ [row_entry c r]"]
    by (subst scan_all.simps) (simp add: scanEntry_def flip: Cons(2))
qed

lemma row_entry_stored:
  "scylla_storable c e \<Longrightarrow> row_entry c (stored_entry_row (entry_columns e)) = e"
  by (simp add: scylla_storable_def row_entry_def stored_entry_row_def entry_columns_def Let_def Truncate_ms_fixed)

lemma row_snapshot_stored:
  "snap_ChatID p = c \<Longrightarrow>
   row_snapshot c (uint64_of (row_snapshot_index (stored_snapshot_row (snapshot_columns p))))
     (stored_snapshot_row (snapshot_columns p)) = p\<lparr>CreatedAt := Truncate_ms (CreatedAt p)\<rparr>"
  by (simp add: row_snapshot_def stored_snapshot_row_def snapshot_columns_def)

lemma is_hex_utf8: "\<forall>ch\<in>set s. is_hex ch \<Longrightarrow> utf8_valid s"
  by (rule utf8_valid_ascii) (auto simp: is_hex_def is_digit_def)

lemma Scylla_ops_simps [simp]:
  "AppendEntry (Scylla_ops Q) = scylla_AppendEntry Q" "LastEntry (Scylla_ops Q) = scylla_LastEntry Q"
  "Entry (Scylla_ops Q) = scylla_Entry Q" "EntriesSince (Scylla_ops Q) = scylla_EntriesSince Q"
  "SaveSnapshot (Scylla_ops Q) = scylla_SaveSnapshot Q"
  "LatestSnapshot (Scylla_ops Q) = scylla_LatestSnapshot Q"
  "SnapshotAt (Scylla_ops Q) = scylla_SnapshotAt Q"
  by (simp_all add: Scylla_ops_def)

lemma Iter_simps [simp]:
  "scanEntry c \<lparr>iter_rows = [], iter_err = x\<rparr> = None"
  "scanEntry c \<lparr>iter_rows = r # rs, iter_err = x\<rparr> = Some (row_entry c r, \<lparr>iter_rows = rs, iter_err = x\<rparr>)"
  by (simp_all add: scanEntry_def)

context cql
begin

abbreviation "ents \<equiv> scylla_ents entry_rows"
abbreviation "snaps \<equiv> scylla_snaps snapshot_rows"
abbreviation "ok \<equiv> scylla_ok entry_rows snapshot_rows live"

lemma okD:
  assumes "ok q"
  shows "live q" "dense row_sequence (entry_rows q c)" "dense row_snapshot_index (snapshot_rows q c)"
    "length (ents q c) = length (entry_rows q c)" "length (snaps q c) = length (snapshot_rows q c)"
  using assms by (simp_all add: scylla_ok_def scylla_ents_def scylla_snaps_def)

lemma append_free:
  assumes "ok q" "entry_row_fits c (entry_columns e)" "unat (Sequence e) = length (ents q c)"
    "length (ents q c) + 1 < max_slice"
  obtains q' where "scylla_AppendEntry Q c e q = (None, q')" "ok q'" "snaps q' = snaps q"
    "ents q' = (ents q)(c := ents q c @ [row_entry c (stored_entry_row (entry_columns e))])"
proof -
  let ?r = "entry_columns e"
  have key: "row_sequence ?r = int (length (entry_rows q c))"
    using assms okD [OF assms(1)] int64_of_small [of "Sequence e"] by (simp add: entry_columns_def Let_def)
  then have "row_sequence ?r \<notin> row_sequence ` set (entry_rows q c)"
    by (simp add: dense_key [OF okD(2) [OF assms(1)]])
  from insert_free [OF okD(1) [OF assms(1)] assms(2) this] obtain q'
    where q': "insert_entry_if_not_exists Q c ?r q = (Inr True, q')" "live q'" "snapshot_rows q' = snapshot_rows q"
      "entry_rows q' = (entry_rows q)(c := insort_key row_sequence (stored_entry_row ?r) (entry_rows q c))"
    by blast
  have "row_sequence (stored_entry_row ?r) = int (length (entry_rows q c))"
    using key by (simp add: stored_entry_row_def)
  note ins = dense_insort [OF okD(2) [OF assms(1)] this]
  show thesis
    using q' ins assms(1,4) okD [OF assms(1)]
    by (intro that [of q'])
      (simp_all add: scylla_AppendEntry_def scylla_ok_def fun_eq_iff scylla_snaps_def scylla_ents_def)
qed

end

sublocale cql \<subseteq> storage_port "Scylla_ops Q" ents snaps ok utf8_valid scylla_storable Truncate_ms
proof (unfold_locales, goal_cases)
  case (1 s c)
  then show ?case
    using okD [OF 1] dense_length [OF okD(2) [OF 1]] by simp
next
  case (2 s c)
  then show ?case
    using okD [OF 2] dense_length [OF okD(3) [OF 2]] by simp
next
  case (3 c e)
  then show ?case
    by (simp add: scylla_storable_def entry_row_fits_def)
next
  case (4 s e c)
  then have "entry_row_fits c (entry_columns e)"
    by (simp add: scylla_storable_def)
  from append_free [OF 4(1) this 4(2,3)] show ?case
    by (simp add: row_entry_stored [OF 4(4)]) metis
next
  case (5 s c)
  then show ?case
    using okD [OF 5(1)]
    by (cases "entry_rows s c" rule: rev_cases) (simp_all add: scylla_LastEntry_def scan_one_def last_row scylla_ents_def)
next
  case (6 s c i)
  note index = int64_index [OF dense_length [OF okD(2) [OF 6(1)]], of i c]
  then show ?case
    using 6 okD [OF 6(1)] by (simp add: scylla_Entry_def scan_one_def row_at scylla_ents_def dense_filter_eq)
next
  case (7 s c i)
  then show ?case
    using okD [OF 7(1)] int64_of_small [of i]
    by (simp add: scylla_EntriesSince_def rows_from scan_all_rows scylla_ents_def dense_filter_le drop_map)
next
  case (8 s p e)
  let ?c = "snap_ChatID p" and ?r = "snapshot_columns p"
  have fits: "snapshot_row_fits ?c ?r"
    using 8(4-6) is_hex_utf8 [of "MerkleRoot p"]
    by (simp add: snapshot_row_fits_def scylla_storable_def entry_row_fits_def snapshot_columns_def entry_columns_def Let_def)
  have key: "row_snapshot_index ?r = int (length (snapshot_rows s ?c))"
    using 8(1-3) okD [OF 8(1)] int64_of_small [of "SnapshotIndex p"] by (simp add: snapshot_columns_def)
  have "row_snapshot_index q \<noteq> row_snapshot_index ?r" if "q \<in> set (snapshot_rows s ?c)" for q
    using that dense_key [OF okD(3) [OF 8(1)], of "row_snapshot_index q" ?c] key by auto
  then have all: "filter (\<lambda>q. row_snapshot_index q \<noteq> row_snapshot_index ?r) (snapshot_rows s ?c) = snapshot_rows s ?c"
    by (simp add: filter_id_conv)
  have "row_snapshot_index (stored_snapshot_row ?r) = int (length (snapshot_rows s ?c))"
    using key by (simp add: stored_snapshot_row_def)
  note ins = dense_insort [OF okD(3) [OF 8(1)] this]
  obtain q where "insert_snapshot Q ?c ?r s = (None, q)" "live q" "entry_rows q = entry_rows s"
    "snapshot_rows q = (snapshot_rows s)(?c := snapshot_rows s ?c @ [stored_snapshot_row ?r])"
    using upsert_snapshot [OF okD(1) [OF 8(1)] fits] 8(3) okD [OF 8(1)] ins by (auto simp: all)
  then show ?case
    using okD [OF 8(1)] ins 8(3) row_snapshot_stored [of p, OF refl]
    by (simp add: scylla_SaveSnapshot_def scylla_ok_def fun_eq_iff scylla_snaps_def scylla_ents_def)
next
  case (9 s c)
  then show ?case
    using okD [OF 9(1)]
    by (cases "snapshot_rows s c" rule: rev_cases) (simp_all add: scylla_LatestSnapshot_def latest_snapshot_row scylla_snaps_def)
next
  case (10 s c i)
  note index = int64_index [OF dense_length [OF okD(3) [OF 10(1)]], of i c]
  have "uint64_of (row_snapshot_index (snapshot_rows s c ! unat i)) = i" if "unat i < length (snapshot_rows s c)"
    using that dense_nth [OF okD(3) [OF 10(1)], of "unat i" c] by (simp add: uint64_of_def)
  then show ?case
    using 10 okD [OF 10(1)] index
    by (simp add: scylla_SnapshotAt_def snapshot_row_at scylla_snaps_def dense_filter_eq err_defs)
qed

context cql
begin

lemma scylla_storage:
  "storage_port (Scylla_ops Q) (scylla_ents entry_rows) (scylla_snaps snapshot_rows)
     (scylla_ok entry_rows snapshot_rows live) utf8_valid scylla_storable Truncate_ms"
  by (rule storage_port_axioms)

end

section \<open>A cluster held in memory\<close>

text \<open>
  A concrete session, which shows that the assumptions can be met: partitions are lists of rows in
  clustering order, and a statement whose values do not fit the columns fails.
\<close>

record cql_tables =
  entry_part :: "string \<Rightarrow> entry_row list"
  snapshot_part :: "string \<Rightarrow> snapshot_row list"

definition empty_tables :: cql_tables where
  "empty_tables = \<lparr>entry_part = \<lambda>c. [], snapshot_part = \<lambda>c. []\<rparr>"

definition invalid_value :: go_error where
  "invalid_value = External ''invalid value''"

definition table_insert_entry :: "string \<Rightarrow> entry_row \<Rightarrow> cql_tables \<Rightarrow> bool res \<times> cql_tables" where
  "table_insert_entry c r q =
     (if \<not> entry_row_fits c r then (Inl invalid_value, q)
      else if row_sequence r \<in> row_sequence ` set (entry_part q c) then (Inr False, q)
      else (Inr True, q\<lparr>entry_part := (entry_part q)(c := insort_key row_sequence (stored_entry_row r) (entry_part q c))\<rparr>))"

definition table_insert_snapshot :: "string \<Rightarrow> snapshot_row \<Rightarrow> cql_tables \<Rightarrow> go_error option \<times> cql_tables" where
  "table_insert_snapshot c r q =
     (if \<not> snapshot_row_fits c r then (Some invalid_value, q)
      else (None, q\<lparr>snapshot_part := (snapshot_part q)(c := insort_key row_snapshot_index (stored_snapshot_row r)
              (filter (\<lambda>p. row_snapshot_index p \<noteq> row_snapshot_index r) (snapshot_part q c)))\<rparr>))"

definition table_select :: "string \<Rightarrow> entry_row list \<Rightarrow> Iter" where
  "table_select c rs = (if utf8_valid c then \<lparr>iter_rows = rs, iter_err = None\<rparr>
     else \<lparr>iter_rows = [], iter_err = Some invalid_value\<rparr>)"

definition table_snapshot :: "string \<Rightarrow> snapshot_row list \<Rightarrow> snapshot_row res" where
  "table_snapshot c rs = (if utf8_valid c then (case rs of [] \<Rightarrow> Inl gocql_ErrNotFound | p # _ \<Rightarrow> Inr p)
     else Inl invalid_value)"

definition table_session :: "cql_tables cql_session" where
  "table_session =
     \<lparr>insert_entry_if_not_exists = table_insert_entry,
      select_last_entry = \<lambda>c q. table_select c (take 1 (rev (entry_part q c))),
      select_entry = \<lambda>c i q. table_select c (filter (\<lambda>r. row_sequence r = i) (entry_part q c)),
      select_entries_from = \<lambda>c i q. table_select c (filter (\<lambda>r. i \<le> row_sequence r) (entry_part q c)),
      select_snapshot = \<lambda>c i q. table_snapshot c (filter (\<lambda>p. row_snapshot_index p = i) (snapshot_part q c)),
      insert_snapshot = table_insert_snapshot,
      select_latest_snapshot = \<lambda>c q. table_snapshot c (rev (snapshot_part q c)),
      session_close = \<lambda>q. q\<rparr>"

interpretation table: cql table_session entry_part snapshot_part "\<lambda>q. True"
  by unfold_locales
    (simp_all add: table_session_def table_insert_entry_def table_insert_snapshot_def table_select_def
      table_snapshot_def)

end
