(* ===== verification/Scylla_Node.thy ===== *)
theory Scylla_Node
  imports Scylla Chatlog_Props
begin

text \<open>
  The log on the ScyllaDB adapter. Over any session that behaves like a table with a clustering key,
  a node on ScyllaDB stores and answers the same as a node in memory, for messages that the
  columns can represent; the theory also shows what happens with the others.
\<close>

section \<open>A node on ScyllaDB\<close>

text \<open>A node as \<open>main\<close> assembles it when ScyllaDB hosts are configured.\<close>

definition scylla_node ::
  "'q cql_session \<Rightarrow> 'q \<Rightarrow> 'c cache_ops \<Rightarrow> 'c \<Rightarrow> 'b broker_ops \<Rightarrow> 'b \<Rightarrow> ('q, 'c, 'b) Log" where
  "scylla_node Q q C c B b = WithBroker B b (WithCache C c (New (Scylla_ops Q) q))"

text \<open>The messages that survive the columns: text is UTF-8, the time is a whole millisecond in range.\<close>

definition column_message :: "SignedMessage \<Rightarrow> bool" where
  "column_message m \<longleftrightarrow> message_utf8 m \<and> - (2 ^ 31) \<le> SchemaVersion m \<and> SchemaVersion m < 2 ^ 31
     \<and> ms_fits (Timestamp m)"

lemma GenesisHash_hex: "\<forall>ch\<in>set GenesisHash. is_hex ch"
  by (simp add: GenesisHash_def is_hex_def is_digit_def)

lemma tip_hash_utf8: "chained ed es \<Longrightarrow> utf8_valid (tip_hash es)"
proof (cases es rule: rev_cases)
  case Nil
  then show ?thesis
    using GenesisHash_hex by (simp add: is_hex_utf8)
next
  case (snoc fs e)
  assume "chained ed es"
  then have "EntryHash e = ComputeHash e"
    by (simp add: snoc chained_snoc entry_ok_def)
  then show ?thesis
    using ComputeHash_hex by (auto simp: snoc intro: is_hex_utf8)
qed

lemma next_entry_fits:
  assumes "column_message m" "chained ed es"
  shows "entry_row_fits (ChatID m) (entry_columns (next_entry es m))"
proof -
  have "utf8_valid (EntryHash (next_entry es m))"
    using ComputeHash_hex [of _ "next_entry es m"] by (auto simp: next_entry_hash intro: is_hex_utf8)
  then show ?thesis
    using assms tip_hash_utf8 [OF assms(2)]
    by (simp add: column_message_def entry_row_fits_def entry_columns_def message_utf8_def Let_def)
qed

lemma next_entry_storable:
  "\<lbrakk>column_message m; Timestamp m mod 1000000 = 0; chained ed es\<rbrakk> \<Longrightarrow> scylla_storable (ChatID m) (next_entry es m)"
  by (simp add: scylla_storable_def next_entry_fits)

lemma scylla_node_inv:
  assumes "cql Q erows srows live" "live q" "\<And>c. erows q c = []" "\<And>c. srows q c = []"
  shows "log_inv ed (Scylla_ops Q) (scylla_ents erows) (scylla_snaps srows) (scylla_ok erows srows live)
    (scylla_node Q q C c B b)"
  using assms(2-4)
  by (simp add: log_inv_def scylla_node_def WithBroker_def WithCache_def New_def scylla_ok_def scylla_ents_def
      scylla_snaps_def chat_ok_def sealed_def)

text \<open>What the two backends hold after the same calls.\<close>

lemma backends:
  assumes cql: "cql Q erows srows live" "live q" "\<forall>c. erows q c = [] \<and> srows q c = []"
    and ops: "\<forall>op\<in>set ops. \<forall>m\<in>op_messages op. column_message m \<and> Timestamp m mod 1000000 = 0"
      "length ops < max_slice"
    and l: "l = run ed ops (scylla_node Q q C c B b)" "l' = run ed ops (new_node C' c' B' b')"
  shows "log_inv ed (Scylla_ops Q) (scylla_ents erows) (scylla_snaps srows) (scylla_ok erows srows live) l"
    "log_inv ed InMemoryStorage_ops mem_ents mem_snaps mem_ok l'"
    "scylla_ents erows (store l) = mem_ents (store l')"
proof -
  have empty: "erows q c = []" "srows q c = []" for c
    using cql(3) by simp_all
  note inv = scylla_node_inv [OF cql(1,2) empty]
  note port = cql.scylla_storage [OF cql(1)]
  have new: "scylla_ents erows (store (scylla_node Q q C c B b)) = (\<lambda>d. [])"
    by (simp add: scylla_node_def WithBroker_def WithCache_def New_def scylla_ents_def empty fun_eq_iff)
  have storable: "scylla_storable (ChatID m) (next_entry es m)"
    if "op \<in> set ops" "m \<in> op_messages op" "chained ed es" for op m es
    by (rule next_entry_storable [OF _ _ that(3)]) (use ops(1) that(1,2) in auto)
  show "log_inv ed (Scylla_ops Q) (scylla_ents erows) (scylla_snaps srows) (scylla_ok erows srows live) l"
    unfolding l by (rule storage_port.run_inv [OF port inv, THEN conjunct1]) (use storable new ops(2) in auto)
  show "log_inv ed InMemoryStorage_ops mem_ents mem_snaps mem_ok l'"
    unfolding l by (rule node_inv) (rule ops)
  have "mem_ents (store l') = fold (abs_exec ed) ops (\<lambda>d. [])"
    unfolding l by (rule node_ents) (rule ops)
  moreover have "scylla_ents erows (store l) = fold (abs_exec ed) ops (scylla_ents erows (store (scylla_node Q q C c B b)))"
    unfolding l by (rule storage_port.run_abs [OF port inv]) (use storable new ops(2) in auto)
  ultimately show "scylla_ents erows (store l) = mem_ents (store l')"
    using new by simp
qed

section \<open>Two stores with the same entries give the same answers\<close>

text \<open>A bundle without the wall-clock time at which the node made its snapshot.\<close>

definition undated :: "SyncBundle \<Rightarrow> SyncBundle" where
  "undated bd = bd\<lparr>Snapshot := map_option (\<lambda>p. p\<lparr>CreatedAt := 0\<rparr>) (Snapshot bd)\<rparr>"

lemma seals_undated: "seals c es i p \<Longrightarrow> seals c es i p' \<Longrightarrow> p\<lparr>CreatedAt := t\<rparr> = p'\<lparr>CreatedAt := t\<rparr>"
  by (cases p; cases p') (simp add: seals_def)

lemma sealed_undated:
  assumes "sealed c es ps" "sealed c es ps'" "ps \<noteq> []"
  shows "ps' \<noteq> [] \<and> (last ps)\<lparr>CreatedAt := t\<rparr> = (last ps')\<lparr>CreatedAt := t\<rparr>"
proof -
  have len: "length ps = length ps'"
    using assms(1,2) by (simp add: sealed_def)
  then have "ps' \<noteq> []"
    using assms(3) by auto
  moreover have "length ps - 1 < length ps" "length ps - 1 < length ps'"
    using assms(3) len by (auto simp flip: length_greater_0_conv)
  then have "seals c es (length ps - 1) (last ps)" "seals c es (length ps - 1) (last ps')"
    using sealed_window [OF assms(1)] sealed_window [OF assms(2)] len assms(3) \<open>ps' \<noteq> []\<close>
    by (simp_all add: last_conv_nth)
  ultimately show ?thesis
    using seals_undated by blast
qed

lemma readers_agree:
  fixes l :: "('s, 'c, 'b) Log" and l' :: "('t, 'd, 'e) Log"
  assumes A: "storage_port S ents snaps ok name st stamp" "log_inv ed S ents snaps ok l" "name c"
    and B: "storage_port S' ents' snaps' ok' name' st' stamp'" "log_inv ed S' ents' snaps' ok' l'" "name' c"
    and es: "ents (store l) c = es" "ents' (store l') c = es"
  shows "Log_Verify ed c l = Log_Verify ed c l'" "VerifyEntry ed c i l = VerifyEntry ed c i l'"
    "unat i < max_slice \<Longrightarrow> History c i k l = History c i k l'"
    "ProveInclusion c i l = ProveInclusion c i l'"
    "map_sum id undated (Sync c l) = map_sum id undated (Sync c l')"
proof -
  have ok: "store_ops l = S" "ok (store l)" "store_ops l' = S'" "ok' (store l')"
    "sealed c es (snaps (store l) c)" "sealed c es (snaps' (store l') c)"
    using A(2) [unfolded log_inv_def chat_ok_def] B(2) [unfolded log_inv_def chat_ok_def]
    by (simp_all flip: es(1)) (metis es)
  show "Log_Verify ed c l = Log_Verify ed c l'"
    using storage_port.Log_Verify_spec [OF A(1) ok(1,2) A(3), of ed]
      storage_port.Log_Verify_spec [OF B(1) ok(3,4) B(3), of ed] by (simp only: es)
  have "Entry (store_ops l) c j (store l) = Entry (store_ops l') c j (store l')" for j
    using storage_port.entry_at [OF A(1) ok(2) A(3), of j] storage_port.entry_at [OF B(1) ok(4) B(3), of j] ok es
    by simp
  then show "VerifyEntry ed c i l = VerifyEntry ed c i l'"
    by (simp only: VerifyEntry_def)
  show "History c i k l = History c i k l'" if "unat i < max_slice"
    using storage_port.History_spec [OF A(1) ok(1,2) A(3) that, of k]
      storage_port.History_spec [OF B(1) ok(3,4) B(3) that, of k] es by simp
  show "ProveInclusion c i l = ProveInclusion c i l'"
  proof (cases "unat i < 100 * (length es div 100)")
    case True
    from storage_port.ProveInclusion_sealed [OF A(1,2) this es(1) A(3)]
      storage_port.ProveInclusion_sealed [OF B(1,2) this es(2) B(3)]
    show ?thesis
      by (metis prod.inject)
  next
    case False
    then show ?thesis
      using storage_port.ProveInclusion_missing [OF A(1,2) _ A(3), of i]
        storage_port.ProveInclusion_missing [OF B(1,2) _ B(3), of i] es by simp
  qed
  show "map_sum id undated (Sync c l) = map_sum id undated (Sync c l')"
  proof (cases "snaps (store l) c = []")
    case True
    moreover have "snaps' (store l') c = []"
      using True ok(5,6) by (simp add: sealed_def)
    ultimately show ?thesis
      using storage_port.Sync_spec [OF A(1,2) es(1) refl A(3)] storage_port.Sync_spec [OF B(1,2) es(2) refl B(3)]
      by simp
  next
    case False
    moreover have "length (snaps (store l) c) = length (snaps' (store l') c)"
      using ok(5,6) by (simp add: sealed_def)
    ultimately show ?thesis
      using storage_port.Sync_spec [OF A(1,2) es(1) refl A(3)] storage_port.Sync_spec [OF B(1,2) es(2) refl B(3)]
        sealed_undated [OF ok(5,6) False, of 0]
      by (simp add: undated_def)
  qed
qed

section \<open>Properties\<close>

text \<open>A run that stores \<open>n\<close> messages, on both backends.\<close>

definition scylla_demo :: "nat \<Rightarrow> (cql_tables, unit, nat) Log" where
  "scylla_demo n = run toy_scheme (demo_run n) (scylla_node table_session empty_tables Noop_cache () Noop_broker 0)"

lemma demo_columns: "column_message signed_example \<and> Timestamp signed_example mod 1000000 = 0"
  using signed_example_utf8
  by (simp add: column_message_def signed_example_def example_message_def ms_fits_def)

lemma empty_tables_parts: "entry_part empty_tables c = []" "snapshot_part empty_tables c = []"
  by (simp_all add: empty_tables_def)



text \<open>What the table keeps of an entry whose timestamp is finer than a millisecond.\<close>

definition truncated :: "LogEntry \<Rightarrow> LogEntry" where
  "truncated e = e\<lparr>Message := (Message e)\<lparr>Timestamp := Truncate_ms (Timestamp (Message e))\<rparr>\<rparr>"

lemma row_entry_truncated:
  "ChatID (Message e) = c \<Longrightarrow> row_entry c (stored_entry_row (entry_columns e)) = truncated e"
  by (simp add: truncated_def row_entry_def stored_entry_row_def entry_columns_def Let_def)

lemma truncated_hash:
  assumes "message_utf8 (Message e)" "Timestamp (Message e) mod 1000000 \<noteq> 0"
  shows "ComputeHash (truncated e) \<noteq> ComputeHash e \<or> collide (entry_preimages (truncated e)) (entry_preimages e)"
proof (rule ccontr)
  assume *: "\<not> ?thesis"
  have "message_utf8 (Message (truncated e))"
    using assms(1) by (simp add: truncated_def message_utf8_def)
  from ComputeHash_commits [OF this assms(1)] * have "Timestamp (Message (truncated e)) = Timestamp (Message e)"
    by auto
  then have "Truncate_ms (Timestamp (Message e)) = Timestamp (Message e)"
    by (simp add: truncated_def)
  with Truncate_ms_aligned [of "Timestamp (Message e)"] assms(2) show False
    by simp
qed

lemma scylla_Append_truncates:
  assumes "cql Q erows srows live"
    and "log_inv ed (Scylla_ops Q) (scylla_ents erows) (scylla_snaps srows) (scylla_ok erows srows live) l"
    and "acceptable ed m" "column_message m"
    and "scylla_ents erows (store l) (ChatID m) = es" "length es + 1 < max_slice" "(length es + 1) mod 100 \<noteq> 0"
  obtains l' where "Append ed now m l = (Inr (next_entry es m), l')" "store_ops l' = Scylla_ops Q"
    "scylla_ok erows srows live (store l')" "scylla_ents erows (store l') (ChatID m) = es @ [truncated (next_entry es m)]"
proof -
  let ?l = "snd (chatLock (ChatID m) l)" and ?e = "next_entry es m"
  have l: "store_ops l = Scylla_ops Q" "scylla_ok erows srows live (store l)" "chained ed es"
    using assms(2,5) by (auto simp: log_inv_def chat_ok_def)
  have fits: "entry_row_fits (ChatID m) (entry_columns ?e)"
    by (rule next_entry_fits [OF assms(4) l(3)])
  have "unat (Sequence ?e) = length (scylla_ents erows (store l) (ChatID m))"
    "length (scylla_ents erows (store l) (ChatID m)) + 1 < max_slice"
    using assms(5,6) by simp_all
  from cql.append_free [OF assms(1) l(2) fits this] obtain q
    where q: "scylla_AppendEntry Q (ChatID m) ?e (store l) = (None, q)" "scylla_ok erows srows live q"
      "scylla_ents erows q (ChatID m) = es @ [truncated ?e]"
    by (metis assms(5) fun_upd_same next_entry_simps(2) row_entry_truncated)
  have "utf8_valid (ChatID m)"
    using assms(4) by (simp add: column_message_def message_utf8_def)
  then have tip: "(case LastEntry (Scylla_ops Q) (ChatID m) (store l) of
            Inr lst \<Rightarrow> Inr (EntryHash lst, Sequence lst + 1)
          | Inl err \<Rightarrow> if errors_Is err ErrNotFound then Inr (GenesisHash, 0) else Inl (Wrapped ''read tip'' err))
       = Inr (tip_hash es, ulen es)"
    using storage_port.tip_spec [OF cql.scylla_storage [OF assms(1)] l(2), of ed "ChatID m"] l(3) assms(5) by simp
  have seq: "\<not> (ulen es + 1) mod SnapshotInterval = 0"
    unfolding ulen_def to_uint64_Suc using interval_mod [OF assms(6)] assms(7) by simp
  have "Append_locked now m ?l = (Inr ?e, publish (entry_event EntryAppended ?e) (?l\<lparr>store := q\<rparr>))"
    using tip q(1) seq l(1)
    by (simp add: Append_locked_def Let_def next_entry_def entry_event_def split: prod.split option.split)
  then show thesis
    using q l(1) Append_accepts [OF assms(3), of now l]
    by (intro that [of "publish (entry_event EntryAppended ?e) (?l\<lparr>store := q\<rparr>)"]) (simp_all add: publish_def)
qed

text \<open>
  C34. A timestamp finer than a millisecond breaks the log on ScyllaDB: a correctly signed message with
  such a timestamp is accepted and its entry returned, but the column keeps whole milliseconds
  only, so the stored entry no longer matches its hash and \<open>VerifyEntry\<close> reports it as tampered
  (unless two different SHA-256 inputs of the two entries collide).
\<close>

theorem scylla_submillisecond:
  assumes "cql Q erows srows live"
    and "log_inv ed (Scylla_ops Q) (scylla_ents erows) (scylla_snaps srows) (scylla_ok erows srows live) l"
    and "acceptable ed m" "column_message m" "Timestamp m mod 1000000 \<noteq> 0"
    and "scylla_ents erows (store l) (ChatID m) = es" "length es + 1 < max_slice" "(length es + 1) mod 100 \<noteq> 0"
    and "Append ed now m l = (r, l')"
  shows "r = Inr (next_entry es m)
    \<and> (VerifyEntry ed (ChatID m) (ulen es) l' = Inr \<lparr>mv_Sequence = ulen es, mv_Valid = False, mv_Reason = ''tampered entry''\<rparr>
       \<or> collide (entry_preimages (truncated (next_entry es m))) (entry_preimages (next_entry es m)))"
proof -
  let ?e = "next_entry es m"
  from scylla_Append_truncates [OF assms(1-4,6-8), of now] assms(9)
  have l': "r = Inr ?e" "store_ops l' = Scylla_ops Q" "scylla_ok erows srows live (store l')"
    "scylla_ents erows (store l') (ChatID m) = es @ [truncated ?e]"
    by (metis prod.inject)+
  have "utf8_valid (ChatID m)" "message_utf8 m"
    using assms(4) by (simp_all add: column_message_def message_utf8_def)
  with l' assms(7) have "Entry (store_ops l') (ChatID m) (ulen es) (store l') = Inr (truncated ?e)"
    using storage_port.entry_at [OF cql.scylla_storage [OF assms(1)] l'(3), of "ChatID m" "ulen es"] by simp
  moreover have "supportedVersion (SchemaVersion m)"
    using assms(3) by (simp add: acceptable_def)
  moreover have "ComputeHash (truncated ?e) \<noteq> EntryHash ?e \<or> collide (entry_preimages (truncated ?e)) (entry_preimages ?e)"
    using truncated_hash [of ?e] assms(5) \<open>message_utf8 m\<close> by (simp add: next_entry_hash)
  ultimately show ?thesis
    using l'(1) by (auto simp: VerifyEntry_def truncated_def)
qed

text \<open>A message signed at a time that is one nanosecond past a millisecond.\<close>

definition nano_message :: SignedMessage where
  "nano_message = example_message\<lparr>Timestamp := 1\<rparr>"

definition signed_nano :: SignedMessage where
  "signed_nano = nano_message\<lparr>Signature := replicate 32 7 @ sha256 (SigningPayload nano_message)\<rparr>"

lemma signed_nano_ok: "acceptable toy_scheme signed_nano" "column_message signed_nano"
  "Timestamp signed_nano = 1" "ChatID signed_nano = ''c1''"
proof -
  have "VerifyMessage toy_scheme signed_nano"
    by (simp add: VerifyMessage_iff signed_nano_def toy_scheme_def) (simp add: nano_message_def example_message_def)
  then show "acceptable toy_scheme signed_nano"
    by (simp add: acceptable_def signed_nano_def nano_message_def example_message_def supportedVersion_def
        CurrentSchemaVersion_def)
  show "column_message signed_nano"
    using example_message_utf8
    by (simp add: column_message_def message_utf8_def signed_nano_def nano_message_def ms_fits_def)
      (simp add: example_message_def)
  show "Timestamp signed_nano = 1" "ChatID signed_nano = ''c1''"
    by (simp_all add: signed_nano_def nano_message_def example_message_def)
qed

theorem scylla_submillisecond_witness:
  "let e = next_entry [] signed_nano; l = scylla_node table_session empty_tables Noop_cache () Noop_broker 0;
       (r, l') = Append toy_scheme 0 signed_nano l
   in r = Inr e
     \<and> (VerifyEntry toy_scheme ''c1'' (ulen ([] :: LogEntry list)) l'
          = Inr \<lparr>mv_Sequence = ulen ([] :: LogEntry list), mv_Valid = False, mv_Reason = ''tampered entry''\<rparr>
        \<or> collide (entry_preimages (truncated e)) (entry_preimages e))"
proof -
  let ?l = "scylla_node table_session empty_tables Noop_cache () Noop_broker 0"
  have "log_inv toy_scheme (Scylla_ops table_session) (scylla_ents entry_part) (scylla_snaps snapshot_part)
      (scylla_ok entry_part snapshot_part (\<lambda>q. True)) ?l"
    by (rule scylla_node_inv [OF table.cql_axioms]) (simp_all add: empty_tables_parts)
  moreover have "scylla_ents entry_part (store ?l) (ChatID signed_nano) = []"
    by (simp add: scylla_node_def WithBroker_def WithCache_def New_def scylla_ents_def empty_tables_parts)
  moreover obtain r l' where "Append toy_scheme 0 signed_nano ?l = (r, l')"
    by fastforce
  ultimately show ?thesis
    using scylla_submillisecond [OF table.cql_axioms _ signed_nano_ok(1,2), of ?l "[]" 0 r l'] signed_nano_ok(3,4)
    by (simp add: Let_def max_slice_def)
qed

text \<open>
  C35. Sequence numbers of 2 to the 63 and above wrap: converted to a signed column they become negative,
  so on ScyllaDB a history requested from such a number is the whole chat, where the in-memory store
  returns nothing.
\<close>

theorem scylla_from_wraps:
  assumes "cql Q erows srows live" "scylla_ok erows srows live q" "utf8_valid c" "max_slice \<le> unat i"
    and "mem_ok s"
  shows "EntriesSince (Scylla_ops Q) c i q = Inr (scylla_ents erows q c)
    \<and> EntriesSince InMemoryStorage_ops c i s = Inr []"
proof -
  have "int64_of i < 0"
    using assms(4) by (intro int64_of_negative) simp
  moreover have "live q" "dense row_sequence (erows q c)"
    using assms(2) by (simp_all add: scylla_ok_def)
  ultimately have "EntriesSince (Scylla_ops Q) c i q = Inr (scylla_ents erows q c)"
    using cql.rows_from [OF assms(1) _ assms(3), of q "int64_of i"]
    by (simp add: scylla_EntriesSince_def scan_all_rows scylla_ents_def dense_filter_le)
  moreover have "EntriesSince InMemoryStorage_ops c i s = Inr []"
    using mem.entries_beyond [OF assms(5) TrueI, of i c] assms(4) by simp
  ultimately show ?thesis ..
qed

theorem scylla_from_wraps_witness:
  "EntriesSince (Scylla_ops table_session) ''c1'' (- 1) (store (scylla_demo 3))
     = Inr (mem_ents (store (demo_node 3)) ''c1'')
    \<and> EntriesSince InMemoryStorage_ops ''c1'' (- 1) (store (demo_node 3)) = Inr []"
proof -
  have "\<forall>op\<in>set (demo_run 3). \<forall>m\<in>op_messages op. column_message m \<and> Timestamp m mod 1000000 = 0"
    using demo_columns by (simp add: demo_run_def)
  moreover have "\<forall>c. entry_part empty_tables c = [] \<and> snapshot_part empty_tables c = []"
    by (simp add: empty_tables_parts)
  moreover have "length (demo_run 3) < max_slice" "max_slice \<le> unat (- 1 :: uint64)"
    by (simp_all add: max_slice_def unsigned_minus_1_eq_mask mask_eq_exp_minus_1)
  ultimately show ?thesis
    using backends [OF table.cql_axioms TrueI _ _ _ scylla_demo_def demo_node_def]
      scylla_from_wraps [OF table.cql_axioms, of "store (scylla_demo 3)" "''c1''" "- 1" "store (demo_node 3)"]
    by (simp add: log_inv_def utf8_valid_ascii)
qed

text \<open>
  What the adapter's \<open>AppendEntry\<close> guarantees: a stored row is never overwritten, a second entry
  under the same number gets \<open>ErrSequenceGap\<close>; but an entry under any free number is stored, next
  in line or not, where the interface asks to reject it.
\<close>

theorem scylla_AppendEntry_cas:
  assumes "cql Q erows srows live" "live q" "entry_row_fits c (entry_columns e)"
  shows "if int64_of (Sequence e) \<in> row_sequence ` set (erows q c)
    then scylla_AppendEntry Q c e q = (Some ErrSequenceGap, q)
    else \<exists>q'. scylla_AppendEntry Q c e q = (None, q') \<and> srows q' = srows q
      \<and> (\<forall>d. set (erows q' d) = set (erows q d) \<union> (if d = c then {stored_entry_row (entry_columns e)} else {}))"
proof -
  have key: "row_sequence (entry_columns e) = int64_of (Sequence e)"
    by (simp add: entry_columns_def Let_def)
  show ?thesis
    using cql.insert_taken [OF assms] cql.insert_free [OF assms]
    by (auto simp: key scylla_AppendEntry_def set_insort_key)
qed

theorem scylla_AppendEntry_cas_witness:
  "let e = (next_entry [] signed_example)\<lparr>Sequence := 7\<rparr>
   in fst (scylla_AppendEntry table_session ''c1'' e empty_tables) = None
     \<and> fst (mem_AppendEntry ''c1'' e NewInMemoryStorage) = Some ErrSequenceGap"
proof -
  have "entry_row_fits ''c1'' (entry_columns (next_entry [] signed_example))"
    using next_entry_fits [of signed_example toy_scheme "[]"] demo_columns demo_chat by simp
  then have "entry_row_fits ''c1'' (entry_columns ((next_entry [] signed_example)\<lparr>Sequence := 7\<rparr>))"
    by (simp add: entry_row_fits_def entry_columns_def Let_def)
  from scylla_AppendEntry_cas [OF table.cql_axioms TrueI this, of empty_tables] show ?thesis
    by (auto simp: Let_def empty_tables_parts mem_AppendEntry_def NewInMemoryStorage_def)
qed

end
