(* ===== verification/Redis.thy ===== *)
theory Redis
  imports Node
begin

text \<open>
  The Redis adapter of \<open>internal/cache/redis.go\<close>. The client \<open>go-redis\<close> and the server are outside the
  repository: a client is a record of the commands that the adapter sends, and the locales \<open>redis\<close>
  and \<open>reliable_redis\<close> state what a \<open>SET\<close> and a \<open>GET\<close> do. The adapter keeps Merkle roots and public
  keys under different prefixes, satisfies the cache contract while the server answers, and serves
  an old root after a write that failed.
\<close>

section \<open>The code\<close>

record redis_options =
  opt_Addr :: string
  opt_Password :: string
  opt_DB :: int

text \<open>
  The commands, each with the timeout of its context. \<open>Set\<close> takes the key, the value and the time to
  live; errors include \<open>redis.Nil\<close> for a missing or expired key.
\<close>

record 'q redis_client =
  redis_Set :: "Time \<Rightarrow> string \<Rightarrow> byte list \<Rightarrow> Time \<Rightarrow> 'q \<Rightarrow> go_error option \<times> 'q"
  redis_Get :: "Time \<Rightarrow> string \<Rightarrow> 'q \<Rightarrow> byte list res"
  redis_Ping :: "Time \<Rightarrow> 'q \<Rightarrow> go_error option"
  redis_Close :: "'q \<Rightarrow> go_error option \<times> 'q"

record 'q Redis =
  client :: 'q
  ttl :: Time

definition NewRedis :: "(redis_options \<Rightarrow> 'q) \<Rightarrow> string \<Rightarrow> string \<Rightarrow> int \<Rightarrow> Time \<Rightarrow> 'q Redis" where
  "NewRedis NewClient addr password db t =
     \<lparr>client = NewClient \<lparr>opt_Addr = addr, opt_Password = password, opt_DB = db\<rparr>, ttl = t\<rparr>"

definition Redis_Ping :: "'q redis_client \<Rightarrow> Time \<Rightarrow> 'q Redis \<Rightarrow> go_error option" where
  "Redis_Ping Q ctx r = redis_Ping Q ctx (client r)"

definition Redis_Close :: "'q redis_client \<Rightarrow> 'q Redis \<Rightarrow> go_error option \<times> 'q Redis" where
  "Redis_Close Q r = (let (err, q) = redis_Close Q (client r) in (err, r\<lparr>client := q\<rparr>))"

text \<open>The timeout of every command's context.\<close>

definition Redis_ctx :: Time where
  "Redis_ctx = 2 * 1000000000"

definition root_key :: "string \<Rightarrow> string" where
  "root_key chatID = ''merkle_root:'' @ chatID"

definition pubkey_key :: "string \<Rightarrow> string" where
  "pubkey_key userID = ''pubkey:'' @ userID"

definition redis_SetMerkleRoot :: "'q redis_client \<Rightarrow> string \<Rightarrow> string \<Rightarrow> 'q Redis \<Rightarrow> 'q Redis" where
  "redis_SetMerkleRoot Q chatID root r =
     r\<lparr>client := snd (redis_Set Q Redis_ctx (root_key chatID) (bytes_of root) (ttl r) (client r))\<rparr>"

definition redis_GetMerkleRoot :: "'q redis_client \<Rightarrow> string \<Rightarrow> 'q Redis \<Rightarrow> string option" where
  "redis_GetMerkleRoot Q chatID r =
     (case redis_Get Q Redis_ctx (root_key chatID) (client r) of Inl err \<Rightarrow> None | Inr root \<Rightarrow> Some (string_of root))"

definition redis_SetPublicKey :: "'q redis_client \<Rightarrow> string \<Rightarrow> byte list \<Rightarrow> 'q Redis \<Rightarrow> 'q Redis" where
  "redis_SetPublicKey Q userID publicKey r =
     r\<lparr>client := snd (redis_Set Q Redis_ctx (pubkey_key userID) publicKey (ttl r) (client r))\<rparr>"

definition redis_GetPublicKey :: "'q redis_client \<Rightarrow> string \<Rightarrow> 'q Redis \<Rightarrow> byte list option" where
  "redis_GetPublicKey Q userID r =
     (case redis_Get Q Redis_ctx (pubkey_key userID) (client r) of Inl err \<Rightarrow> None | Inr key \<Rightarrow> Some key)"

definition Redis_ops :: "'q redis_client \<Rightarrow> 'q Redis cache_ops" where
  "Redis_ops Q =
     \<lparr>SetMerkleRoot = redis_SetMerkleRoot Q, GetMerkleRoot = redis_GetMerkleRoot Q,
      SetPublicKey = redis_SetPublicKey Q, GetPublicKey = redis_GetPublicKey Q\<rparr>"

section \<open>What the adapter relies on\<close>

text \<open>
  After a \<open>SET\<close> that was acknowledged, a \<open>GET\<close> of that key that finds a value finds the one that was set;
  other keys keep theirs. Expiry and failures make a \<open>GET\<close> answer an error, which the laws allow. A
  \<open>SET\<close> that failed changes nothing that a \<open>GET\<close> can see.
\<close>

locale redis =
  fixes Q :: "'q redis_client"
  assumes get_after_set:
      "\<lbrakk>redis_Set Q t k v life q = (None, q'); redis_Get Q t' k' q' = Inr x\<rbrakk> \<Longrightarrow>
       (if k' = k then x = v else redis_Get Q t' k' q = Inr x)"
    and get_after_failed_set:
      "redis_Set Q t k v life q = (Some err, q') \<Longrightarrow> redis_Get Q t' k' q' = redis_Get Q t' k' q"

text \<open>A server that acknowledges every write.\<close>

locale reliable_redis = redis +
  assumes set_succeeds: "fst (redis_Set Q t k v life q) = None"

lemma keys_apart [simp]:
  "root_key c \<noteq> pubkey_key u" "pubkey_key u \<noteq> root_key c"
  "root_key c = root_key d \<longleftrightarrow> c = d" "pubkey_key u = pubkey_key v \<longleftrightarrow> u = v"
  by (simp_all add: root_key_def pubkey_key_def)

lemmas redis_defs = Redis_ops_def redis_SetMerkleRoot_def redis_GetMerkleRoot_def redis_SetPublicKey_def
  redis_GetPublicKey_def

context reliable_redis
begin

lemma get_set:
  "redis_Get Q t' k' (snd (redis_Set Q t k v life q)) = Inr x \<Longrightarrow>
   (if k' = k then x = v else redis_Get Q t' k' q = Inr x)"
  using get_after_set [of t k v life q "snd (redis_Set Q t k v life q)" t' k' x] set_succeeds [of t k v life q]
  by (metis prod.collapse)

end

sublocale reliable_redis \<subseteq> cache_port "Redis_ops Q"
  by unfold_locales (auto simp: redis_defs split: sum.splits if_splits dest!: get_set)

context reliable_redis
begin

lemma redis_cache: "cache_port (Redis_ops Q)"
  by (rule cache_port_axioms)

end

section \<open>A server held in memory\<close>

definition table_redis :: "(string \<rightharpoonup> byte list) redis_client" where
  "table_redis =
     \<lparr>redis_Set = \<lambda>t k v life q. (None, q(k \<mapsto> v)),
      redis_Get = \<lambda>t k q. (case q k of None \<Rightarrow> Inl (External ''redis: nil'') | Some v \<Rightarrow> Inr v),
      redis_Ping = \<lambda>t q. None, redis_Close = \<lambda>q. (None, q)\<rparr>"

interpretation table_redis: reliable_redis table_redis
  by unfold_locales (auto simp: table_redis_def split: option.splits if_splits)

interpretation table_cache: exact_cache_port "Redis_ops table_redis"
  by unfold_locales (auto simp: redis_defs table_redis_def split: option.splits)

section \<open>Properties\<close>

text \<open>A node in memory with a Redis cache.\<close>

definition redis_node ::
  "'q redis_client \<Rightarrow> 'q Redis \<Rightarrow> ed25519 \<Rightarrow> log_op list \<Rightarrow> (InMemoryStorage, 'q Redis, InMemoryBroker) Log" where
  "redis_node Q r ed ops = run ed ops (new_node (Redis_ops Q) r InMemoryBroker_ops NewInMemoryBroker)"


text \<open>A Redis node after 100 messages.\<close>

definition redis_demo :: "(InMemoryStorage, (string \<rightharpoonup> byte list) Redis, InMemoryBroker) Log" where
  "redis_demo = redis_node table_redis (NewRedis (\<lambda>opts. Map.empty) ''localhost:6379'' [] 0 3600000000000)
     toy_scheme (demo_run 100)"

lemma empty_redis:
  "redis_GetMerkleRoot table_redis d (NewRedis (\<lambda>opts. Map.empty) a pw db t) = None"
  by (simp add: redis_GetMerkleRoot_def table_redis_def NewRedis_def)

lemma redis_demo_root:
  "\<exists>root. GetMerkleRoot (cache_ops redis_demo) ''c1'' (cache redis_demo) = Some root"
proof -
  let ?r = "NewRedis (\<lambda>opts. Map.empty) ''localhost:6379'' [] 0 3600000000000"
  have n: "length (demo_run 100) + 1 < max_slice" "100 < max_slice"
    by (simp_all add: max_slice_def)
  have "GetMerkleRoot (Redis_ops table_redis) d ?r = None" for d
    using empty_redis by (simp add: Redis_ops_def)
  from table_cache.cache_follows [OF this n(1), of toy_scheme InMemoryBroker_ops NewInMemoryBroker "''c1''"]
  have root: "GetMerkleRoot (cache_ops redis_demo) ''c1'' (cache redis_demo) =
      (if mem_snaps (store redis_demo) ''c1'' = [] then None
       else Some (MerkleRoot (last (mem_snaps (store redis_demo) ''c1''))))"
    by (simp add: redis_demo_def redis_node_def)
  have "mem_ents (store redis_demo) = mem_ents (store (demo_node 100))"
    using n by (simp add: redis_demo_def redis_node_def demo_node_def node_ents)
  then have "length (mem_ents (store redis_demo) ''c1'') = 100"
    using demo_entries [OF n(2)] by simp
  moreover have "reachable toy_scheme redis_demo"
    unfolding redis_demo_def redis_node_def reachable_def using n(1) by blast
  ultimately have "mem_snaps (store redis_demo) ''c1'' \<noteq> []"
    using reachable_snaps [of toy_scheme redis_demo "''c1''"] by auto
  then show ?thesis
    using root by simp
qed


text \<open>
  A write that fails is not noticed: \<open>SetMerkleRoot\<close> drops the error, and the cache goes on answering
  the root it had before.
\<close>

theorem redis_failed_set_keeps_old:
  assumes "redis Q" "redis_Set Q Redis_ctx (root_key c) (bytes_of root) (ttl r) (client r) = (Some err, q')"
  shows "redis_GetMerkleRoot Q d (redis_SetMerkleRoot Q c root r) = redis_GetMerkleRoot Q d r"
  using redis.get_after_failed_set [OF assms] assms(2)
  by (simp add: redis_GetMerkleRoot_def redis_SetMerkleRoot_def)

text \<open>A server that refuses every write.\<close>

definition readonly_redis :: "(string \<rightharpoonup> byte list) redis_client" where
  "readonly_redis = table_redis\<lparr>redis_Set := \<lambda>t k v life q. (Some (External ''READONLY''), q)\<rparr>"

interpretation readonly_redis: redis readonly_redis
  by unfold_locales (simp_all add: readonly_redis_def table_redis_def)

theorem redis_failed_set_keeps_old_witness:
  "redis_GetMerkleRoot readonly_redis ''c1'' (redis_SetMerkleRoot readonly_redis ''c1'' ''new''
      \<lparr>client = [root_key ''c1'' \<mapsto> bytes_of ''old''], ttl = 0\<rparr>) = Some ''old''"
proof -
  let ?r = "\<lparr>client = [root_key ''c1'' \<mapsto> bytes_of ''old''], ttl = 0\<rparr>"
  have "redis_Set readonly_redis Redis_ctx (root_key ''c1'') (bytes_of ''new'') (ttl ?r) (client ?r)
      = (Some (External ''READONLY''), client ?r)"
    by (simp add: readonly_redis_def)
  from redis_failed_set_keeps_old [OF readonly_redis.redis_axioms this, of "''c1''"] show ?thesis
    by (simp add: redis_GetMerkleRoot_def readonly_redis_def table_redis_def)
qed

end
