(* ===== verification/Cmd.thy ===== *)
theory Cmd
  imports Api_Props Scylla_Node Redis
begin

text \<open>
  The program \<open>cmd/messenger\<close>: how \<open>main\<close> chooses the adapters from the environment, assembles the node
  and the server, the built-in demonstration, and the shutdown of the HTTP server. Environment, clock,
  randomness and the drivers' constructors are arguments. A Go interface value that holds one of two
  implementations is a sum of their states, with the methods dispatched on it.
\<close>

section \<open>Interface values with two implementations\<close>

definition either :: "('a \<Rightarrow> 'x \<times> 'a) \<Rightarrow> ('b \<Rightarrow> 'x \<times> 'b) \<Rightarrow> 'a + 'b \<Rightarrow> 'x \<times> ('a + 'b)" where
  "either f g s = (case s of Inl a \<Rightarrow> map_prod id Inl (f a) | Inr b \<Rightarrow> map_prod id Inr (g b))"

definition sum_storage :: "'a storage_ops \<Rightarrow> 'b storage_ops \<Rightarrow> ('a + 'b) storage_ops" where
  "sum_storage A B =
     \<lparr>AppendEntry = \<lambda>c e. either (AppendEntry A c e) (AppendEntry B c e),
      LastEntry = \<lambda>c. case_sum (LastEntry A c) (LastEntry B c),
      Entry = \<lambda>c i. case_sum (Entry A c i) (Entry B c i),
      EntriesSince = \<lambda>c i. case_sum (EntriesSince A c i) (EntriesSince B c i),
      SaveSnapshot = \<lambda>p. either (SaveSnapshot A p) (SaveSnapshot B p),
      LatestSnapshot = \<lambda>c. case_sum (LatestSnapshot A c) (LatestSnapshot B c),
      SnapshotAt = \<lambda>c i. case_sum (SnapshotAt A c i) (SnapshotAt B c i)\<rparr>"

definition sum_cache :: "'a cache_ops \<Rightarrow> 'b cache_ops \<Rightarrow> ('a + 'b) cache_ops" where
  "sum_cache A B =
     \<lparr>SetMerkleRoot = \<lambda>c r. map_sum (SetMerkleRoot A c r) (SetMerkleRoot B c r),
      GetMerkleRoot = \<lambda>c. case_sum (GetMerkleRoot A c) (GetMerkleRoot B c),
      SetPublicKey = \<lambda>u k. map_sum (SetPublicKey A u k) (SetPublicKey B u k),
      GetPublicKey = \<lambda>u. case_sum (GetPublicKey A u) (GetPublicKey B u)\<rparr>"

definition sum_broker :: "'a broker_ops \<Rightarrow> 'b broker_ops \<Rightarrow> ('a + 'b) broker_ops" where
  "sum_broker A B =
     \<lparr>Publish = \<lambda>e. either (Publish A e) (Publish B e), Subscribe = either (Subscribe A) (Subscribe B),
      Cancel = \<lambda>h. map_sum (Cancel A h) (Cancel B h)\<rparr>"

section \<open>Configuration\<close>

definition maxRequestBytes :: nat where
  "maxRequestBytes = push_bit 20 72"

definition rateLimitIdleTimeout :: Time where
  "rateLimitIdleTimeout = 10 * 60 * 1000000000"

definition shutdownTimeout :: Time where
  "shutdownTimeout = 15 * 1000000000"

text \<open>\<open>os.Getenv\<close> answers the empty string for a variable that is not set.\<close>

type_synonym getenv = "string \<Rightarrow> string"

definition envOr :: "getenv \<Rightarrow> string \<Rightarrow> string \<Rightarrow> string" where
  "envOr getenv key fallback = (let v = getenv key in if v \<noteq> [] then v else fallback)"

text \<open>\<open>strings.Split\<close> at a single character.\<close>

fun split_at :: "char \<Rightarrow> string \<Rightarrow> string list" where
  "split_at sep [] = [[]]"
| "split_at sep (c # s) =
     (if c = sep then [] # split_at sep s
      else case split_at sep s of [] \<Rightarrow> [[c]] | w # ws \<Rightarrow> (c # w) # ws)"

text \<open>\<open>log.Fatalf\<close> ends the program: the error branch of the result.\<close>

definition buildStorage ::
  "(string list \<Rightarrow> cluster_config) \<Rightarrow> (cluster_config \<Rightarrow> 'q res) \<Rightarrow> getenv \<Rightarrow> (InMemoryStorage + 'q) res" where
  "buildStorage NewCluster CreateSession getenv =
     (let hosts = getenv ''SCYLLA_HOSTS''
      in if hosts = [] then Inr (Inl NewInMemoryStorage)
         else (let keyspace = envOr getenv ''SCYLLA_KEYSPACE'' ''messenger''
               in case NewScylla NewCluster CreateSession keyspace (split_at CHR '','' hosts) of
                    Inl err \<Rightarrow> Inl (Wrapped ''storage: connect ScyllaDB'' err)
                  | Inr s \<Rightarrow> Inr (Inr s)))"

definition buildCache :: "(redis_options \<Rightarrow> 'r) \<Rightarrow> getenv \<Rightarrow> InMemoryCache + 'r Redis" where
  "buildCache NewClient getenv =
     (let addr = getenv ''REDIS_ADDR''
      in if addr = [] then Inl NewInMemoryCache
         else Inr (NewRedis NewClient addr (getenv ''REDIS_PASSWORD'') 0 (3600 * 1000000000)))"

definition buildBroker :: "'a amqp_ops \<Rightarrow> (string \<Rightarrow> 'a res) \<Rightarrow> getenv \<Rightarrow> (InMemoryBroker + 'a RabbitMQ) res" where
  "buildBroker A Dial getenv =
     (let url = getenv ''RABBITMQ_URL''
      in if url = [] then Inr (Inl NewInMemoryBroker)
         else (case NewRabbitMQ A Dial url of
                 Inl err \<Rightarrow> Inl (Wrapped ''broker: connect RabbitMQ'' err)
               | Inr b \<Rightarrow> Inr (Inr b)))"

section \<open>Assembling the node\<close>

record ('q, 'r, 'a) drivers =
  drv_cql :: "'q cql_session"
  drv_NewCluster :: "string list \<Rightarrow> cluster_config"
  drv_CreateSession :: "cluster_config \<Rightarrow> 'q res"
  drv_redis :: "'r redis_client"
  drv_NewClient :: "redis_options \<Rightarrow> 'r"
  drv_amqp :: "'a amqp_ops"
  drv_Dial :: "string \<Rightarrow> 'a res"
  drv_now :: Time

type_synonym ('q, 'r, 'a) node_svc =
  "(InMemoryStorage + 'q, InMemoryCache + 'r Redis, InMemoryBroker + 'a RabbitMQ) Messenger"

text \<open>The first lines of \<open>main\<close>: the log on the chosen adapters and the service on the log.\<close>

definition main_service :: "('q, 'r, 'a) drivers \<Rightarrow> getenv \<Rightarrow> ('q, 'r, 'a) node_svc res" where
  "main_service d getenv =
     (case buildStorage (drv_NewCluster d) (drv_CreateSession d) getenv of
        Inl err \<Rightarrow> Inl err
      | Inr s \<Rightarrow>
          (let c = buildCache (drv_NewClient d) getenv
           in case buildBroker (drv_amqp d) (drv_Dial d) getenv of
                Inl err \<Rightarrow> Inl err
              | Inr b \<Rightarrow>
                  Inr (New_Messenger
                    (WithBroker (sum_broker InMemoryBroker_ops (RabbitMQ_ops (drv_amqp d) (drv_now d))) b
                      (WithCache (sum_cache InMemoryCache_ops (Redis_ops (drv_redis d))) c
                        (New (sum_storage InMemoryStorage_ops (Scylla_ops (drv_cql d))) s))))))"

text \<open>The server that \<open>main\<close> starts when no demonstration was asked for: a rate above 0 adds a limiter.\<close>

definition main_server ::
  "real \<Rightarrow> int \<Rightarrow> ('s, 'c, 'b) Messenger \<Rightarrow> ('s, 'c, 'b, 'k) Server" where
  "main_server rateLimitRPS rateLimitBurst svc =
     (let opts = (if 0 < rateLimitRPS then [WithRateLimit (New_Limiter rateLimitRPS rateLimitBurst rateLimitIdleTimeout)] else [])
      in NewServer svc opts)"

text \<open>
  \<open>http.MaxBytesHandler\<close> cuts the body off: what a decoder can see of it are its first
  \<open>maxRequestBytes\<close> bytes.
\<close>

definition MaxBytesHandler :: "nat \<Rightarrow> (Request \<Rightarrow> 'x) \<Rightarrow> Request \<Rightarrow> 'x" where
  "MaxBytesHandler n h r = h (r\<lparr>Body := take n (Body r)\<rparr>)"

section \<open>The demonstration\<close>

text \<open>
  One round of the loop of \<open>runDemo\<close>: build, sign and submit message \<open>i\<close>. The printed prefix of the hash
  panics when the hash is shorter than 16 characters. \<open>ids\<close>, \<open>times\<close> and \<open>clock\<close> are the random message
  identifiers and the clock readings of the rounds.
\<close>

definition demo_chat_id :: string where
  "demo_chat_id = ''demo-chat''"

definition demo_round ::
  "ed25519 \<Rightarrow> (nat \<Rightarrow> byte list) \<Rightarrow> (nat \<Rightarrow> Time) \<Rightarrow> byte list \<Rightarrow> byte list \<Rightarrow> nat \<Rightarrow> ('s, 'c, 'b) Messenger \<Rightarrow>
   go_error option \<times> ('s, 'c, 'b) Messenger" where
  "demo_round ed ids clock priv pub i svc =
     (let msg = NewMessage (ids i) (clock i) demo_chat_id ''alice'' pub (bytes_of (''message '' @ dec_nat i)) ContentTypeText [] False
      in case SignMessage ed msg priv of
           Inl err \<Rightarrow> (Some err, svc)
         | Inr msg' \<Rightarrow>
             (case Submit ed (clock i) msg' 0 svc of
                (Inl err, svc') \<Rightarrow> (Some err, svc')
              | (Inr entry, svc') \<Rightarrow>
                  if length (EntryHash entry) < 16 then (Some (Panic ''slice bounds out of range''), svc') else (None, svc')))"

fun demo_loop ::
  "ed25519 \<Rightarrow> (nat \<Rightarrow> byte list) \<Rightarrow> (nat \<Rightarrow> Time) \<Rightarrow> byte list \<Rightarrow> byte list \<Rightarrow> nat list \<Rightarrow> ('s, 'c, 'b) Messenger \<Rightarrow>
   go_error option \<times> ('s, 'c, 'b) Messenger" where
  "demo_loop ed ids clock priv pub [] svc = (None, svc)"
| "demo_loop ed ids clock priv pub (i # is) svc =
     (case demo_round ed ids clock priv pub i svc of
        (Some err, svc') \<Rightarrow> (Some err, svc')
      | (None, svc') \<Rightarrow> demo_loop ed ids clock priv pub is svc')"

text \<open>What the program reports: the verification result, the number of entries to catch up with, the exit code.\<close>

record demo_report =
  rep_verify :: VerifyResult
  rep_new :: nat
  rep_hash :: string
  rep_exit :: nat

definition runDemo ::
  "ed25519 \<Rightarrow> byte list \<Rightarrow> (nat \<Rightarrow> byte list) \<Rightarrow> (nat \<Rightarrow> Time) \<Rightarrow> ('s, 'c, 'b) Messenger \<Rightarrow>
   demo_report res \<times> ('s, 'c, 'b) Messenger" where
  "runDemo ed rnd ids clock svc =
     (case GenerateKeyPair ed rnd of
        Inl err \<Rightarrow> (Inl err, svc)
      | Inr (priv, pub) \<Rightarrow>
          (case demo_loop ed ids clock priv pub [1, 2, 3] svc of
             (Some err, svc') \<Rightarrow> (Inl err, svc')
           | (None, svc') \<Rightarrow>
               (case svc_Verify ed demo_chat_id svc' of
                  Inl err \<Rightarrow> (Inl err, svc')
                | Inr result \<Rightarrow>
                    (case svc_Sync demo_chat_id svc' of
                       Inl err \<Rightarrow> (Inl err, svc')
                     | Inr bundle \<Rightarrow>
                         if length (CurrentHash bundle) < 16
                         then (Inl (Panic ''slice bounds out of range''), svc')
                         else (Inr \<lparr>rep_verify = result, rep_new = length (NewEntries bundle),
                                    rep_hash = take 16 (CurrentHash bundle),
                                    rep_exit = (if vr_Valid result then 0 else 1)\<rparr>, svc')))))"

section \<open>Shutdown\<close>

definition ErrServerClosed :: go_error where
  "ErrServerClosed = Sentinel ''http: Server closed''"

text \<open>
  \<open>runUntilShutdown\<close> returns what the ready case of its \<open>select\<close> leads to: the listener failed with something
  other than \<open>ErrServerClosed\<close>, or the context is cancelled and \<open>Shutdown\<close> answers. When both are
  ready either may be picked, and with neither it waits.
\<close>

inductive runUntilShutdown ::
  "go_error option \<Rightarrow> bool \<Rightarrow> (Time \<Rightarrow> go_error option) \<Rightarrow> go_error option \<Rightarrow> bool" where
  failed: "\<lbrakk>listen = Some err; \<not> errors_Is err ErrServerClosed\<rbrakk> \<Longrightarrow> runUntilShutdown listen cancelled Shutdown (Some err)"
| drained: "\<lbrakk>cancelled; Shutdown shutdownTimeout = None\<rbrakk> \<Longrightarrow> runUntilShutdown listen cancelled Shutdown None"
| undrained: "\<lbrakk>cancelled; Shutdown shutdownTimeout = Some err\<rbrakk> \<Longrightarrow>
    runUntilShutdown listen cancelled Shutdown (Some (Wrapped ''graceful shutdown'' err))"

inductive_cases runUntilShutdownE [elim!]: "runUntilShutdown listen cancelled Shutdown r"

text \<open>Once the context is cancelled it returns, and it returns no error exactly when the drain succeeded.\<close>

lemma runUntilShutdown_returns: "cancelled \<Longrightarrow> \<exists>r. runUntilShutdown listen cancelled Shutdown r"
  by (cases "Shutdown shutdownTimeout") (blast intro: runUntilShutdown.intros)+

lemma runUntilShutdown_clean:
  "runUntilShutdown listen cancelled Shutdown None \<longleftrightarrow> cancelled \<and> Shutdown shutdownTimeout = None"
  by (auto intro: runUntilShutdown.intros)

text \<open>The HTTP server with its time-outs and the limit on request bodies.\<close>

record 'x http_Server =
  Addr :: string
  http_Handler :: "Request \<Rightarrow> 'x"
  ReadHeaderTimeout :: Time
  ReadTimeout :: Time
  WriteTimeout :: Time
  IdleTimeout :: Time

definition serve_config :: "string \<Rightarrow> (Request \<Rightarrow> 'x) \<Rightarrow> 'x http_Server" where
  "serve_config addr handler =
     \<lparr>Addr = addr, http_Handler = MaxBytesHandler maxRequestBytes handler,
      ReadHeaderTimeout = 5 * 1000000000, ReadTimeout = 30 * 1000000000, WriteTimeout = 30 * 1000000000,
      IdleTimeout = 120 * 1000000000\<rparr>"

text \<open>
  \<open>ListenAndServe\<close> and \<open>Shutdown\<close> of \<open>net/http\<close> are arguments, and so is whether a termination signal arrives.
\<close>

definition serve ::
  "('x http_Server \<Rightarrow> go_error option) \<Rightarrow> bool \<Rightarrow> ('x http_Server \<Rightarrow> Time \<Rightarrow> go_error option) \<Rightarrow>
   string \<Rightarrow> (Request \<Rightarrow> 'x) \<Rightarrow> go_error option \<Rightarrow> bool" where
  "serve ListenAndServe signalled Shutdown addr handler r \<longleftrightarrow>
     (let srv = serve_config addr handler in runUntilShutdown (ListenAndServe srv) signalled (Shutdown srv) r)"

section \<open>The whole program\<close>

record flags =
  flag_addr :: string
  flag_demo :: bool
  flag_rateLimitRPS :: real
  flag_rateLimitBurst :: int

definition default_flags :: flags where
  "default_flags = \<lparr>flag_addr = '':8080'', flag_demo = False, flag_rateLimitRPS = 5, flag_rateLimitBurst = 20\<rparr>"

text \<open>
  What \<open>main\<close> comes to: it dies with a message, it has run the demonstration, or it hands a server to \<open>serve\<close>.
\<close>

datatype ('q, 'r, 'a, 'k) main_outcome =
    Fatal go_error
  | Demonstrated demo_report
  | Serving string "(InMemoryStorage + 'q, InMemoryCache + 'r Redis, InMemoryBroker + 'a RabbitMQ, 'k) Server"

definition main ::
  "('q, 'r, 'a) drivers \<Rightarrow> getenv \<Rightarrow> ed25519 \<Rightarrow> byte list \<Rightarrow> (nat \<Rightarrow> byte list) \<Rightarrow> (nat \<Rightarrow> Time) \<Rightarrow> flags \<Rightarrow>
   ('q, 'r, 'a, 'k) main_outcome" where
  "main d getenv ed rnd ids clock fl =
     (case main_service d getenv of
        Inl err \<Rightarrow> Fatal err
      | Inr svc \<Rightarrow>
          if flag_demo fl then
            (case runDemo ed rnd ids clock svc of
               (Inl err, _) \<Rightarrow> Fatal (Wrapped ''demo failed'' err)
             | (Inr rep, _) \<Rightarrow> Demonstrated rep)
          else Serving (flag_addr fl) (main_server (flag_rateLimitRPS fl) (flag_rateLimitBurst fl) svc))"

text \<open>
  With the default flags the server has a limiter whose idle buckets fill up long before they are
  evicted, as the theorems on the budget of a client ask.
\<close>

lemma default_limits:
  assumes "main d getenv ed rnd ids clock default_flags = Serving addr srv"
  shows "addr = '':8080''" "srv_limiter srv = Some (New_Limiter 5 20 rateLimitIdleTimeout)"
    "delay \<le> 596 * 1000000000 \<Longrightarrow> of_int 20 \<le> refill 5 (rateLimitIdleTimeout - delay)"
proof -
  show "addr = '':8080''" "srv_limiter srv = Some (New_Limiter 5 20 rateLimitIdleTimeout)"
    using assms by (auto simp: main_def default_flags_def main_server_def NewServer_def WithRateLimit_def split: sum.splits)
  assume "delay \<le> 596 * 1000000000"
  then show "of_int 20 \<le> refill 5 (rateLimitIdleTimeout - delay)"
    using refill_mono [of 5 "4 * 1000000000" "rateLimitIdleTimeout - delay"]
    by (simp add: rateLimitIdleTimeout_def refill_def)
qed

section \<open>Dispatch keeps the contract\<close>

lemma sum_storage_ops [simp]:
  "AppendEntry (sum_storage A B) c e (Inl a) = map_prod id Inl (AppendEntry A c e a)"
  "LastEntry (sum_storage A B) c (Inl a) = LastEntry A c a"
  "Entry (sum_storage A B) c i (Inl a) = Entry A c i a"
  "EntriesSince (sum_storage A B) c i (Inl a) = EntriesSince A c i a"
  "SaveSnapshot (sum_storage A B) p (Inl a) = map_prod id Inl (SaveSnapshot A p a)"
  "LatestSnapshot (sum_storage A B) c (Inl a) = LatestSnapshot A c a"
  "SnapshotAt (sum_storage A B) c i (Inl a) = SnapshotAt A c i a"
  "AppendEntry (sum_storage A B) c e (Inr b) = map_prod id Inr (AppendEntry B c e b)"
  "LastEntry (sum_storage A B) c (Inr b) = LastEntry B c b"
  "Entry (sum_storage A B) c i (Inr b) = Entry B c i b"
  "EntriesSince (sum_storage A B) c i (Inr b) = EntriesSince B c i b"
  "SaveSnapshot (sum_storage A B) p (Inr b) = map_prod id Inr (SaveSnapshot B p b)"
  "LatestSnapshot (sum_storage A B) c (Inr b) = LatestSnapshot B c b"
  "SnapshotAt (sum_storage A B) c i (Inr b) = SnapshotAt B c i b"
  by (simp_all add: sum_storage_def either_def)

definition left_view :: "('a \<Rightarrow> string \<Rightarrow> 'x list) \<Rightarrow> 'a + 'b \<Rightarrow> string \<Rightarrow> 'x list" where
  "left_view f = case_sum f (\<lambda>b c. [])"

definition right_view :: "('b \<Rightarrow> string \<Rightarrow> 'x list) \<Rightarrow> 'a + 'b \<Rightarrow> string \<Rightarrow> 'x list" where
  "right_view f = case_sum (\<lambda>a c. []) f"

definition left_ok :: "('a \<Rightarrow> bool) \<Rightarrow> 'a + 'b \<Rightarrow> bool" where
  "left_ok f = case_sum f (\<lambda>b. False)"

definition right_ok :: "('b \<Rightarrow> bool) \<Rightarrow> 'a + 'b \<Rightarrow> bool" where
  "right_ok f = case_sum (\<lambda>a. False) f"

lemmas view_defs = left_view_def right_view_def left_ok_def right_ok_def

context storage_port
begin

lemma sum_left: "storage_port (sum_storage S B) (left_view ents) (left_view snaps) (left_ok ok) chat_name storable stamp"
proof (unfold_locales, goal_cases)
  case (4 s e c)
  then show ?case
    using append_tip [of _ e c] by (cases s) (fastforce simp: view_defs)+
next
  case (8 s p e)
  then show ?case
    using save_next [of _ p e] by (cases s) (fastforce simp: view_defs)+
qed (auto simp: view_defs ents_bound snaps_bound storable_name last_entry entry_at entries_since latest_snapshot snapshot_at
    split: sum.splits)

lemma sum_right: "storage_port (sum_storage A S) (right_view ents) (right_view snaps) (right_ok ok) chat_name storable stamp"
proof (unfold_locales, goal_cases)
  case (4 s e c)
  then show ?case
    using append_tip [of _ e c] by (cases s) (fastforce simp: view_defs)+
next
  case (8 s p e)
  then show ?case
    using save_next [of _ p e] by (cases s) (fastforce simp: view_defs)+
qed (auto simp: view_defs ents_bound snaps_bound storable_name last_entry entry_at entries_since latest_snapshot snapshot_at
    split: sum.splits)

end

section \<open>The assembled node\<close>

lemma main_service_log:
  assumes "main_service d getenv = Inr svc"
  obtains s where "buildStorage (drv_NewCluster d) (drv_CreateSession d) getenv = Inr s"
    "store_ops (Messenger.log svc) = sum_storage InMemoryStorage_ops (Scylla_ops (drv_cql d))"
    "store (Messenger.log svc) = s"
  using assms
  by (auto simp: main_service_def New_Messenger_def WithBroker_def WithCache_def New_def Let_def split: sum.splits)

lemma buildStorage_cases:
  assumes "buildStorage NewCluster CreateSession getenv = Inr s"
  shows "(getenv ''SCYLLA_HOSTS'' = [] \<and> s = Inl NewInMemoryStorage)
    \<or> (getenv ''SCYLLA_HOSTS'' \<noteq> [] \<and> (\<exists>cfg q. CreateSession cfg = Inr q \<and> s = Inr q))"
  using assms by (auto simp: buildStorage_def NewScylla_def Let_def split: if_splits sum.splits)

lemma empty_log_inv:
  assumes "store_ops l = S" "ok (store l)" "\<And>c. ents (store l) c = []" "\<And>c. snaps (store l) c = []"
  shows "log_inv ed S ents snaps ok l"
  using assms by (simp add: log_inv_def chat_ok_def sealed_def)


text \<open>Drivers held in memory, and an environment that names ScyllaDB hosts.\<close>

definition demo_drivers :: "(cql_tables, string \<rightharpoonup> byte list, unit) drivers" where
  "demo_drivers = \<lparr>drv_cql = table_session, drv_NewCluster = (\<lambda>hosts. \<lparr>Hosts = hosts, Keyspace = [], Consistency = One, Timeout = 0\<rparr>),
     drv_CreateSession = (\<lambda>cfg. Inr empty_tables), drv_redis = table_redis, drv_NewClient = (\<lambda>opts. Map.empty),
     drv_amqp = quiet_amqp, drv_Dial = (\<lambda>url. Inr ()), drv_now = 0\<rparr>"

definition scylla_getenv :: getenv where
  "scylla_getenv key = (if key = ''SCYLLA_HOSTS'' then ''10.0.0.1,10.0.0.2'' else [])"


section \<open>The demonstration runs\<close>

text \<open>A service after \<open>k\<close> calls on a fresh node, with \<open>k\<close> messages in the demonstration's chat.\<close>

definition demo_state :: "ed25519 \<Rightarrow> nat \<Rightarrow> (InMemoryStorage, 'c, 'b) Messenger \<Rightarrow> bool" where
  "demo_state ed k svc \<longleftrightarrow> (\<exists>ops C c B b. length ops = k \<and> Messenger.log svc = run ed ops (new_node C c B b))
     \<and> length (mem_ents (store (Messenger.log svc)) demo_chat_id) = k"

lemma demo_state_reachable: "demo_state ed k svc \<Longrightarrow> k + 1 < max_slice \<Longrightarrow> reachable ed (Messenger.log svc)"
  unfolding demo_state_def reachable_def by blast

lemma demo_round_step:
  assumes "ed25519_correct ed" "GenerateKeyPair ed rnd = Inr (priv, pub)" "demo_state ed k svc" "k + 1 < max_slice"
  obtains svc' where "demo_round ed ids clock priv pub i svc = (None, svc')" "demo_state ed (k + 1) svc'"
proof -
  let ?es = "mem_ents (store (Messenger.log svc)) demo_chat_id"
  define m where "m = NewMessage (ids i) (clock i) demo_chat_id ''alice'' pub (bytes_of (''message '' @ dec_nat i)) ContentTypeText [] False"
  obtain m' where m': "SignMessage ed m priv = Inr m'" "acceptable ed m'" "ChatID m' = demo_chat_id"
    by (rule client_signs [OF assms(1,2) m_def])
  obtain e l' where app: "Append ed (clock i) m' (Messenger.log svc) = (Inr e, l')" "e = next_entry ?es m'"
    "mem_ents (store l') = (mem_ents (store (Messenger.log svc)))(ChatID m' := ?es @ [e])"
    by (rule Append_effects [OF demo_state_reachable [OF assms(3,4)] m'(2), of ?es "clock i"]) (use m'(3) in simp_all)
  let ?svc = "svc\<lparr>Messenger.log := l'\<rparr>"
  have sub: "Submit ed (clock i) m' 0 svc = (Inr e, ?svc)"
    using app(1) by (simp add: Submit_def)
  have "length (EntryHash e) = 64"
    by (simp add: app(2) flip: next_entry_hash)
  then have "demo_round ed ids clock priv pub i svc = (None, ?svc)"
    using m'(1) sub unfolding demo_round_def Let_def m_def [symmetric] by simp
  moreover obtain ops C c B b where ops: "length ops = k" "Messenger.log svc = run ed ops (new_node C c B b)" "length ?es = k"
    using assms(3) by (auto simp: demo_state_def)
  have "l' = run ed (ops @ [Op_Append (clock i) m']) (new_node C c B b)"
    using app(1) ops(2) by simp
  then have "demo_state ed (k + 1) ?svc"
    unfolding demo_state_def using ops app(3) m'(3)
    by (intro conjI exI [of _ "ops @ [Op_Append (clock i) m']"] exI [of _ C] exI [of _ c] exI [of _ B] exI [of _ b]) simp_all
  ultimately show thesis
    by (rule that)
qed

text \<open>
  The demonstration succeeds: on a fresh in-memory node, with a correct signature scheme, a key that
  could be generated and any clock, \<open>runDemo\<close> returns without an error or a panic, reports a valid
  log of three entries and three entries to catch up with, and exits with code 0.
\<close>

theorem runDemo_succeeds:
  assumes "ed25519_correct ed" "GenerateKeyPair ed rnd = Inr (priv, pub)"
    and "svc = New_Messenger (new_node C c B b)"
  shows "\<exists>rep svc'. runDemo ed rnd ids clock svc = (Inr rep, svc') \<and> vr_Valid (rep_verify rep)
    \<and> vr_Entries (rep_verify rep) = 3 \<and> rep_new rep = 3 \<and> length (rep_hash rep) = 16 \<and> rep_exit rep = 0"
proof -
  have small: "0 + 1 < max_slice" "0 + 1 + 1 < max_slice" "0 + 1 + 1 + 1 < max_slice" "0 + 1 + 1 + 1 + 1 < max_slice"
    by (simp_all add: max_slice_def)
  have "run ed [] (new_node C c B b) = Messenger.log svc"
    by (simp add: assms(3) New_Messenger_def)
  then have "demo_state ed 0 svc"
    unfolding demo_state_def by (metis list.size(3) new_node_empty run_simps(1))
  from demo_round_step [OF assms(1,2) this small(1), of ids clock 1] obtain s1
    where s1: "demo_round ed ids clock priv pub 1 svc = (None, s1)" "demo_state ed (0 + 1) s1"
    by blast
  from demo_round_step [OF assms(1,2) s1(2) small(2), of ids clock 2] obtain s2
    where s2: "demo_round ed ids clock priv pub 2 s1 = (None, s2)" "demo_state ed (0 + 1 + 1) s2"
    by blast
  from demo_round_step [OF assms(1,2) s2(2) small(3), of ids clock 3] obtain s3
    where s3: "demo_round ed ids clock priv pub 3 s2 = (None, s3)" "demo_state ed (0 + 1 + 1 + 1) s3"
    by blast
  let ?es = "mem_ents (store (Messenger.log s3)) demo_chat_id"
  have r: "reachable ed (Messenger.log s3)"
    by (rule demo_state_reachable [OF s3(2) small(4)])
  have len: "length ?es = 3" and ch: "chained ed ?es"
    using s3(2) reachable_store(3) [OF r, of demo_chat_id] by (simp_all add: demo_state_def chat_ok_def)
  have snaps: "mem_snaps (store (Messenger.log s3)) demo_chat_id = []"
    using reachable_snaps [OF r, of demo_chat_id] len by simp
  have ulen: "ulen ?es = 3"
    using len by (simp add: ulen_def to_uint64_def)
  have "svc_Verify ed demo_chat_id s3 = Inr \<lparr>vr_Valid = True, vr_Entries = 3, vr_Reason = []\<rparr>"
    using mem.Log_Verify_spec [OF reachable_store(1,2) [OF r] TrueI, of ed demo_chat_id] ch Verify_loop_iff [of ed ?es] ulen
    by (simp add: svc_Verify_def)
  moreover have "svc_Sync demo_chat_id s3 = Inr \<lparr>Snapshot = None, NewEntries = ?es, CurrentHash = tip_hash ?es\<rparr>"
    using mem.Sync_spec [OF reachable_inv(1) [OF r] refl refl TrueI, of demo_chat_id] snaps by (simp add: svc_Sync_def)
  moreover have "length (tip_hash ?es) = 64"
  proof -
    have "?es \<noteq> []"
      using len by auto
    then have "EntryHash (last ?es) \<in> set (map EntryHash ?es)"
      by simp
    then have "length (EntryHash (last ?es)) = 64"
      using chained_hash_sized [OF ch] unfolding hash_sized_def by blast
    with \<open>?es \<noteq> []\<close> show ?thesis
      by (simp add: tip_hash_def)
  qed
  ultimately show ?thesis
    using s1(1) s2(1) s3(1) len by (simp add: runDemo_def assms(2))
qed

theorem runDemo_succeeds_witness:
  "\<exists>rep svc'. runDemo toy_scheme (replicate 32 5) (\<lambda>i. replicate 16 (of_nat i)) (\<lambda>i. int i * 1000000)
      (New_Messenger (new_node InMemoryCache_ops NewInMemoryCache InMemoryBroker_ops NewInMemoryBroker)) = (Inr rep, svc')
    \<and> vr_Valid (rep_verify rep) \<and> vr_Entries (rep_verify rep) = 3 \<and> rep_new rep = 3 \<and> length (rep_hash rep) = 16 \<and> rep_exit rep = 0"
  by (rule runDemo_succeeds [OF toy_scheme_correct _ refl]) (simp add: GenerateKeyPair_def toy_scheme_def)

section \<open>The request limit\<close>

lemma length_base64_encode: "length (base64_encode bs) = 4 * ((length bs + 2) div 3)"
proof (induction bs rule: base64_encode.induct)
  case (4 a b c bs)
  have "(length (a # b # c # bs) + 2) div 3 = (length bs + 2) div 3 + 1"
    using div_add_self2 [of 3 "length bs + 2"] by simp
  with 4 show ?case
    by simp
qed simp_all

text \<open>
  The largest attachment fits a request: content within the video limit takes at most 69905068 bytes
  in base64, so a request body whose other JSON text takes no more than 5592404 bytes is passed on
  whole by the body limit.
\<close>

theorem video_fits_request:
  assumes "int (length content) \<le> MaxVideoBytes" "length (Body r) = length (base64_encode content) + rest" "rest \<le> 5592404"
  shows "length (base64_encode content) \<le> 69905068 \<and> MaxBytesHandler maxRequestBytes h r = h r"
proof -
  have "length content \<le> 52428800"
    using assms(1) by (simp add: MaxVideoBytes_def)
  then have "length (base64_encode content) \<le> 69905068"
    unfolding length_base64_encode by simp
  then show ?thesis
    using assms(2,3) by (simp add: MaxBytesHandler_def maxRequestBytes_def)
qed

theorem video_fits_request_witness:
  "length (base64_encode [1, 2]) \<le> 69905068
    \<and> MaxBytesHandler maxRequestBytes Body ((page_request ''c1'' 0 10)\<lparr>Body := [1, 2, 3, 4, 5, 6]\<rparr>) = [1, 2, 3, 4, 5, 6]"
  using video_fits_request [of "[1, 2]" "(page_request ''c1'' 0 10)\<lparr>Body := [1, 2, 3, 4, 5, 6]\<rparr>" 2 Body]
  by (simp add: MaxVideoBytes_def)

end
