(* ===== verification/Chatlog_Faults.thy ===== *)
theory Chatlog_Faults
  imports Chatlog_Props
begin

text \<open>
  The log where things go wrong: the mutexes that serialise the appends of a chat, and a store whose
  snapshot table fails. \<open>Append\<close> stores and announces the entry before it builds the snapshot, so a
  failing snapshot is reported as a failed append of a message that is in the log; the next snapshot
  then covers two windows, and the arithmetic of \<open>ProveInclusion\<close> no longer finds it.
\<close>

section \<open>Mutexes\<close>

definition locks_ok :: "('s, 'c, 'b) Log \<Rightarrow> bool" where
  "locks_ok l \<longleftrightarrow> distinct (map fst (locks l)) \<and> distinct (map snd (locks l))
     \<and> (\<forall>m\<in>set (map snd (locks l)). m < length (locks l))"

lemma chatLock_ok:
  assumes "locks_ok l" "chatLock c l = (m, l')"
  shows "locks_ok l'" "map_of (locks l') c = Some m"
  using assms by (fastforce simp: chatLock_def locks_ok_def map_of_eq_None_iff less_Suc_eq split: option.splits)+

lemma chatLock_keeps: "chatLock c l = (m, l') \<Longrightarrow> map_of (locks l) d = Some n \<Longrightarrow> map_of (locks l') d = Some n"
  by (cases "map_of (locks l) c") (auto simp: chatLock_def)

lemma locks_publish [simp]: "locks (publish e l) = locks l"
  by (simp add: publish_def)

lemma locks_snapshot [simp]: "locks (snd (snapshot now c tip l)) = locks l"
  by (simp add: snapshot_def Let_def split: sum.splits prod.splits option.splits)

lemma locks_Append_locked [simp]: "locks (snd (Append_locked now m l)) = locks l"
proof -
  have "locks l3 = locks l2" if "snapshot now c e l2 = (r, l3)" for r l3 c e and l2 :: "('a, 'b, 'c) Log"
    using that locks_snapshot [of now c e l2] by simp
  then show ?thesis
    by (auto simp: Append_locked_def Let_def split: sum.splits prod.splits option.splits)
qed

text \<open>Every call keeps the mutexes there are, and their chats.\<close>

lemma locks_exec:
  assumes "locks_ok l"
  shows "locks_ok (exec ed op l) \<and> (\<forall>d n. map_of (locks l) d = Some n \<longrightarrow> map_of (locks (exec ed op l)) d = Some n)"
proof (cases op)
  case (Op_Append now msg)
  have "locks (exec ed op l) = locks (if acceptable ed msg then snd (chatLock (ChatID msg) l) else l)"
    by (simp add: Op_Append Append_accepts Append_rejects)
  moreover obtain m l' where l': "chatLock (ChatID msg) l = (m, l')"
    by fastforce
  ultimately have "locks (exec ed op l) = locks l' \<or> locks (exec ed op l) = locks l"
    by simp
  then show ?thesis
    using chatLock_ok(1) [OF assms l'] chatLock_keeps [OF l'] assms unfolding locks_ok_def by metis
qed (use assms in \<open>auto simp: Log_Subscribe_def locks_ok_def split: prod.splits\<close>)

lemma locks_run:
  assumes "locks_ok l"
  shows "locks_ok (run ed ops l) \<and> (\<forall>d n. map_of (locks l) d = Some n \<longrightarrow> map_of (locks (run ed ops l)) d = Some n)"
proof (induction ops rule: rev_induct)
  case (snoc op ops)
  then show ?case
    using locks_exec [of "run ed ops l" ed op] by auto
qed (use assms in simp)

lemma locks_new_node: "locks_ok (new_node C c B b)"
  by (simp add: locks_ok_def new_node_def WithBroker_def WithCache_def New_def)

lemma reachable_locks: "reachable ed l \<Longrightarrow> locks_ok l"
  unfolding reachable_def using locks_run [OF locks_new_node] by metis

text \<open>
  One mutex per chat, for the life of the node: if a chat gets mutex \<open>m\<close> and, after any further
  calls, a chat gets mutex \<open>n\<close>, the mutexes are the same exactly when the chats are. So appends to
  one chat always exclude each other, and appends to different chats never do.
\<close>

theorem chatLock_per_chat:
  assumes "reachable ed l" "chatLock c l = (m, l1)" "chatLock d (run ed ops l1) = (n, l2)"
  shows "m = n \<longleftrightarrow> c = d"
proof -
  have l1: "locks_ok l1" "map_of (locks l1) c = Some m"
    using chatLock_ok [OF reachable_locks [OF assms(1)] assms(2)] by blast+
  have r: "locks_ok (run ed ops l1)" "map_of (locks (run ed ops l1)) c = Some m"
    using locks_run [OF l1(1), of ed ops] l1(2) by simp_all
  note l2 = chatLock_ok [OF r(1) assms(3)] chatLock_keeps [OF assms(3) r(2)]
  have inj: "inj_on snd (set (locks l2))"
    using l2(1) by (simp add: locks_ok_def distinct_map)
  have "m = n \<Longrightarrow> c = d"
    using inj_onD [OF inj _ map_of_SomeD [OF l2(3)] map_of_SomeD [OF l2(2)]] by simp
  with l2(2,3) show ?thesis by auto
qed

theorem chatLock_per_chat_witness:
  "let (m, l1) = chatLock ''c1'' (demo_node 0); (n, l2) = chatLock ''c1'' (run toy_scheme (demo_run 5) l1)
   in m = n \<longleftrightarrow> ''c1'' = ''c1''"
  using chatLock_per_chat [OF demo_reachable, of 0 "''c1''" _ _ "''c1''" "demo_run 5"]
  by (simp add: max_slice_def split: prod.splits)

section \<open>A failing snapshot table\<close>

text \<open>The in-memory store with a snapshot table that refuses every write.\<close>

definition snapshots_down :: "go_error \<Rightarrow> InMemoryStorage storage_ops" where
  "snapshots_down err = InMemoryStorage_ops\<lparr>SaveSnapshot := (\<lambda>p s. (Some err, s))\<rparr>"

lemma snapshots_down_ops [simp]:
  "AppendEntry (snapshots_down err) = mem_AppendEntry" "LastEntry (snapshots_down err) = mem_LastEntry"
  "EntriesSince (snapshots_down err) = mem_EntriesSince" "SaveSnapshot (snapshots_down err) = (\<lambda>p s. (Some err, s))"
  "LatestSnapshot (snapshots_down err) = mem_LatestSnapshot"
  by (simp_all add: snapshots_down_def)

lemma snapshot_fails:
  assumes "mem_ok (store l)" "store_ops l = snapshots_down err"
  shows "\<exists>l'. snapshot now c tip l = (Some err, l') \<and> store l' = store l"
  using assms
  by (auto simp: snapshot_def mem_latest mem_since Let_def)

lemma Append_locked_fails:
  assumes "mem_ok (store l)" "store_ops l = snapshots_down err" "chained ed es" "mem_ents (store l) c = es"
    and "ChatID m = c" "length es + 1 < max_slice" "(length es + 1) mod 100 = 0"
  shows "\<exists>l'. Append_locked now m l = (Inl (Wrapped ''snapshot'' err), l')
    \<and> store l' = (store l)\<lparr>entries := (entries (store l))(c \<mapsto> es @ [next_entry es m])\<rparr>"
proof -
  let ?e = "next_entry es m"
  let ?s = "(store l)\<lparr>entries := (entries (store l))(c \<mapsto> es @ [?e])\<rparr>"
  let ?l = "publish (entry_event EntryAppended ?e) (l\<lparr>store := ?s\<rparr>)"
  have app: "mem_AppendEntry c ?e (store l) = (None, ?s)"
    using assms(1,4,6) by (simp add: mem_append)
  have seq: "(ulen es + 1) mod SnapshotInterval = 0"
    unfolding ulen_def to_uint64_Suc using interval_mod [OF assms(6)] assms(7) by simp
  obtain l' where "snapshot now c ?e ?l = (Some err, l')" "store l' = ?s"
    using snapshot_fails [of ?l err now c ?e] assms(1,2,6) by (auto simp: publish_def mem_ok_upd)
  then show ?thesis
    using mem.tip_spec [OF assms(1), of ed c] assms(2-5) app seq
    by (simp add: Append_locked_def Let_def next_entry_def entry_event_def)
qed

text \<open>
  C38. An append that fills a window while snapshots cannot be saved reports a failure, although the
  message is in the log: the caller gets the wrapped storage error, and the entry is stored.
\<close>

theorem Append_reports_failure_after_storing:
  assumes "reachable ed l" "acceptable ed m" "mem_ents (store l) (ChatID m) = es" "(length es + 1) mod 100 = 0"
  shows "\<exists>l'. Append ed now m (l\<lparr>store_ops := snapshots_down err\<rparr>) = (Inl (Wrapped ''snapshot'' err), l')
    \<and> mem_ents (store l') (ChatID m) = es @ [next_entry es m] \<and> mem_snaps (store l') = mem_snaps (store l)"
proof -
  let ?l = "snd (chatLock (ChatID m) (l\<lparr>store_ops := snapshots_down err\<rparr>))"
  have "chained ed es" "mem_ok (store l)" "length es + 1 < max_slice"
    using reachable_store(2,3) [OF assms(1)] reachable_inv(2) [OF assms(1), of "ChatID m"] assms(3)
    by (auto simp: chat_ok_def)
  then obtain l' where "Append_locked now m ?l = (Inl (Wrapped ''snapshot'' err), l')"
    "store l' = (store l)\<lparr>entries := (entries (store l))(ChatID m \<mapsto> es @ [next_entry es m])\<rparr>"
    using Append_locked_fails [of ?l err ed es "ChatID m" m now] assms(3,4) by auto
  then show ?thesis
    using Append_accepts [OF assms(2), of now "l\<lparr>store_ops := snapshots_down err\<rparr>"] by simp
qed

theorem Append_reports_failure_after_storing_witness:
  "\<exists>l'. Append toy_scheme 0 signed_example ((demo_node 99)\<lparr>store_ops := snapshots_down (External ''unavailable'')\<rparr>)
      = (Inl (Wrapped ''snapshot'' (External ''unavailable'')), l')
    \<and> mem_ents (store l') (ChatID signed_example)
      = mem_ents (store (demo_node 99)) ''c1'' @ [next_entry (mem_ents (store (demo_node 99)) ''c1'') signed_example]
    \<and> mem_snaps (store l') = mem_snaps (store (demo_node 99))"
  by (rule Append_reports_failure_after_storing [OF demo_reachable demo_acceptable])
    (simp_all add: demo_chat demo_entries max_slice_def)

lemma snapshot_first:
  assumes "store_ops l = InMemoryStorage_ops" "mem_ok (store l)" "mem_snaps (store l) c = []"
  obtains l' p where "snapshot now c tip l = (None, l')" "store_ops l' = InMemoryStorage_ops" "mem_ok (store l')"
    "mem_snaps (store l') c = [p]" "SnapshotIndex p = 0" "FromSequence p = 0" "ToSequence p = Sequence tip"
proof -
  let ?p = "\<lparr>snap_ChatID = c, SnapshotIndex = 0, FromSequence = 0, ToSequence = Sequence tip,
    MerkleRoot = Root (map EntryHash (mem_ents (store l) c)), LastEntryHash = EntryHash tip, CreatedAt = now\<rparr>"
  let ?s = "(store l)\<lparr>snapshots := (snapshots (store l))(c \<mapsto> [?p])\<rparr>"
  have "mem_SaveSnapshot ?p (store l) = (None, ?s)"
    using assms(3) by (simp add: mem_SaveSnapshot_def mem_snaps_def)
  then have snap: "snapshot now c tip l =
      (None, publish \<lparr>Kind = SnapshotCreated, ev_ChatID = c, ev_Sequence = Sequence tip, ev_EntryHash = EntryHash tip\<rparr>
        (l\<lparr>store := ?s, cache := SetMerkleRoot (cache_ops l) c (MerkleRoot ?p) (cache l)\<rparr>))"
    using assms by (simp add: snapshot_def mem_latest mem_since Let_def)
  have "mem_ok ?s"
    using assms(2) by (intro mem_ok_upd) (simp_all add: max_slice_def)
  then show thesis
    using assms(1) by (intro that [OF snap, of ?p]) (simp_all add: publish_def)
qed

lemma second_window_missing:
  assumes "store_ops l = InMemoryStorage_ops" "mem_ok (store l)" "length (mem_snaps (store l) c) = 1"
    and "100 \<le> i" "i < 200"
  shows "ProveInclusion c i l = Inl ErrNotSnapshotted"
proof -
  have "100 \<le> unat i" "unat i < 200"
    using assms(4,5) by (simp_all add: word_le_nat_alt word_less_nat_alt)
  then have "unat i div 100 = 1"
    by simp
  then show ?thesis
    using assms(1-3) interval_div [of i] by (simp add: ProveInclusion_def mem_snapshot_at)
qed

text \<open>
  C37. The lost snapshot is not made up for: once a chat has 199 entries and no snapshot, the next
  append seals one snapshot over all 200 entries, under index 0, and \<open>ProveInclusion\<close>, which looks a
  message up under its sequence number divided by 100, answers that the messages 100 to 199 are not
  covered by a snapshot, although they are.
\<close>

theorem lost_snapshot_hides_window:
  assumes "store_ops l = InMemoryStorage_ops" "mem_ok (store l)" "acceptable ed m" "ChatID m = c"
    and "mem_ents (store l) c = es" "chained ed es" "length es = 199" "mem_snaps (store l) c = []"
    and "Append ed now m l = (r, l')"
  shows "r = Inr (next_entry es m) \<and> (\<exists>p. mem_snaps (store l') c = [p] \<and> SnapshotIndex p = 0 \<and> FromSequence p = 0
    \<and> ToSequence p = 199) \<and> (\<forall>i. 100 \<le> i \<and> i < 200 \<longrightarrow> ProveInclusion c i l' = Inl ErrNotSnapshotted)"
proof -
  let ?l = "snd (chatLock c l)" and ?e = "next_entry es m"
  have len: "length es + 1 < max_slice"
    using assms(7) by (simp add: max_slice_def)
  obtain s where s: "mem_ok s" "mem_snaps s = mem_snaps (store ?l)"
    and step: "Append_locked now m ?l =
       (let l2 = publish (entry_event EntryAppended ?e) (?l\<lparr>store := s\<rparr>)
        in if (length es + 1) mod 100 = 0
           then (case snapshot now c ?e l2 of
                   (Some err, l3) \<Rightarrow> (Inl (Wrapped ''snapshot'' err), l3)
                 | (None, l3) \<Rightarrow> (Inr ?e, l3))
           else (Inr ?e, l2))"
    by (rule mem.Append_locked_steps [where l = ?l and ed = ed and es = es and c = c and m = m and now = now]) (use assms len in simp_all)
  obtain l3 p where "snapshot now c ?e (publish (entry_event EntryAppended ?e) (?l\<lparr>store := s\<rparr>)) = (None, l3)"
    "store_ops l3 = InMemoryStorage_ops" "mem_ok (store l3)" "mem_snaps (store l3) c = [p]"
    "SnapshotIndex p = 0" "FromSequence p = 0" "ToSequence p = Sequence ?e"
    by (rule snapshot_first [of "publish (entry_event EntryAppended ?e) (?l\<lparr>store := s\<rparr>)" c now ?e])
      (use s assms(1,8) in \<open>simp_all add: publish_def\<close>)
  moreover have "Sequence ?e = 199"
    using assms(7) by (simp add: ulen_def to_uint64_def)
  moreover have "Append ed now m l = Append_locked now m ?l"
    using Append_accepts [OF assms(3)] assms(4) by simp
  ultimately show ?thesis
    using step assms(7,9) second_window_missing [of l3 c] by simp
qed

text \<open>A log in that state: 199 entries, the snapshot of the first 100 lost.\<close>

definition lossy_node :: "(InMemoryStorage, InMemoryCache, InMemoryBroker) Log" where
  "lossy_node = (demo_node 199)\<lparr>store := (store (demo_node 199))\<lparr>snapshots := Map.empty\<rparr>\<rparr>"

theorem lost_snapshot_hides_window_witness:
  "let (r, l') = Append toy_scheme 0 signed_example lossy_node
   in \<exists>p. mem_snaps (store l') ''c1'' = [p] \<and> ToSequence p = 199 \<and> ProveInclusion ''c1'' 150 l' = Inl ErrNotSnapshotted"
proof -
  have r: "reachable toy_scheme (demo_node 199)"
    by (rule demo_reachable) (simp add: max_slice_def)
  let ?s = "store (demo_node 199)"
  have snaps: "mem_snaps (?s\<lparr>snapshots := Map.empty\<rparr>) c = []" for c
    by (simp add: mem_snaps_def)
  then have "mem_ok (?s\<lparr>snapshots := Map.empty\<rparr>)"
    using reachable_store(2) [OF r] by (simp add: mem_ok_def max_slice_def)
  moreover have "chained toy_scheme (mem_ents ?s ''c1'')" "length (mem_ents ?s ''c1'') = 199"
    using reachable_store(3) [OF r, of "''c1''"] demo_entries [of 199] by (simp_all add: chat_ok_def max_slice_def)
  moreover obtain r' l' where "Append toy_scheme 0 signed_example lossy_node = (r', l')"
    by fastforce
  ultimately show ?thesis
    using lost_snapshot_hides_window [of lossy_node toy_scheme signed_example "''c1''" "mem_ents ?s ''c1''" 0 r' l']
      demo_acceptable demo_chat reachable_store(1) [OF r] snaps
    by (simp add: lossy_node_def) (metis (no_types) less_imp_le order.refl)
qed

end
