(* ===== verification/Concurrency.thy ===== *)
theory Concurrency
  imports Chatlog_Faults
begin

text \<open>
  Concurrent calls of \<open>Append\<close>. \<open>log.go\<close> serialises the appends of one chat with a mutex per chat and lets
  chats proceed independently; the calls into the store, the cache and the broker are atomic. Here a
  call is a thread whose program counter advances from one such call to the next, and any number of
  threads interleave. A thread alone computes what \<open>Append\<close> computes. Over any store that satisfies the
  storage contract, every interleaving keeps an invariant that holds at each program point;
  \<open>Concurrency_Props\<close> draws the conclusions.
\<close>

section \<open>Threads\<close>

text \<open>
  Where a call of \<open>Append\<close> stands. The number is the address of the chat's mutex; from \<open>P_Locked\<close> to
  \<open>P_Unlock\<close> the thread holds it.
\<close>

datatype pc =
    P_Idle
  | P_Start Time SignedMessage
  | P_Wait Time SignedMessage nat
  | P_Locked Time SignedMessage nat
  | P_Tip Time SignedMessage nat string uint64
  | P_Stored Time nat LogEntry
  | P_Sealing Time nat LogEntry
  | P_From Time nat LogEntry uint64 uint64
  | P_Window Time nat LogEntry uint64 uint64 "LogEntry list"
  | P_Saved nat LogEntry string
  | P_Cached nat LogEntry
  | P_Unlock string nat "LogEntry res"
  | P_Done "LogEntry res"

text \<open>The chat and the mutex of a thread inside the critical section.\<close>

fun owns :: "pc \<Rightarrow> (string \<times> nat) option" where
  "owns (P_Locked now m k) = Some (ChatID m, k)"
| "owns (P_Tip now m k prevHash nextSeq) = Some (ChatID m, k)"
| "owns (P_Stored now k e) = Some (ChatID (Message e), k)"
| "owns (P_Sealing now k e) = Some (ChatID (Message e), k)"
| "owns (P_From now k e from index) = Some (ChatID (Message e), k)"
| "owns (P_Window now k e from index w) = Some (ChatID (Message e), k)"
| "owns (P_Saved k e root) = Some (ChatID (Message e), k)"
| "owns (P_Cached k e) = Some (ChatID (Message e), k)"
| "owns (P_Unlock c k r) = Some (c, k)"
| "owns _ = None"

text \<open>
  One atomic step of a call, apart from taking and releasing the mutex: each line makes at most one call
  into the store, the cache or the broker.
\<close>

fun advance :: "ed25519 \<Rightarrow> pc \<Rightarrow> ('s, 'c, 'b) Log \<Rightarrow> pc \<times> ('s, 'c, 'b) Log" where
  "advance ed (P_Start now m) l =
     (if \<not> supportedVersion (SchemaVersion m) then (P_Done (Inl ErrUnsupportedVersion), l)
      else if \<not> VerifyMessage ed m then (P_Done (Inl ErrInvalidSignature), l)
      else (let (k, l') = chatLock (ChatID m) l in (P_Wait now m k, l')))"
| "advance ed (P_Locked now m k) l =
     (case LastEntry (store_ops l) (ChatID m) (store l) of
        Inr lst \<Rightarrow> (P_Tip now m k (EntryHash lst) (Sequence lst + 1), l)
      | Inl err \<Rightarrow> if errors_Is err ErrNotFound then (P_Tip now m k GenesisHash 0, l)
                  else (P_Unlock (ChatID m) k (Inl (Wrapped ''read tip'' err)), l))"
| "advance ed (P_Tip now m k prevHash nextSeq) l =
     (let entry0 = \<lparr>Sequence = nextSeq, Message = m, PrevHash = prevHash, EntryHash = []\<rparr>;
          entry = entry0\<lparr>EntryHash := ComputeHash entry0\<rparr>
      in case AppendEntry (store_ops l) (ChatID m) entry (store l) of
           (Some err, s) \<Rightarrow> (P_Unlock (ChatID m) k (Inl (Wrapped ''append'' err)), l\<lparr>store := s\<rparr>)
         | (None, s) \<Rightarrow> (P_Stored now k entry, l\<lparr>store := s\<rparr>))"
| "advance ed (P_Stored now k e) l =
     (let l' = publish \<lparr>Kind = EntryAppended, ev_ChatID = ChatID (Message e), ev_Sequence = Sequence e,
                        ev_EntryHash = EntryHash e\<rparr> l
      in if (Sequence e + 1) mod SnapshotInterval = 0 then (P_Sealing now k e, l')
         else (P_Unlock (ChatID (Message e)) k (Inr e), l'))"
| "advance ed (P_Sealing now k e) l =
     (case LatestSnapshot (store_ops l) (ChatID (Message e)) (store l) of
        Inr prev \<Rightarrow> (P_From now k e (ToSequence prev + 1) (SnapshotIndex prev + 1), l)
      | Inl err \<Rightarrow> if errors_Is err ErrNotFound then (P_From now k e 0 0, l)
                  else (P_Unlock (ChatID (Message e)) k (Inl (Wrapped ''snapshot'' err)), l))"
| "advance ed (P_From now k e from index) l =
     (case EntriesSince (store_ops l) (ChatID (Message e)) from (store l) of
        Inl err \<Rightarrow> (P_Unlock (ChatID (Message e)) k (Inl (Wrapped ''snapshot'' err)), l)
      | Inr w \<Rightarrow> (P_Window now k e from index w, l))"
| "advance ed (P_Window now k e from index w) l =
     (let root = Root (map EntryHash w)
      in case SaveSnapshot (store_ops l)
                \<lparr>snap_ChatID = ChatID (Message e), SnapshotIndex = index, FromSequence = from, ToSequence = Sequence e,
                 MerkleRoot = root, LastEntryHash = EntryHash e, CreatedAt = now\<rparr> (store l) of
           (Some err, s) \<Rightarrow> (P_Unlock (ChatID (Message e)) k (Inl (Wrapped ''snapshot'' err)), l\<lparr>store := s\<rparr>)
         | (None, s) \<Rightarrow> (P_Saved k e root, l\<lparr>store := s\<rparr>))"
| "advance ed (P_Saved k e root) l =
     (P_Cached k e, l\<lparr>cache := SetMerkleRoot (cache_ops l) (ChatID (Message e)) root (cache l)\<rparr>)"
| "advance ed (P_Cached k e) l =
     (P_Unlock (ChatID (Message e)) k (Inr e),
      publish \<lparr>Kind = SnapshotCreated, ev_ChatID = ChatID (Message e), ev_Sequence = Sequence e, ev_EntryHash = EntryHash e\<rparr> l)"
| "advance ed p l = (p, l)"

section \<open>One thread alone\<close>

text \<open>A call of \<open>Append\<close> by a thread that nobody disturbs: check, take the mutex, then step to the end.\<close>

definition solo :: "ed25519 \<Rightarrow> nat \<Rightarrow> pc \<times> ('s, 'c, 'b) Log \<Rightarrow> pc \<times> ('s, 'c, 'b) Log" where
  "solo ed n = (\<lambda>(p, l). advance ed p l) ^^ n"

definition solo_Append ::
  "ed25519 \<Rightarrow> Time \<Rightarrow> SignedMessage \<Rightarrow> ('s, 'c, 'b) Log \<Rightarrow> (LogEntry res \<times> ('s, 'c, 'b) Log) option" where
  "solo_Append ed now m l =
     (case advance ed (P_Start now m) l of
        (P_Done r, l') \<Rightarrow> Some (r, l')
      | (P_Wait now m k, l') \<Rightarrow>
          (case solo ed 8 (P_Locked now m k, l') of (P_Unlock c k' r, l'') \<Rightarrow> Some (r, l'') | _ \<Rightarrow> None)
      | _ \<Rightarrow> None)"

lemma solo_Suc: "solo ed (Suc n) (p, l) = solo ed n (advance ed p l)"
  by (simp add: solo_def funpow_swap1 split: prod.splits)

lemma solo_0 [simp]: "solo ed 0 x = x"
  by (simp add: solo_def)

lemma solo_Unlock [simp]: "solo ed n (P_Unlock c k r, l) = (P_Unlock c k r, l)"
  by (induction n) (simp_all add: solo_Suc)

lemma solo_add: "solo ed (m + n) x = solo ed n (solo ed m x)"
  unfolding solo_def by (metis add.commute comp_apply funpow_add)

lemma solo_window:
  "solo ed 3 (P_Window now k e from index w, l) =
     (case SaveSnapshot (store_ops l)
             \<lparr>snap_ChatID = ChatID (Message e), SnapshotIndex = index, FromSequence = from, ToSequence = Sequence e,
              MerkleRoot = Root (map EntryHash w), LastEntryHash = EntryHash e, CreatedAt = now\<rparr> (store l) of
        (Some err, s) \<Rightarrow> (P_Unlock (ChatID (Message e)) k (Inl (Wrapped ''snapshot'' err)), l\<lparr>store := s\<rparr>)
      | (None, s) \<Rightarrow>
          (P_Unlock (ChatID (Message e)) k (Inr e),
           publish \<lparr>Kind = SnapshotCreated, ev_ChatID = ChatID (Message e), ev_Sequence = Sequence e, ev_EntryHash = EntryHash e\<rparr>
             (l\<lparr>store := s, cache := SetMerkleRoot (cache_ops l) (ChatID (Message e)) (Root (map EntryHash w)) (cache l)\<rparr>)))"
  by (simp add: numeral_3_eq_3 solo_Suc Let_def split: prod.split option.split)

lemma solo_snapshot:
  "solo ed 5 (P_Sealing now k e, l) =
     (case snapshot now (ChatID (Message e)) e l of
        (Some err, l') \<Rightarrow> (P_Unlock (ChatID (Message e)) k (Inl (Wrapped ''snapshot'' err)), l')
      | (None, l') \<Rightarrow> (P_Unlock (ChatID (Message e)) k (Inr e), l'))"
proof -
  have five: "solo ed 5 x = solo ed 3 (solo ed (Suc (Suc 0)) x)" for x :: "pc \<times> ('a, 'b, 'c) Log"
    using solo_add [of ed 2 3 x] by (simp add: numeral_2_eq_2)
  have read: "solo ed (Suc 0) (P_From now k e from index, l) =
      (case EntriesSince (store_ops l) (ChatID (Message e)) from (store l) of
         Inl err \<Rightarrow> (P_Unlock (ChatID (Message e)) k (Inl (Wrapped ''snapshot'' err)), l)
       | Inr w \<Rightarrow> (P_Window now k e from index w, l))" for "from" index
    by (simp add: solo_Suc)
  have sealing: "solo ed 3 (solo ed (Suc 0) (P_From now k e from index, l)) =
      (case EntriesSince (store_ops l) (ChatID (Message e)) from (store l) of
         Inl err \<Rightarrow> (P_Unlock (ChatID (Message e)) k (Inl (Wrapped ''snapshot'' err)), l)
       | Inr w \<Rightarrow> solo ed 3 (P_Window now k e from index w, l))" for "from" index
    unfolding read by (simp split: sum.split)
  show ?thesis
    unfolding five solo_Suc [of ed "Suc 0"]
    by (simp add: snapshot_def sealing solo_window split: sum.split prod.split option.split)
qed

lemma solo_Append_locked:
  "solo ed 8 (P_Locked now m k, l) =
     (P_Unlock (ChatID m) k (fst (Append_locked now m l)), snd (Append_locked now m l))"
proof -
  have eight: "solo ed 8 x = solo ed 5 (solo ed 3 x)" for x :: "pc \<times> ('a, 'b, 'c) Log"
    using solo_add [of ed 3 5 x] by simp
  show ?thesis
    unfolding eight
    by (simp add: numeral_3_eq_3 solo_Suc solo_snapshot Append_locked_def Let_def split: sum.split prod.split option.split)
qed


section \<open>Interleavings\<close>

text \<open>The shared log, the owner of each mutex, and the threads.\<close>

record ('s, 'c, 'b) cstate =
  shared :: "('s, 'c, 'b) Log"
  held :: "nat \<Rightarrow> nat option"
  pcs :: "nat \<Rightarrow> pc"

text \<open>A thread that neither waits for the mutex nor is about to release it, and is inside a call.\<close>

fun moves :: "pc \<Rightarrow> bool" where
  "moves P_Idle \<longleftrightarrow> False"
| "moves (P_Wait now m k) \<longleftrightarrow> False"
| "moves (P_Unlock c k r) \<longleftrightarrow> False"
| "moves (P_Done r) \<longleftrightarrow> False"
| "moves _ \<longleftrightarrow> True"

text \<open>Thread \<open>t\<close> makes one step of its call; \<open>Lock\<close> blocks while another thread holds the mutex.\<close>

inductive proceed :: "ed25519 \<Rightarrow> nat \<Rightarrow> ('s, 'c, 'b) cstate \<Rightarrow> ('s, 'c, 'b) cstate \<Rightarrow> bool" for ed t where
  inner: "\<lbrakk>moves (pcs s t); advance ed (pcs s t) (shared s) = (p, l)\<rbrakk> \<Longrightarrow>
    proceed ed t s (s\<lparr>shared := l, pcs := (pcs s)(t := p)\<rparr>)"
| acquire: "\<lbrakk>pcs s t = P_Wait now m k; held s k = None\<rbrakk> \<Longrightarrow>
    proceed ed t s (s\<lparr>held := (held s)(k \<mapsto> t), pcs := (pcs s)(t := P_Locked now m k)\<rparr>)"
| release: "pcs s t = P_Unlock c k r \<Longrightarrow>
    proceed ed t s (s\<lparr>held := (held s)(k := None), pcs := (pcs s)(t := P_Done r)\<rparr>)"

text \<open>
  Any thread proceeds, a free thread starts a call with a message that satisfies \<open>adm\<close>, or something
  else happens to the broker (subscriptions, cancellations, reads of events) and to the cache (expiry).
\<close>

inductive cstep ::
  "ed25519 \<Rightarrow> (SignedMessage \<Rightarrow> bool) \<Rightarrow> ('s, 'c, 'b) cstate \<Rightarrow> ('s, 'c, 'b) cstate \<Rightarrow> bool"
  for ed adm where
  proceed: "proceed ed t s s' \<Longrightarrow> cstep ed adm s s'"
| call: "\<lbrakk>pcs s t = P_Idle \<or> pcs s t = P_Done r; adm m\<rbrakk> \<Longrightarrow> cstep ed adm s (s\<lparr>pcs := (pcs s)(t := P_Start now m)\<rparr>)"
| environment: "cstep ed adm s (s\<lparr>shared := (shared s)\<lparr>broker := b, cache := x\<rparr>\<rparr>)"

text \<open>The states after \<open>n\<close> steps from a log that no thread uses.\<close>

definition quiet :: "('s, 'c, 'b) Log \<Rightarrow> ('s, 'c, 'b) cstate" where
  "quiet l = \<lparr>shared = l, held = (\<lambda>k. None), pcs = (\<lambda>t. P_Idle)\<rparr>"

inductive creach ::
  "ed25519 \<Rightarrow> (SignedMessage \<Rightarrow> bool) \<Rightarrow> ('s, 'c, 'b) Log \<Rightarrow> nat \<Rightarrow> ('s, 'c, 'b) cstate \<Rightarrow> bool"
  for ed adm l0 where
  start: "creach ed adm l0 0 (quiet l0)"
| step: "\<lbrakk>creach ed adm l0 n s; cstep ed adm s s'\<rbrakk> \<Longrightarrow> creach ed adm l0 (Suc n) s'"

section \<open>What each program point knows\<close>

text \<open>The entry is stored at the end of its chat, and the snapshots are those from before.\<close>

definition appended :: "ed25519 \<Rightarrow> (SignedMessage \<Rightarrow> bool) \<Rightarrow> LogEntry \<Rightarrow> LogEntry list \<Rightarrow> MerkleSnapshot list \<Rightarrow> bool" where
  "appended ed adm e es ps \<longleftrightarrow> (\<exists>es0. es = es0 @ [e] \<and> e = next_entry es0 (Message e)
     \<and> chat_ok ed (ChatID (Message e)) es0 ps \<and> acceptable ed (Message e) \<and> adm (Message e))"

fun phase :: "ed25519 \<Rightarrow> (SignedMessage \<Rightarrow> bool) \<Rightarrow> pc \<Rightarrow> LogEntry list \<Rightarrow> MerkleSnapshot list \<Rightarrow> bool" where
  "phase ed adm (P_Locked now m k) es ps \<longleftrightarrow> chat_ok ed (ChatID m) es ps \<and> acceptable ed m \<and> adm m"
| "phase ed adm (P_Tip now m k prevHash nextSeq) es ps \<longleftrightarrow>
     chat_ok ed (ChatID m) es ps \<and> acceptable ed m \<and> adm m \<and> prevHash = tip_hash es \<and> nextSeq = ulen es"
| "phase ed adm (P_Stored now k e) es ps \<longleftrightarrow> appended ed adm e es ps"
| "phase ed adm (P_Sealing now k e) es ps \<longleftrightarrow> appended ed adm e es ps \<and> length es mod 100 = 0"
| "phase ed adm (P_From now k e from index) es ps \<longleftrightarrow> appended ed adm e es ps \<and> length es mod 100 = 0
     \<and> from = to_uint64 (100 * length ps) \<and> index = to_uint64 (length ps)"
| "phase ed adm (P_Window now k e from index w) es ps \<longleftrightarrow> appended ed adm e es ps \<and> length es mod 100 = 0
     \<and> from = to_uint64 (100 * length ps) \<and> index = to_uint64 (length ps) \<and> w = window es (length ps)"
| "phase ed adm (P_Saved k e root) es ps \<longleftrightarrow> chat_ok ed (ChatID (Message e)) es ps \<and> e \<in> set es"
| "phase ed adm (P_Cached k e) es ps \<longleftrightarrow> chat_ok ed (ChatID (Message e)) es ps \<and> e \<in> set es"
| "phase ed adm (P_Unlock c k r) es ps \<longleftrightarrow> chat_ok ed c es ps \<and> (\<exists>e. r = Inr e \<and> ChatID (Message e) = c \<and> e \<in> set es)"
| "phase ed adm _ es ps \<longleftrightarrow> True"

lemma appendedE:
  assumes "appended ed adm e es ps"
  obtains es0 where "es = es0 @ [e]" "e = next_entry es0 (Message e)" "chained ed es0" "sealed (ChatID (Message e)) es0 ps"
    "\<forall>x\<in>set es0. ChatID (Message x) = ChatID (Message e)" "acceptable ed (Message e)" "adm (Message e)" "chained ed es"
proof -
  from assms obtain es0 where es0: "es = es0 @ [e]" "e = next_entry es0 (Message e)"
    "chat_ok ed (ChatID (Message e)) es0 ps" "acceptable ed (Message e)" "adm (Message e)"
    unfolding appended_def by blast
  have ch: "chained ed es0"
    using es0(3) by (simp add: chat_ok_def)
  have "chained ed (es0 @ [e])"
    by (subst es0(2)) (rule chained_next [OF ch es0(4)])
  with es0 ch show thesis
    by (intro that [of es0]) (simp_all add: chat_ok_def)
qed

lemma appended_length:
  assumes "appended ed adm e es ps" "length es mod 100 = 0"
  shows "length es = 100 * (length ps + 1)"
proof -
  obtain es0 where es: "es = es0 @ [e]" "sealed (ChatID (Message e)) es0 ps"
    by (rule appendedE [OF assms(1)])
  then show ?thesis
    using assms(2) div_Suc [of "length es0" 100] by (simp add: sealed_def mod_Suc split: if_splits)
qed

lemma appended_keep:
  assumes "appended ed adm e es ps" "length es mod 100 \<noteq> 0"
  shows "chat_ok ed (ChatID (Message e)) es ps"
proof -
  obtain es0 where es: "es = es0 @ [e]" "sealed (ChatID (Message e)) es0 ps" "chained ed es"
    "\<forall>x\<in>set es0. ChatID (Message x) = ChatID (Message e)"
    by (rule appendedE [OF assms(1)])
  then show ?thesis
    using sealed_keep [OF es(2), of e] assms(2) by (simp add: chat_ok_def)
qed

lemma appended_seal:
  assumes "appended ed adm e es ps" "length es mod 100 = 0" "seals (ChatID (Message e)) es (length ps) p"
  shows "chat_ok ed (ChatID (Message e)) es (ps @ [p])"
proof -
  obtain es0 where es: "es = es0 @ [e]" "sealed (ChatID (Message e)) es0 ps" "chained ed es"
    "\<forall>x\<in>set es0. ChatID (Message x) = ChatID (Message e)"
    by (rule appendedE [OF assms(1)])
  then show ?thesis
    using sealed_add [OF es(2), of e p] appended_length [OF assms(1,2)] assms(3) by (simp add: chat_ok_def)
qed

text \<open>At every program point the chat is a well-formed chain of its own messages.\<close>

lemma phase_chained:
  assumes "owns p = Some (c, k)" "phase ed adm p es ps"
  shows "chained ed es \<and> (\<forall>e\<in>set es. ChatID (Message e) = c)"
proof -
  have "chained ed es \<and> (\<forall>x\<in>set es. ChatID (Message x) = ChatID (Message e))" if "appended ed adm e es ps" for e
    by (rule appendedE [OF that]) auto
  then show ?thesis
    using assms by (cases p) (auto simp: chat_ok_def)
qed

section \<open>Steps inside the critical section\<close>

text \<open>A step of the thread that owns chat \<open>c\<close>: it touches no other chat, and only adds to its own.\<close>

definition local_change ::
  "('s \<Rightarrow> string \<Rightarrow> LogEntry list) \<Rightarrow> ('s \<Rightarrow> string \<Rightarrow> MerkleSnapshot list) \<Rightarrow> string \<Rightarrow>
   ('s, 'c, 'b) Log \<Rightarrow> ('s, 'c, 'b) Log \<Rightarrow> bool" where
  "local_change ents snaps c l l' \<longleftrightarrow> store_ops l' = store_ops l \<and> locks l' = locks l
     \<and> (\<forall>d. d \<noteq> c \<longrightarrow> ents (store l') d = ents (store l) d \<and> snaps (store l') d = snaps (store l) d)
     \<and> prefix (ents (store l) c) (ents (store l') c) \<and> length (ents (store l') c) \<le> length (ents (store l) c) + 1"

definition good_step ::
  "ed25519 \<Rightarrow> (SignedMessage \<Rightarrow> bool) \<Rightarrow> ('s \<Rightarrow> string \<Rightarrow> LogEntry list) \<Rightarrow> ('s \<Rightarrow> string \<Rightarrow> MerkleSnapshot list) \<Rightarrow>
   ('s \<Rightarrow> bool) \<Rightarrow> string \<times> nat \<Rightarrow> ('s, 'c, 'b) Log \<Rightarrow> pc \<times> ('s, 'c, 'b) Log \<Rightarrow> bool" where
  "good_step ed adm ents snaps ok own l = (\<lambda>(p', l'). owns p' = Some own \<and> ok (store l')
     \<and> local_change ents snaps (fst own) l l'
     \<and> phase ed adm p' (ents (store l') (fst own)) (snaps (store l') (fst own)))"

text \<open>A step that leaves the store alone.\<close>

lemma good_step_same:
  assumes "owns p = Some (c, k)" "ok (store l)" "phase ed adm p (ents (store l) c) (snaps (store l) c)"
    and "store_ops l' = store_ops l" "store l' = store l" "locks l' = locks l"
  shows "good_step ed adm ents snaps ok (c, k) l (p, l')"
  using assms by (simp add: good_step_def local_change_def)

lemma publish_frame [simp]:
  "store_ops (publish ev l) = store_ops l" "store (publish ev l) = store l"
  by (simp_all add: publish_def)

context storage_port
begin

lemma step_Locked:
  assumes "store_ops l = S" "ok (store l)" "chat_name (ChatID m)"
    and "phase ed adm (P_Locked now m k) (ents (store l) (ChatID m)) (snaps (store l) (ChatID m))"
  shows "good_step ed adm ents snaps ok (ChatID m, k) l (advance ed (P_Locked now m k) l)"
proof -
  let ?es = "ents (store l) (ChatID m)"
  have ch: "chained ed ?es"
    using assms(4) by (simp add: chat_ok_def)
  have "advance ed (P_Locked now m k) l = (P_Tip now m k (tip_hash ?es) (ulen ?es), l)"
    using assms(1) last_entry [OF assms(2,3)] tip_sequence [OF ch] by (cases "?es = []") (simp_all add: tip_hash_def)
  then show ?thesis
    using assms by (simp add: good_step_same)
qed

lemma step_Tip:
  assumes "store_ops l = S" "ok (store l)" "length (ents (store l) (ChatID m)) + 1 < max_slice"
    and "storable (ChatID m) (next_entry (ents (store l) (ChatID m)) m)"
    and "phase ed adm (P_Tip now m k h q) (ents (store l) (ChatID m)) (snaps (store l) (ChatID m))"
  shows "good_step ed adm ents snaps ok (ChatID m, k) l (advance ed (P_Tip now m k h q) l)"
proof -
  let ?es = "ents (store l) (ChatID m)"
  let ?e = "next_entry ?es m"
  obtain s where s: "AppendEntry S (ChatID m) ?e (store l) = (None, s)" "ok s" "snaps s = snaps (store l)"
    "ents s = (ents (store l))(ChatID m := ?es @ [?e])"
    by (rule append_entry_spec [OF assms(2-4)])
  have "advance ed (P_Tip now m k h q) l = (P_Stored now k ?e, l\<lparr>store := s\<rparr>)"
    using assms(1,5) s(1) by (simp add: Let_def next_entry_def)
  moreover have "appended ed adm ?e (?es @ [?e]) (snaps (store l) (ChatID m))"
    unfolding appended_def using assms(5) by (intro exI [of _ ?es]) simp
  ultimately show ?thesis
    using s by (simp add: good_step_def local_change_def)
qed

lemma step_Stored:
  assumes "ok (store l)" "length (ents (store l) (ChatID (Message e))) < max_slice"
    and "phase ed adm (P_Stored now k e) (ents (store l) (ChatID (Message e))) (snaps (store l) (ChatID (Message e)))"
  shows "good_step ed adm ents snaps ok (ChatID (Message e), k) l (advance ed (P_Stored now k e) l)"
proof -
  let ?es = "ents (store l) (ChatID (Message e))"
  have app: "appended ed adm e ?es (snaps (store l) (ChatID (Message e)))"
    using assms(3) by simp
  obtain es0 where es0: "?es = es0 @ [e]" "chained ed ?es"
    by (rule appendedE [OF app])
  then have "Sequence e + 1 = ulen ?es"
    using tip_sequence [OF es0(2)] by simp
  then have "(Sequence e + 1) mod SnapshotInterval = 0 \<longleftrightarrow> length ?es mod 100 = 0"
    using interval_mod [OF assms(2)] by (simp add: ulen_def)
  moreover have "e \<in> set ?es"
    using es0(1) by simp
  ultimately show ?thesis
    using app appended_keep [OF app] assms(1) by (auto simp: Let_def intro!: good_step_same)
qed

lemma step_Sealing:
  assumes "store_ops l = S" "ok (store l)" "chat_name (ChatID (Message e))"
    and "phase ed adm (P_Sealing now k e) (ents (store l) (ChatID (Message e))) (snaps (store l) (ChatID (Message e)))"
  shows "good_step ed adm ents snaps ok (ChatID (Message e), k) l (advance ed (P_Sealing now k e) l)"
proof -
  let ?ps = "snaps (store l) (ChatID (Message e))"
  have app: "appended ed adm e (ents (store l) (ChatID (Message e))) ?ps"
    using assms(4) by simp
  obtain es0 where es0: "sealed (ChatID (Message e)) es0 ?ps"
    by (rule appendedE [OF app])
  have "advance ed (P_Sealing now k e) l = (P_From now k e (to_uint64 (100 * length ?ps)) (to_uint64 (length ?ps)), l)"
    using assms(1) latest_sealed [OF assms(2,3) es0] latest_snapshot [OF assms(2,3)] by (cases "?ps = []") simp_all
  then show ?thesis
    using assms by (simp add: good_step_same)
qed

lemma step_From:
  assumes "store_ops l = S" "ok (store l)" "chat_name (ChatID (Message e))"
    and "phase ed adm (P_From now k e f i) (ents (store l) (ChatID (Message e))) (snaps (store l) (ChatID (Message e)))"
  shows "good_step ed adm ents snaps ok (ChatID (Message e), k) l (advance ed (P_From now k e f i) l)"
proof -
  let ?es = "ents (store l) (ChatID (Message e))" and ?ps = "snaps (store l) (ChatID (Message e))"
  have len: "length ?es = 100 * (length ?ps + 1)"
    using assms(4) by (intro appended_length [of ed adm e]) simp_all
  then have "100 * length ?ps < max_slice"
    using ents_bound [OF assms(2), of "ChatID (Message e)"] by auto
  then have "EntriesSince S (ChatID (Message e)) f (store l) = Inr (window ?es (length ?ps))"
    using entries_since [OF assms(2,3), of f] assms(4) len by (simp add: window_def)
  then show ?thesis
    using assms by (simp add: good_step_same)
qed

lemma step_Window:
  assumes "store_ops l = S" "ok (store l)" "storable (ChatID (Message e)) e"
    and "phase ed adm (P_Window now k e f i w) (ents (store l) (ChatID (Message e))) (snaps (store l) (ChatID (Message e)))"
  shows "good_step ed adm ents snaps ok (ChatID (Message e), k) l (advance ed (P_Window now k e f i w) l)"
proof -
  let ?c = "ChatID (Message e)"
  let ?es = "ents (store l) ?c" and ?ps = "snaps (store l) ?c"
  let ?p = "\<lparr>snap_ChatID = ?c, SnapshotIndex = i, FromSequence = f, ToSequence = Sequence e,
    MerkleRoot = Root (map EntryHash w), LastEntryHash = EntryHash e, CreatedAt = now\<rparr>"
  have app: "appended ed adm e ?es ?ps" "length ?es mod 100 = 0" and fiw: "f = to_uint64 (100 * length ?ps)"
    "i = to_uint64 (length ?ps)" "w = window ?es (length ?ps)"
    using assms(4) by simp_all
  note len = appended_length [OF app]
  obtain es0 where es0: "?es = es0 @ [e]" "chained ed ?es"
    by (rule appendedE [OF app(1)])
  have small: "length ?ps < max_slice" "length ?ps + 1 < max_slice"
    using ents_bound [OF assms(2), of ?c] len by auto
  have "length es0 = 100 * length ?ps + 99"
    using len es0(1) by simp
  then have last: "?es ! (100 * length ?ps + 99) = e" "Sequence e = to_uint64 (100 * length ?ps + 99)"
    using es0 by (simp_all add: nth_append chained_snoc ulen_def)
  have root: "\<forall>ch\<in>set (MerkleRoot ?p). is_hex ch"
    using Root_hex [of "map EntryHash w"] fiw(3) len length_window [of "length ?ps" ?es] by simp
  obtain s where s: "SaveSnapshot S ?p (store l) = (None, s)" "ok s" "ents s = ents (store l)"
    "snaps s = (snaps (store l))(?c := ?ps @ [?p\<lparr>CreatedAt := stamp now\<rparr>])"
    using save_next [of "store l" ?p e] assms(2,3) small root fiw(2) by auto
  have "seals ?c ?es (length ?ps) (?p\<lparr>CreatedAt := stamp now\<rparr>)"
    using fiw last by (simp add: seals_def)
  from appended_seal [OF app this] have "chat_ok ed ?c ?es (?ps @ [?p\<lparr>CreatedAt := stamp now\<rparr>])" .
  moreover have "e \<in> set ?es"
    using es0(1) by simp
  ultimately show ?thesis
    using assms(1) s by (simp add: good_step_def local_change_def Let_def)
qed

text \<open>Every step inside the critical section is good.\<close>

lemma critical_step:
  assumes "store_ops l = S" "ok (store l)" "owns p = Some (c, k)" "moves p" "length (ents (store l) c) + 1 < max_slice"
    and "\<And>m es. adm m \<Longrightarrow> chained ed es \<Longrightarrow> storable (ChatID m) (next_entry es m)"
    and "phase ed adm p (ents (store l) c) (snaps (store l) c)"
  shows "good_step ed adm ents snaps ok (c, k) l (advance ed p l)"
proof -
  have "storable (ChatID (Message e)) e" if "appended ed adm e es ps" for e es ps
    by (rule appendedE [OF that]) (use assms(6) in metis)
  note app = this this [THEN storable_name]
  have adm: "storable (ChatID m) (next_entry es m)" "chat_name (ChatID m)"
    if "adm m" "chat_ok ed c es ps" for m es c ps
    using assms(6) [OF that(1)] storable_name that(2) by (auto simp: chat_ok_def)
  show ?thesis
  proof (cases p)
    case (P_Locked now m k')
    then show ?thesis using assms adm by (auto intro!: step_Locked simp del: advance.simps)
  next
    case (P_Tip now m k' h q)
    then show ?thesis using assms adm by (auto intro!: step_Tip simp del: advance.simps)
  next
    case (P_Stored now k' e)
    then show ?thesis using assms by (auto intro!: step_Stored simp del: advance.simps)
  next
    case (P_Sealing now k' e)
    then show ?thesis using assms app(2) by (auto intro!: step_Sealing simp del: advance.simps)
  next
    case (P_From now k' e f i)
    then show ?thesis using assms app(2) by (auto intro!: step_From simp del: advance.simps)
  next
    case (P_Window now k' e f i w)
    then show ?thesis using assms app(1) by (auto intro!: step_Window simp del: advance.simps)
  qed (use assms in \<open>auto intro!: good_step_same\<close>)
qed

end

section \<open>The invariant of all interleavings\<close>

text \<open>What a finished call has returned: an entry that is in its chat, or one of the two rejections.\<close>

definition settled :: "(string \<Rightarrow> LogEntry list) \<Rightarrow> LogEntry res \<Rightarrow> bool" where
  "settled a r \<longleftrightarrow> (case r of
     Inr e \<Rightarrow> e \<in> set (a (ChatID (Message e)))
   | Inl err \<Rightarrow> err = ErrUnsupportedVersion \<or> err = ErrInvalidSignature)"

text \<open>What is known at the program points outside the critical section.\<close>

fun outside ::
  "ed25519 \<Rightarrow> (SignedMessage \<Rightarrow> bool) \<Rightarrow> (string \<rightharpoonup> nat) \<Rightarrow> (string \<Rightarrow> LogEntry list) \<Rightarrow> pc \<Rightarrow> bool" where
  "outside ed adm lk a (P_Start now m) \<longleftrightarrow> adm m"
| "outside ed adm lk a (P_Wait now m k) \<longleftrightarrow> lk (ChatID m) = Some k \<and> acceptable ed m \<and> adm m"
| "outside ed adm lk a (P_Done r) \<longleftrightarrow> settled a r"
| "outside ed adm lk a _ \<longleftrightarrow> True"

text \<open>The entry that a call has stored or returned.\<close>

fun pc_entry :: "pc \<Rightarrow> LogEntry option" where
  "pc_entry (P_Stored now k e) = Some e"
| "pc_entry (P_Sealing now k e) = Some e"
| "pc_entry (P_From now k e from index) = Some e"
| "pc_entry (P_Window now k e from index w) = Some e"
| "pc_entry (P_Saved k e root) = Some e"
| "pc_entry (P_Cached k e) = Some e"
| "pc_entry (P_Unlock c k (Inr e)) = Some e"
| "pc_entry (P_Done (Inr e)) = Some e"
| "pc_entry _ = None"

definition cinv ::
  "ed25519 \<Rightarrow> (SignedMessage \<Rightarrow> bool) \<Rightarrow> 's storage_ops \<Rightarrow> ('s \<Rightarrow> string \<Rightarrow> LogEntry list) \<Rightarrow>
   ('s \<Rightarrow> string \<Rightarrow> MerkleSnapshot list) \<Rightarrow> ('s \<Rightarrow> bool) \<Rightarrow> nat \<Rightarrow> ('s, 'c, 'b) cstate \<Rightarrow> bool" where
  "cinv ed adm S ents snaps ok b s \<longleftrightarrow>
     store_ops (shared s) = S \<and> ok (store (shared s)) \<and> locks_ok (shared s)
   \<and> (\<forall>c. length (ents (store (shared s)) c) \<le> b)
   \<and> (\<forall>t. outside ed adm (map_of (locks (shared s))) (ents (store (shared s))) (pcs s t))
   \<and> (\<forall>t c k. owns (pcs s t) = Some (c, k) \<longrightarrow> held s k = Some t \<and> map_of (locks (shared s)) c = Some k
        \<and> phase ed adm (pcs s t) (ents (store (shared s)) c) (snaps (store (shared s)) c))
   \<and> (\<forall>k t. held s k = Some t \<longrightarrow> (\<exists>c. owns (pcs s t) = Some (c, k)))
   \<and> (\<forall>c. (\<forall>t k. owns (pcs s t) \<noteq> Some (c, k)) \<longrightarrow> chat_ok ed c (ents (store (shared s)) c) (snaps (store (shared s)) c))
   \<and> (\<forall>t t' e. t \<noteq> t' \<longrightarrow> pc_entry (pcs s t) = Some e \<longrightarrow> pc_entry (pcs s t') \<noteq> Some e)"

lemma cinvD:
  assumes "cinv ed adm S ents snaps ok b s"
  shows "store_ops (shared s) = S" "ok (store (shared s))" "locks_ok (shared s)"
    "\<And>c. length (ents (store (shared s)) c) \<le> b"
    "\<And>t. outside ed adm (map_of (locks (shared s))) (ents (store (shared s))) (pcs s t)"
    "\<And>t c k. owns (pcs s t) = Some (c, k) \<Longrightarrow> held s k = Some t"
    "\<And>t c k. owns (pcs s t) = Some (c, k) \<Longrightarrow> map_of (locks (shared s)) c = Some k"
    "\<And>t c k. owns (pcs s t) = Some (c, k) \<Longrightarrow>
       phase ed adm (pcs s t) (ents (store (shared s)) c) (snaps (store (shared s)) c)"
    "\<And>k t. held s k = Some t \<Longrightarrow> \<exists>c. owns (pcs s t) = Some (c, k)"
    "\<And>c. (\<And>t k. owns (pcs s t) \<noteq> Some (c, k)) \<Longrightarrow> chat_ok ed c (ents (store (shared s)) c) (snaps (store (shared s)) c)"
    "\<And>t t' e. t \<noteq> t' \<Longrightarrow> pc_entry (pcs s t) = Some e \<Longrightarrow> pc_entry (pcs s t') \<noteq> Some e"
  using assms unfolding cinv_def by blast+

text \<open>Mutual exclusion: a chat has at most one owner, and a mutex belongs to one chat.\<close>

lemma cinv_exclusive:
  assumes "cinv ed adm S ents snaps ok b s" "owns (pcs s t) = Some (c, k)" "owns (pcs s t') = Some (c', k')"
    and "c = c' \<or> k = k'"
  shows "t = t'"
proof -
  have "k = k'"
    using assms(4) cinvD(7) [OF assms(1,2)] cinvD(7) [OF assms(1,3)] by auto
  then show ?thesis
    using cinvD(6) [OF assms(1,2)] cinvD(6) [OF assms(1,3)] by simp
qed

lemma outside_mono:
  assumes "outside ed adm lk a p" "\<And>d n. lk d = Some n \<Longrightarrow> lk' d = Some n" "\<And>d. prefix (a d) (a' d)"
  shows "outside ed adm lk' a' p"
proof -
  have "set (a d) \<subseteq> set (a' d)" for d
    using assms(3) [of d] by (rule set_mono_prefix)
  then show ?thesis
    using assms(1,2) by (cases p) (auto simp: settled_def split: sum.splits)
qed

lemma entry_stored:
  assumes "cinv ed adm S ents snaps ok b s" "pc_entry (pcs s t) = Some e"
  shows "e \<in> set (ents (store (shared s)) (ChatID (Message e)))"
proof (cases "owns (pcs s t)")
  case None
  then obtain r where "pcs s t = P_Done (Inr r)" "r = e"
    using assms(2) by (cases "pcs s t" rule: pc_entry.cases) auto
  then show ?thesis
    using cinvD(5) [OF assms(1), of t] by (simp add: settled_def)
next
  case (Some own)
  obtain c k where own: "owns (pcs s t) = Some (c, k)"
    using Some by (cases own) simp
  have app: "e \<in> set es" if "appended ed adm e es ps" for es ps
    by (rule appendedE [OF that]) simp
  show ?thesis
    using cinvD(8) [OF assms(1) own] own assms(2)
    by (cases "pcs s t" rule: pc_entry.cases) (auto intro: app)
qed

text \<open>One thread moves: what has to be checked.\<close>

lemma cinv_update:
  assumes inv: "cinv ed adm S ents snaps ok b s"
    and l: "store_ops l = S" "ok (store l)" "locks_ok l" "\<And>d. length (ents (store l) d) \<le> b'"
    and lk: "\<And>d n. map_of (locks (shared s)) d = Some n \<Longrightarrow> map_of (locks l) d = Some n"
    and es: "\<And>d. prefix (ents (store (shared s)) d) (ents (store l) d)"
    and others: "\<And>t' d k. \<lbrakk>t' \<noteq> t; owns (pcs s t') = Some (d, k)\<rbrakk> \<Longrightarrow> h k = held s k
        \<and> ents (store l) d = ents (store (shared s)) d \<and> snaps (store l) d = snaps (store (shared s)) d"
    and out: "outside ed adm (map_of (locks l)) (ents (store l)) p"
    and own: "\<And>c k. owns p = Some (c, k) \<Longrightarrow> h k = Some t \<and> map_of (locks l) c = Some k
        \<and> phase ed adm p (ents (store l) c) (snaps (store l) c)"
    and holder: "\<And>k t'. h k = Some t' \<Longrightarrow> (if t' = t then \<exists>c. owns p = Some (c, k) else held s k = Some t')"
    and free: "\<And>d. \<lbrakk>\<And>t' k. t' \<noteq> t \<Longrightarrow> owns (pcs s t') \<noteq> Some (d, k); \<And>k. owns p \<noteq> Some (d, k)\<rbrakk> \<Longrightarrow>
        chat_ok ed d (ents (store l) d) (snaps (store l) d)"
    and new: "\<And>t' e. \<lbrakk>t' \<noteq> t; pc_entry p = Some e\<rbrakk> \<Longrightarrow> pc_entry (pcs s t') \<noteq> Some e"
  shows "cinv ed adm S ents snaps ok b' \<lparr>shared = l, held = h, pcs = (pcs s)(t := p)\<rparr>"
proof -
  let ?s = "\<lparr>shared = l, held = h, pcs = (pcs s)(t := p)\<rparr>"
  have "outside ed adm (map_of (locks l)) (ents (store l)) (pcs ?s t')" for t'
    using out outside_mono [OF cinvD(5) [OF inv, of t'] lk es] by simp
  moreover have "held ?s k = Some t' \<and> map_of (locks l) c = Some k \<and> phase ed adm (pcs ?s t') (ents (store l) c) (snaps (store l) c)"
    if "owns (pcs ?s t') = Some (c, k)" for t' c k
    using that own others [of t' c k] lk cinvD(6-8) [OF inv, of t' c k] by (cases "t' = t") auto
  moreover have "\<exists>c. owns (pcs ?s t') = Some (c, k)" if "held ?s k = Some t'" for k t'
    using that holder [of k t'] cinvD(9) [OF inv, of k t'] by (auto split: if_splits)
  moreover have "chat_ok ed d (ents (store l) d) (snaps (store l) d)" if "\<And>t' k. owns (pcs ?s t') \<noteq> Some (d, k)" for d
  proof (rule free)
    show "owns (pcs s t') \<noteq> Some (d, k)" if "t' \<noteq> t" for t' k
      using \<open>owns (pcs ?s t') \<noteq> Some (d, k)\<close> that by simp
    show "owns p \<noteq> Some (d, k)" for k
      using that [of t k] by simp
  qed
  moreover have "pc_entry (pcs ?s t2) \<noteq> Some e" if "t1 \<noteq> t2" "pc_entry (pcs ?s t1) = Some e" for t1 t2 e
    using that new [of t2 e] new [of t1 e] cinvD(11) [OF inv, of t1 t2 e] by (auto split: if_splits)
  ultimately show ?thesis
    unfolding cinv_def using l by (simp del: fun_upd_apply)
qed

lemma cstate_updates:
  "s\<lparr>shared := l, pcs := q\<rparr> = \<lparr>shared = l, held = held s, pcs = q\<rparr>"
  "s\<lparr>held := h, pcs := q\<rparr> = \<lparr>shared = shared s, held = h, pcs = q\<rparr>"
  "s\<lparr>pcs := q\<rparr> = \<lparr>shared = shared s, held = held s, pcs = q\<rparr>"
  by (cases s; simp)+

lemma cinv_call:
  assumes "cinv ed adm S ents snaps ok b s" "pcs s t = P_Idle \<or> pcs s t = P_Done r" "adm m"
  shows "cinv ed adm S ents snaps ok b (s\<lparr>pcs := (pcs s)(t := P_Start now m)\<rparr>)"
proof -
  have no: "owns (pcs s t) = None"
    using assms(2) by auto
  have "t' \<noteq> t" if "held s k = Some t'" for k t'
    using cinvD(9) [OF assms(1) that] no by auto
  moreover have "chat_ok ed d (ents (store (shared s)) d) (snaps (store (shared s)) d)"
    if "\<And>t' k. t' \<noteq> t \<Longrightarrow> owns (pcs s t') \<noteq> Some (d, k)" for d
    using that no by (intro cinvD(10) [OF assms(1)]) (metis option.distinct(1))
  ultimately show ?thesis
    unfolding cstate_updates using assms(3) cinvD(1-4) [OF assms(1)]
    by (intro cinv_update [OF assms(1)]) simp_all
qed

lemma cinv_acquire:
  assumes "cinv ed adm S ents snaps ok b s" "pcs s t = P_Wait now m k" "held s k = None"
  shows "cinv ed adm S ents snaps ok b (s\<lparr>held := (held s)(k \<mapsto> t), pcs := (pcs s)(t := P_Locked now m k)\<rparr>)"
proof -
  have w: "map_of (locks (shared s)) (ChatID m) = Some k" "acceptable ed m" "adm m"
    using cinvD(5) [OF assms(1), of t] assms(2) by simp_all
  have other: "k' \<noteq> k" if "owns (pcs s t') = Some (d, k')" for t' d k'
    using cinvD(6) [OF assms(1) that] assms(3) by auto
  then have chat: "chat_ok ed (ChatID m) (ents (store (shared s)) (ChatID m)) (snaps (store (shared s)) (ChatID m))"
    using cinvD(7) [OF assms(1)] w(1) by (intro cinvD(10) [OF assms(1)]) (metis option.inject)
  have no: "owns (pcs s t) = None"
    using assms(2) by simp
  have "t' \<noteq> t" if "held s k' = Some t'" for k' t'
    using cinvD(9) [OF assms(1) that] no by auto
  moreover have "chat_ok ed d (ents (store (shared s)) d) (snaps (store (shared s)) d)"
    if "\<And>t' k. t' \<noteq> t \<Longrightarrow> owns (pcs s t') \<noteq> Some (d, k)" for d
    using that no by (intro cinvD(10) [OF assms(1)]) (metis option.distinct(1))
  ultimately show ?thesis
    unfolding cstate_updates using w chat other cinvD(1-4) [OF assms(1)]
    by (intro cinv_update [OF assms(1)]) (auto split: if_splits)
qed

lemma cinv_release:
  assumes "cinv ed adm S ents snaps ok b s" "pcs s t = P_Unlock c k r"
  shows "cinv ed adm S ents snaps ok b (s\<lparr>held := (held s)(k := None), pcs := (pcs s)(t := P_Done r)\<rparr>)"
proof -
  have own: "owns (pcs s t) = Some (c, k)"
    using assms(2) by simp
  obtain e where e: "chat_ok ed c (ents (store (shared s)) c) (snaps (store (shared s)) c)" "r = Inr e"
    "ChatID (Message e) = c" "e \<in> set (ents (store (shared s)) c)"
    using cinvD(8) [OF assms(1) own] assms(2) by auto
  have other: "k' \<noteq> k" if "t' \<noteq> t" "owns (pcs s t') = Some (d, k')" for t' d k'
    using cinv_exclusive [OF assms(1) that(2) own] that(1) by blast
  have "t' \<noteq> t" if "held s k' = Some t'" "k' \<noteq> k" for k' t'
    using cinvD(9) [OF assms(1) that(1)] own that(2) by auto
  moreover have "chat_ok ed d (ents (store (shared s)) d) (snaps (store (shared s)) d)"
    if "\<And>t' k. t' \<noteq> t \<Longrightarrow> owns (pcs s t') \<noteq> Some (d, k)" for d
  proof (cases "d = c")
    case False
    show ?thesis
    proof (rule cinvD(10) [OF assms(1)])
      show "owns (pcs s t') \<noteq> Some (d, k')" for t' k'
        using that [of t' k'] own False by (cases "t' = t") auto
    qed
  qed (use e(1) in simp)
  moreover have "pc_entry (pcs s t') \<noteq> Some e" if "t' \<noteq> t" for t'
    using cinvD(11) [OF assms(1), of t t' e] that assms(2) e(2) by simp
  ultimately show ?thesis
    unfolding cstate_updates using e other cinvD(1-4) [OF assms(1)]
    by (intro cinv_update [OF assms(1)]) (auto simp: settled_def split: if_splits)
qed

lemma cinv_start:
  assumes "cinv ed adm S ents snaps ok b s" "pcs s t = P_Start now m" "advance ed (pcs s t) (shared s) = (p, l)"
  shows "cinv ed adm S ents snaps ok b (s\<lparr>shared := l, pcs := (pcs s)(t := p)\<rparr>)"
proof -
  obtain k l1 where lock: "chatLock (ChatID m) (shared s) = (k, l1)"
    by fastforce
  note l1 = chatLock_ok [OF cinvD(3) [OF assms(1)] lock] chatLock_keeps [OF lock]
    chatLock_frame(1,2) [of "ChatID m" "shared s", unfolded lock snd_conv]
  have adm: "adm m"
    using cinvD(5) [OF assms(1), of t] assms(2) by simp
  have step: "(p, l) = (if acceptable ed m then (P_Wait now m k, l1)
      else (P_Done (Inl (if supportedVersion (SchemaVersion m) then ErrInvalidSignature else ErrUnsupportedVersion)), shared s))"
    using assms(2,3) lock by (auto simp: acceptable_def Let_def split: if_splits)
  have l: "locks_ok l" "\<And>d n. map_of (locks (shared s)) d = Some n \<Longrightarrow> map_of (locks l) d = Some n"
    "store_ops l = store_ops (shared s)" "store l = store (shared s)"
    using step l1 cinvD(3) [OF assms(1)] by (auto split: if_splits)
  have p: "owns p = None" "pc_entry p = None" "outside ed adm (map_of (locks l)) (ents (store l)) p"
    using step l1(2) adm by (auto simp: settled_def split: if_splits)
  have no: "owns (pcs s t) = None"
    using assms(2) by simp
  have "t' \<noteq> t" if "held s k = Some t'" for k t'
    using cinvD(9) [OF assms(1) that] no by auto
  moreover have "chat_ok ed d (ents (store (shared s)) d) (snaps (store (shared s)) d)"
    if "\<And>t' k. t' \<noteq> t \<Longrightarrow> owns (pcs s t') \<noteq> Some (d, k)" for d
    using that no by (intro cinvD(10) [OF assms(1)]) (metis option.distinct(1))
  ultimately show ?thesis
    unfolding cstate_updates using p l cinvD(1,2,4) [OF assms(1)]
    by (intro cinv_update [OF assms(1)]) simp_all
qed

text \<open>An entry that a step adds is new in its chat.\<close>

lemma advance_entry:
  assumes "owns p = Some (c, k)" "advance ed p l = (p', l')" "phase ed adm p es ps" "length es < max_slice"
    and "pc_entry p' = Some e"
  shows "pc_entry p = Some e \<or> (ChatID (Message e) = c \<and> e \<notin> set es)"
proof (cases p)
  case (P_Tip now m k' h q)
  then have "advance ed p l = (case AppendEntry (store_ops l) (ChatID m) (next_entry es m) (store l) of
      (Some err, s) \<Rightarrow> (P_Unlock (ChatID m) k' (Inl (Wrapped ''append'' err)), l\<lparr>store := s\<rparr>)
    | (None, s) \<Rightarrow> (P_Stored now k' (next_entry es m), l\<lparr>store := s\<rparr>))"
    using assms(3) by (simp add: Let_def next_entry_def split: prod.split option.split)
  then have "e = next_entry es m"
    using assms(2,5) by (auto split: prod.splits option.splits)
  moreover have "ChatID m = c" "chained ed es"
    using assms(1,3) P_Tip by (simp_all add: chat_ok_def)
  ultimately have e: "e = next_entry es m" "ChatID m = c" "chained ed es"
    by blast+
  have "Sequence x \<noteq> ulen es" if "x \<in> set es" for x
  proof -
    obtain i where "i < length es" "x = es ! i"
      using \<open>x \<in> set es\<close> by (metis in_set_conv_nth)
    then have "Sequence x = to_uint64 i" "i < max_slice"
      using e(3) assms(4) by (simp_all add: chained_def)
    then have "unat (Sequence x) = i"
      by simp
    then show ?thesis
      using \<open>i < length es\<close> unat_ulen [OF assms(4)] by auto
  qed
  from this [of e] show ?thesis
    using e by auto
qed (use assms in \<open>auto simp: Let_def split: sum.splits prod.splits option.splits if_splits\<close>)

context storage_port
begin

lemma cinv_critical:
  assumes inv: "cinv ed adm S ents snaps ok b s" and own: "owns (pcs s t) = Some (c, k)" and mv: "moves (pcs s t)"
    and adv: "advance ed (pcs s t) (shared s) = (p, l)" and small: "b + 1 < max_slice"
    and adm: "\<And>m es. adm m \<Longrightarrow> chained ed es \<Longrightarrow> storable (ChatID m) (next_entry es m)"
  shows "cinv ed adm S ents snaps ok (b + 1) (s\<lparr>shared := l, pcs := (pcs s)(t := p)\<rparr>)"
proof -
  have len: "length (ents (store (shared s)) d) \<le> b" for d
    by (rule cinvD(4) [OF inv])
  have step: "owns p = Some (c, k)" "ok (store l)" "local_change ents snaps c (shared s) l"
    "phase ed adm p (ents (store l) c) (snaps (store l) c)"
    using critical_step [OF cinvD(1,2) [OF inv] own mv _ adm cinvD(8) [OF inv own]] len [of c] small adv
    by (simp_all add: good_step_def)
  have same: "ents (store l) d = ents (store (shared s)) d \<and> snaps (store l) d = snaps (store (shared s)) d" if "d \<noteq> c" for d
    using step(3) that by (simp add: local_change_def)
  have other: "d \<noteq> c" if "t' \<noteq> t" "owns (pcs s t') = Some (d, k')" for t' d k'
    using cinv_exclusive [OF inv that(2) own] that(1) by blast
  have pre: "prefix (ents (store (shared s)) d) (ents (store l) d)" "length (ents (store l) d) \<le> b + 1" for d
    using step(3) same [of d] len [of d] by (cases "d = c"; auto simp: local_change_def intro: order_trans)+
  have locks: "locks l = locks (shared s)" "store_ops l = S"
    using step(3) cinvD(1) [OF inv] by (simp_all add: local_change_def)
  show ?thesis
    unfolding cstate_updates(1)
  proof (rule cinv_update [OF inv locks(2) step(2)])
    show "locks_ok l"
      using cinvD(3) [OF inv] locks(1) by (simp add: locks_ok_def)
    show "map_of (locks l) d = Some n" if "map_of (locks (shared s)) d = Some n" for d n
      using that locks(1) by simp
    show "held s k' = held s k' \<and> ents (store l) d = ents (store (shared s)) d \<and> snaps (store l) d = snaps (store (shared s)) d"
      if "t' \<noteq> t" "owns (pcs s t') = Some (d, k')" for t' d k'
      using same [OF other [OF that]] by simp
    show "outside ed adm (map_of (locks l)) (ents (store l)) p"
      using step(1) by (cases p) simp_all
    show "held s k' = Some t \<and> map_of (locks l) d = Some k' \<and> phase ed adm p (ents (store l) d) (snaps (store l) d)"
      if "owns p = Some (d, k')" for d k'
      using that step(1,4) locks(1) cinvD(6,7) [OF inv own] by simp
    show "if t' = t then \<exists>c. owns p = Some (c, k') else held s k' = Some t'" if "held s k' = Some t'" for k' t'
      using cinvD(9) [OF inv that] that own step(1) by (cases "t' = t") auto
    show "chat_ok ed d (ents (store l) d) (snaps (store l) d)"
      if "\<And>t' k. t' \<noteq> t \<Longrightarrow> owns (pcs s t') \<noteq> Some (d, k)" "\<And>k. owns p \<noteq> Some (d, k)" for d
    proof -
      have "d \<noteq> c"
        using that(2) step(1) by auto
      moreover from this have "owns (pcs s t') \<noteq> Some (d, k')" for t' k'
        using that(1) own by (cases "t' = t") auto
      ultimately show ?thesis
        using same cinvD(10) [OF inv, of d] by simp
    qed
    show "pc_entry (pcs s t') \<noteq> Some e" if "t' \<noteq> t" "pc_entry p = Some e" for t' e
      using advance_entry [OF own adv cinvD(8) [OF inv own] _ that(2)] len [of c] small
        cinvD(11) [OF inv, of t t' e] entry_stored [OF inv, of t' e] that(1) by auto
  qed (fact pre)+
qed

lemma cinv_proceed:
  assumes "cinv ed adm S ents snaps ok b s" "b + 1 < max_slice" "proceed ed t s s'"
    and "\<And>m es. adm m \<Longrightarrow> chained ed es \<Longrightarrow> storable (ChatID m) (next_entry es m)"
  shows "cinv ed adm S ents snaps ok (b + 1) s'"
proof -
  have mono: "cinv ed adm S ents snaps ok (b + 1) s'" if "cinv ed adm S ents snaps ok b s'"
    using that unfolding cinv_def by (auto intro: le_SucI)
  show ?thesis
    using assms(3)
  proof cases
    case (inner p l)
    show ?thesis
    proof (cases "owns (pcs s t)")
      case None
      then obtain now m where "pcs s t = P_Start now m"
        using inner(2) by (cases "pcs s t") auto
      then show ?thesis
        unfolding inner(1) using cinv_start [OF assms(1) _ inner(3)] mono inner(1) by simp
    next
      case (Some own)
      then show ?thesis
        unfolding inner(1) using cinv_critical [OF assms(1) _ inner(2,3) assms(2,4)] by (cases own) simp
    qed
  next
    case (acquire now m k)
    show ?thesis
      by (rule mono) (unfold acquire(1), rule cinv_acquire [OF assms(1) acquire(2,3)])
  next
    case (release c k r)
    show ?thesis
      by (rule mono) (unfold release(1), rule cinv_release [OF assms(1) release(2)])
  qed
qed

lemma cinv_cstep:
  assumes "cinv ed adm S ents snaps ok b s" "b + 1 < max_slice" "cstep ed adm s s'"
    and "\<And>m es. adm m \<Longrightarrow> chained ed es \<Longrightarrow> storable (ChatID m) (next_entry es m)"
  shows "cinv ed adm S ents snaps ok (b + 1) s'"
  using assms(3)
proof cases
  case (proceed t)
  then show ?thesis
    by (rule cinv_proceed [OF assms(1,2) _ assms(4)])
next
  case (call t r m now)
  then show ?thesis
    using cinv_call [OF assms(1) call(2,3), of now] unfolding cinv_def by (auto intro: le_SucI)
next
  case (environment b' x)
  then show ?thesis
    using assms(1) unfolding cinv_def by (auto simp: locks_ok_def intro: le_SucI)
qed

lemma creach_cinv:
  assumes "creach ed adm l0 n s" "log_inv ed S ents snaps ok l0" "locks_ok l0" "\<And>c. length (ents (store l0) c) \<le> b"
    and "b + n < max_slice" "\<And>m es. adm m \<Longrightarrow> chained ed es \<Longrightarrow> storable (ChatID m) (next_entry es m)"
  shows "cinv ed adm S ents snaps ok (b + n) s"
  using assms(1,5)
proof induction
  case start
  then show ?case
    using assms(2-4) by (simp add: cinv_def quiet_def log_inv_def)
next
  case (step n s s')
  then show ?case
    using cinv_cstep [of ed adm "b + n" s s'] assms(6) by simp
qed

end

end
