(* ===== verification/Concurrency_Props.thy ===== *)
theory Concurrency_Props
  imports Concurrency
begin

text \<open>
  What the mutex per chat achieves, for an in-memory node and any number of threads: readers always see a
  valid chain, no accepted message is lost or stored under another's number, and every call ends.
\<close>

section \<open>Calls end\<close>

text \<open>How many steps of its own a call still has to make, at most.\<close>

fun rank :: "pc \<Rightarrow> nat" where
  "rank P_Idle = 0"
| "rank (P_Start now m) = 11"
| "rank (P_Wait now m k) = 10"
| "rank (P_Locked now m k) = 9"
| "rank (P_Tip now m k prevHash nextSeq) = 8"
| "rank (P_Stored now k e) = 7"
| "rank (P_Sealing now k e) = 6"
| "rank (P_From now k e from index) = 5"
| "rank (P_Window now k e from index w) = 4"
| "rank (P_Saved k e root) = 3"
| "rank (P_Cached k e) = 2"
| "rank (P_Unlock c k r) = 1"
| "rank (P_Done r) = 0"

definition finished :: "pc \<Rightarrow> bool" where
  "finished p \<longleftrightarrow> p = P_Idle \<or> (\<exists>r. p = P_Done r)"

lemma finished_rank: "finished p \<longleftrightarrow> rank p = 0"
  by (cases p) (simp_all add: finished_def)

definition busy :: "('s, 'c, 'b) cstate \<Rightarrow> nat set" where
  "busy s = {t. rank (pcs s t) \<noteq> 0}"

definition work :: "('s, 'c, 'b) cstate \<Rightarrow> nat" where
  "work s = (\<Sum>t\<in>busy s. rank (pcs s t))"

lemma advance_rank: "moves p \<Longrightarrow> advance ed p l = (p', l') \<Longrightarrow> rank p' < rank p"
  by (cases p) (auto simp: Let_def split: sum.splits prod.splits option.splits if_splits)

lemma proceed_rank:
  assumes "proceed ed t s s'"
  shows "rank (pcs s' t) < rank (pcs s t)" "t' \<noteq> t \<Longrightarrow> pcs s' t' = pcs s t'"
  using assms by (auto elim!: proceed.cases intro: advance_rank)

lemma work_update:
  assumes "finite (busy s)" "\<And>t'. t' \<noteq> t \<Longrightarrow> pcs s' t' = pcs s t'"
  shows "finite (busy s')" "work s' + rank (pcs s t) = work s + rank (pcs s' t)"
proof -
  have sub: "busy s' \<subseteq> insert t (busy s)"
    using assms(2) by (auto simp: busy_def)
  then show "finite (busy s')"
    using assms(1) finite_subset by blast
  have w: "work u = rank (pcs u t) + (\<Sum>t'\<in>busy s - {t}. rank (pcs s t'))"
    if "busy u \<subseteq> insert t (busy s)" "\<And>t'. t' \<noteq> t \<Longrightarrow> pcs u t' = pcs s t'" for u
  proof -
    have "work u = (\<Sum>t'\<in>insert t (busy s). rank (pcs u t'))"
      unfolding work_def using assms(1) that(1) by (intro sum.mono_neutral_left) (auto simp: busy_def)
    also have "\<dots> = rank (pcs u t) + (\<Sum>t'\<in>busy s - {t}. rank (pcs u t'))"
      using assms(1) by (simp add: sum.insert_remove)
    also have "(\<Sum>t'\<in>busy s - {t}. rank (pcs u t')) = (\<Sum>t'\<in>busy s - {t}. rank (pcs s t'))"
      using that(2) by (intro sum.cong) simp_all
    finally show ?thesis .
  qed
  show "work s' + rank (pcs s t) = work s + rank (pcs s' t)"
    using w [OF sub assms(2)] w [OF subset_insertI refl] by simp
qed

text \<open>Some thread makes a step of its call.\<close>

definition progress :: "ed25519 \<Rightarrow> ('s, 'c, 'b) cstate \<Rightarrow> ('s, 'c, 'b) cstate \<Rightarrow> bool" where
  "progress ed s s' \<longleftrightarrow> (\<exists>t. proceed ed t s s')"

lemma progress_work:
  assumes "progress ed s s'" "finite (busy s)"
  shows "work s' < work s" "finite (busy s')"
proof -
  obtain t where t: "proceed ed t s s'"
    using assms(1) by (auto simp: progress_def)
  show "work s' < work s" "finite (busy s')"
    using work_update [of s t s', OF assms(2) proceed_rank(2) [OF t]] proceed_rank(1) [OF t] by simp_all
qed

lemma schedule_bound:
  assumes "(progress ed ^^ k) s s'" "finite (busy s)"
  shows "k + work s' \<le> work s \<and> finite (busy s')"
  using assms
proof (induction k arbitrary: s')
  case (Suc k)
  then obtain u where u: "(progress ed ^^ k) s u" "progress ed u s'"
    by auto
  then show ?case
    using Suc.IH [OF u(1) Suc.prems(2)] progress_work [OF u(2)] by auto
qed simp

lemma creach_work:
  assumes "creach ed adm l0 n s"
  shows "work s \<le> 11 * n \<and> finite (busy s)"
  using assms
proof induction
  case start
  then show ?case
    by (simp add: quiet_def work_def busy_def)
next
  case (step n s s')
  from step(2) show ?case
  proof cases
    case (proceed t)
    then have "progress ed s s'"
      by (auto simp: progress_def)
    then show ?thesis
      using step.IH progress_work [of ed s s'] by auto
  next
    case (call t r m now)
    have "rank (pcs s t) = 0"
      using call(2) by auto
    then show ?thesis
      using work_update [of s t s'] step.IH call(1) by simp
  next
    case environment
    then show ?thesis
      using step.IH by (simp add: work_def busy_def)
  qed
qed

text \<open>No deadlock: a thread inside a call can proceed, or the holder of the mutex it waits for can.\<close>

lemma no_deadlock:
  assumes "cinv ed adm S ents snaps ok b s" "\<not> finished (pcs s t)"
  shows "\<exists>s'. progress ed s s'"
proof -
  have go: "\<exists>s'. proceed ed t s s'" if "moves (pcs s t) \<or> (\<exists>c k r. pcs s t = P_Unlock c k r)" for t
    using that by (auto intro: proceed.intros) (metis proceed.inner surj_pair)
  show ?thesis
  proof (cases "\<exists>now m k. pcs s t = P_Wait now m k")
    case True
    then obtain now m k where w: "pcs s t = P_Wait now m k"
      by blast
    show ?thesis
    proof (cases "held s k")
      case None
      then show ?thesis
        using proceed.acquire [of s t now m k ed, OF w] by (auto simp: progress_def)
    next
      case (Some t')
      then obtain c where "owns (pcs s t') = Some (c, k)"
        using cinvD(9) [OF assms(1)] by blast
      then have "moves (pcs s t') \<or> (\<exists>c k r. pcs s t' = P_Unlock c k r)"
        by (cases "pcs s t'") auto
      from go [OF this] show ?thesis
        by (auto simp: progress_def)
    qed
  next
    case False
    then have "moves (pcs s t) \<or> (\<exists>c k r. pcs s t = P_Unlock c k r)"
      using assms(2) by (cases "pcs s t") (auto simp: finished_def)
    from go [OF this] show ?thesis
      by (auto simp: progress_def)
  qed
qed

lemma creach_progress:
  assumes "creach ed adm l0 n s" "(progress ed ^^ k) s s'"
  shows "creach ed adm l0 (n + k) s'"
  using assms(2)
proof (induction k arbitrary: s')
  case 0
  with assms(1) show ?case by simp
next
  case (Suc k)
  then obtain u t where "creach ed adm l0 (n + k) u" "proceed ed t u s'"
    by (auto simp: progress_def)
  then show ?case
    using creach.step cstep.proceed by fastforce
qed

lemma work_done: "finite (busy s) \<Longrightarrow> work s = 0 \<longleftrightarrow> (\<forall>t. finished (pcs s t))"
  by (auto simp: work_def busy_def finished_rank)

section \<open>Sequential executions are interleavings\<close>

lemma advance_stays: "\<not> moves p \<Longrightarrow> advance ed p l = (p, l)"
  by (cases p) simp_all

text \<open>What every step of a thread keeps, all its steps keep.\<close>

lemma solo_closed:
  assumes closed: "\<And>n s p l. \<lbrakk>P n s; moves (pcs s t); advance ed (pcs s t) (shared s) = (p, l)\<rbrakk> \<Longrightarrow>
      P (Suc n) (s\<lparr>shared := l, pcs := (pcs s)(t := p)\<rparr>)"
    and "P n s" "solo ed k (pcs s t, shared s) = (p, l)"
  shows "\<exists>n'\<le>n + k. P n' (s\<lparr>shared := l, pcs := (pcs s)(t := p)\<rparr>)"
  using assms(2,3)
proof (induction k arbitrary: n s)
  case 0
  then have same: "s\<lparr>shared := l, pcs := (pcs s)(t := p)\<rparr> = s"
    by (cases s) auto
  show ?case
    unfolding same using 0(1) by auto
next
  case (Suc k)
  obtain p1 l1 where adv: "advance ed (pcs s t) (shared s) = (p1, l1)"
    by fastforce
  then have rest: "solo ed k (p1, l1) = (p, l)"
    using Suc.prems(2) by (simp add: solo_Suc)
  show ?case
  proof (cases "moves (pcs s t)")
    case True
    from Suc.IH [OF closed [OF Suc.prems(1) True adv]] rest show ?thesis
      by (cases s) (simp del: fun_upd_apply add: fun_upd_same)
  next
    case False
    then have "(p1, l1) = (pcs s t, shared s)"
      using adv advance_stays [OF False] by (metis prod.inject)
    then show ?thesis
      using Suc.IH [OF Suc.prems(1)] rest by (metis Suc_eq_plus1 add_Suc_right le_SucI)
  qed
qed

lemma creach_solo:
  assumes "creach ed adm l0 n s" "solo ed k (pcs s t, shared s) = (p, l)"
  shows "\<exists>n'\<le>n + k. creach ed adm l0 n' (s\<lparr>shared := l, pcs := (pcs s)(t := p)\<rparr>)"
  by (rule solo_closed [where P = "creach ed adm l0" and ed = ed, OF _ assms])
    (blast intro: creach.step cstep.proceed proceed.inner)

text \<open>A free thread can run a whole call of \<open>Append\<close> with an acceptable message while no mutex is held.\<close>

lemma creach_Append:
  assumes "creach ed adm l0 n s" "finished (pcs s t)" "\<And>k. held s k = None" "acceptable ed m" "adm m"
  shows "\<exists>n'\<le>n + 12. creach ed adm l0 n'
    (s\<lparr>shared := snd (Append ed now m (shared s)), pcs := (pcs s)(t := P_Done (fst (Append ed now m (shared s))))\<rparr>)"
proof -
  obtain k l1 where lock: "chatLock (ChatID m) (shared s) = (k, l1)"
    by fastforce
  let ?A = "Append_locked now m l1"
  have app: "Append ed now m (shared s) = ?A"
    using Append_accepts [OF assms(4), of now "shared s"] lock by simp
  let ?s1 = "s\<lparr>pcs := (pcs s)(t := P_Start now m)\<rparr>"
  have s1: "creach ed adm l0 (Suc n) ?s1"
    using assms(2,5) by (intro creach.step [OF assms(1)]) (auto simp: finished_def intro: cstep.call)
  let ?s2 = "s\<lparr>shared := l1, pcs := (pcs s)(t := P_Wait now m k)\<rparr>"
  have "proceed ed t ?s1 (?s1\<lparr>shared := l1, pcs := (pcs ?s1)(t := P_Wait now m k)\<rparr>)"
    using assms(4) lock by (intro proceed.inner) (simp_all add: acceptable_def)
  then have s2: "creach ed adm l0 (Suc (Suc n)) ?s2"
    using creach.step [OF s1 cstep.proceed] by simp
  let ?s3 = "s\<lparr>shared := l1, held := (held s)(k \<mapsto> t), pcs := (pcs s)(t := P_Locked now m k)\<rparr>"
  have "proceed ed t ?s2 (?s2\<lparr>held := (held ?s2)(k \<mapsto> t), pcs := (pcs ?s2)(t := P_Locked now m k)\<rparr>)"
    using assms(3) by (intro proceed.acquire) simp_all
  then have s3: "creach ed adm l0 (Suc (Suc (Suc n))) ?s3"
    using creach.step [OF s2 cstep.proceed] by simp
  let ?s4 = "s\<lparr>shared := snd ?A, held := (held s)(k \<mapsto> t), pcs := (pcs s)(t := P_Unlock (ChatID m) k (fst ?A))\<rparr>"
  obtain n' where n': "n' \<le> n + 11" "creach ed adm l0 n' ?s4"
    using creach_solo [OF s3, of 8 t] by (cases s) (auto simp: solo_Append_locked add.commute)
  have "proceed ed t ?s4 (?s4\<lparr>held := (held ?s4)(k := None), pcs := (pcs ?s4)(t := P_Done (fst ?A))\<rparr>)"
    by (rule proceed.release) simp
  moreover have "(held s)(k := None) = held s"
    using assms(3) by auto
  ultimately have "creach ed adm l0 (Suc n') (s\<lparr>shared := snd ?A, pcs := (pcs s)(t := P_Done (fst ?A))\<rparr>)"
    using creach.step [OF n'(2) cstep.proceed] by (cases s) simp
  then show ?thesis
    using n'(1) unfolding app by (intro exI [of _ "Suc n'"]) simp
qed

section \<open>Properties\<close>

lemma fresh_cinv:
  assumes "creach ed adm (new_node C x B b) n s" "n < max_slice"
  shows "cinv ed adm InMemoryStorage_ops mem_ents mem_snaps mem_ok n s"
  using mem.creach_cinv [OF assms(1) new_node_inv locks_new_node, of 0] assms(2) new_node_empty by simp

text \<open>Two threads append the same message to a fresh node, one after the other.\<close>

definition fresh_node :: "(InMemoryStorage, InMemoryCache, InMemoryBroker) Log" where
  "fresh_node = new_node InMemoryCache_ops NewInMemoryCache InMemoryBroker_ops NewInMemoryBroker"

lemma demo_Append:
  assumes "n + 1 < max_slice"
  shows "Append toy_scheme 0 signed_example (demo_node n) =
    (Inr (next_entry (mem_ents (store (demo_node n)) ''c1'') signed_example), demo_node (Suc n))"
proof -
  have len: "length (mem_ents (store (demo_node n)) ''c1'') + 1 < max_slice"
    using demo_entries [of n] assms by simp
  obtain l' where "Append toy_scheme 0 signed_example (demo_node n) =
      (Inr (next_entry (mem_ents (store (demo_node n)) ''c1'') signed_example), l')"
    by (rule mem.Append_spec [OF demo_inv demo_acceptable len TrueI refl demo_chat refl]) (use assms in simp_all)
  then show ?thesis
    by (simp add: demo_node_Suc)
qed

lemma demo_interleaving:
  obtains n s e e' where "creach toy_scheme (\<lambda>m. True) fresh_node n s" "n \<le> 24" "shared s = demo_node 2"
    "pcs s 0 = P_Done (Inr e)" "pcs s 1 = P_Done (Inr e')" "Message e = signed_example" "Message e' = signed_example"
proof -
  have start: "creach toy_scheme (\<lambda>m. True) fresh_node 0 (quiet fresh_node)"
    by (rule creach.start)
  have node: "fresh_node = demo_node 0"
    by (simp add: fresh_node_def demo_node_def demo_run_def)
  have small: "0 + 1 < max_slice" "Suc 0 + 1 < max_slice"
    by (simp_all add: max_slice_def)
  let ?e = "next_entry (mem_ents (store (demo_node 0)) ''c1'') signed_example"
  let ?e' = "next_entry (mem_ents (store (demo_node (Suc 0))) ''c1'') signed_example"
  let ?s1 = "(quiet fresh_node)\<lparr>shared := demo_node (Suc 0), pcs := (pcs (quiet fresh_node))(0 := P_Done (Inr ?e))\<rparr>"
  obtain n1 where n1: "n1 \<le> 12" "creach toy_scheme (\<lambda>m. True) fresh_node n1 ?s1"
    using creach_Append [OF start _ _ demo_acceptable TrueI, of 0 0] demo_Append [OF small(1)] node
    by (auto simp: quiet_def finished_def)
  let ?s2 = "?s1\<lparr>shared := demo_node (Suc (Suc 0)), pcs := (pcs ?s1)(1 := P_Done (Inr ?e'))\<rparr>"
  obtain n2 where "n2 \<le> n1 + 12" "creach toy_scheme (\<lambda>m. True) fresh_node n2 ?s2"
    using creach_Append [OF n1(2) _ _ demo_acceptable TrueI, of 1 0] demo_Append [OF small(2)]
    by (auto simp: quiet_def finished_def)
  then show thesis
    using n1(1) by (intro that [of n2 ?s2 ?e ?e']) (simp_all add: numeral_2_eq_2 quiet_def)
qed

text \<open>
  C11. Readers are never misled: at every moment of every interleaving of calls on a fresh node, every
  chat is an intact, authentic chain of its own messages, \<open>Verify\<close> reports it as valid with its number
  of entries, and when no call is inside the chat's critical section every full window is sealed.
\<close>

theorem interleaved_chats_valid:
  assumes "creach ed adm (new_node C x B b) n s" "n < max_slice" "es = mem_ents (store (shared s)) c"
  shows "chained ed es \<and> (\<forall>e\<in>set es. ChatID (Message e) = c)
    \<and> Log_Verify ed c (shared s) = Inr \<lparr>vr_Valid = True, vr_Entries = ulen es, vr_Reason = []\<rparr>
    \<and> ((\<forall>t k. owns (pcs s t) \<noteq> Some (c, k)) \<longrightarrow> sealed c es (mem_snaps (store (shared s)) c))"
proof -
  note inv = fresh_cinv [OF assms(1,2)]
  have chat: "chat_ok ed c es (mem_snaps (store (shared s)) c)" if "\<forall>t k. owns (pcs s t) \<noteq> Some (c, k)"
    using cinvD(10) [OF inv, of c] that assms(3) by simp
  have chain: "chained ed es \<and> (\<forall>e\<in>set es. ChatID (Message e) = c)"
  proof (cases "\<forall>t k. owns (pcs s t) \<noteq> Some (c, k)")
    case True
    then show ?thesis
      using chat by (simp add: chat_ok_def)
  next
    case False
    then show ?thesis
      using phase_chained cinvD(8) [OF inv] assms(3) by blast
  qed
  then have "Verify_loop ed 0 GenesisHash es = None"
    by (simp add: Verify_loop_iff)
  then show ?thesis
    using chain chat mem.Log_Verify_spec [OF cinvD(1,2) [OF inv] TrueI, of ed c] assms(3) by (simp add: chat_ok_def)
qed

theorem interleaved_chats_valid_witness:
  "\<exists>n s. creach toy_scheme (\<lambda>m. True) fresh_node n s \<and> pcs s 1 \<noteq> P_Idle
     \<and> Log_Verify toy_scheme ''c1'' (shared s) = Inr \<lparr>vr_Valid = True, vr_Entries = 2, vr_Reason = []\<rparr>"
proof -
  obtain n s e e' where s: "creach toy_scheme (\<lambda>m. True) fresh_node n s" "n \<le> 24" "shared s = demo_node 2"
    "pcs s 1 = P_Done (Inr e')"
    by (rule demo_interleaving)
  have n: "n < max_slice" "2 < max_slice"
    using s(2) by (simp_all add: max_slice_def)
  have "ulen (mem_ents (store (shared s)) ''c1'') = 2"
    using demo_entries [OF n(2)] s(3) by (simp add: ulen_def to_uint64_def)
  then show ?thesis
    using interleaved_chats_valid [OF s(1) [unfolded fresh_node_def] n(1) refl, of "''c1''"] s by (intro exI [of _ n] exI [of _ s]) simp
qed

text \<open>
  C12. No lost update: in every interleaving a call that has returned was rejected for its version or its
  signature, or has returned the entry that the chat holds at that entry's sequence number; and
  the results of two threads never share a sequence number of one chat.
\<close>

theorem interleaved_results:
  assumes "creach ed adm (new_node C x B b) n s" "n < max_slice" "pcs s t = P_Done r"
  shows "case r of
      Inl err \<Rightarrow> err = ErrUnsupportedVersion \<or> err = ErrInvalidSignature
    | Inr e \<Rightarrow> (let es = mem_ents (store (shared s)) (ChatID (Message e))
              in unat (Sequence e) < length es \<and> es ! unat (Sequence e) = e)
        \<and> (\<forall>t' e'. t' \<noteq> t \<and> pcs s t' = P_Done (Inr e') \<longrightarrow>
             ChatID (Message e') \<noteq> ChatID (Message e) \<or> Sequence e' \<noteq> Sequence e)"
proof (cases r)
  case (Inl err)
  then show ?thesis
    using cinvD(5) [OF fresh_cinv [OF assms(1,2)], of t] assms(3) by (simp add: settled_def)
next
  case (Inr e)
  note inv = fresh_cinv [OF assms(1,2)]
  have at: "unat (Sequence e) < length es \<and> es ! unat (Sequence e) = e"
    if "pcs s t = P_Done (Inr e)" "es = mem_ents (store (shared s)) (ChatID (Message e))" for t e es
  proof -
    have "chained ed es"
    proof (cases "\<forall>t k. owns (pcs s t) \<noteq> Some (ChatID (Message e), k)")
      case True
      then show ?thesis
        using cinvD(10) [OF inv, of "ChatID (Message e)"] that(2) by (simp add: chat_ok_def)
    next
      case False
      then show ?thesis
        using phase_chained cinvD(8) [OF inv] that(2) by blast
    qed
    moreover have "e \<in> set es" "length es < max_slice"
      using entry_stored [OF inv, of t e] mem.ents_bound [OF cinvD(2) [OF inv]] that by simp_all
    ultimately show ?thesis
      by (auto simp: chained_def in_set_conv_nth)
  qed
  have "ChatID (Message e') \<noteq> ChatID (Message e) \<or> Sequence e' \<noteq> Sequence e"
    if "t' \<noteq> t" "pcs s t' = P_Done (Inr e')" for t' e'
    using at [OF that(2) refl] at [of t e] assms(3) Inr cinvD(11) [OF inv, of t' t e'] that by auto
  then show ?thesis
    using at [of t e] assms(3) Inr by (auto simp: Let_def)
qed

theorem interleaved_results_witness:
  "\<exists>n s e e'. creach toy_scheme (\<lambda>m. True) fresh_node n s \<and> pcs s 0 = P_Done (Inr e) \<and> pcs s 1 = P_Done (Inr e')
     \<and> mem_ents (store (shared s)) ''c1'' ! unat (Sequence e) = e \<and> Sequence e \<noteq> Sequence e'"
proof -
  obtain n s e e' where s: "creach toy_scheme (\<lambda>m. True) fresh_node n s" "n \<le> 24" "pcs s 0 = P_Done (Inr e)"
    "pcs s 1 = P_Done (Inr e')" "Message e = signed_example" "Message e' = signed_example"
    by (rule demo_interleaving)
  have n: "n < max_slice"
    using s(2) by (simp add: max_slice_def)
  from interleaved_results [OF s(1) [unfolded fresh_node_def] n s(3)]
  have "mem_ents (store (shared s)) ''c1'' ! unat (Sequence e) = e" "Sequence e' \<noteq> Sequence e"
    using s(4-6) demo_chat zero_less_one by (fastforce simp: Let_def)+
  with s show ?thesis
    by metis
qed

text \<open>
  C15. Every call ends: from any state that \<open>n\<close> steps lead to, threads that are inside calls can make at
  most \<open>11 * n\<close> steps in total, under any schedule; and until all calls have returned, some thread can
  proceed. So there is no deadlock between the mutexes of the chats, and no waiting without end.
\<close>

theorem calls_end:
  assumes "creach ed adm (new_node C x B b) n s" "12 * n < max_slice"
  shows "(\<forall>k s'. (progress ed ^^ k) s s' \<longrightarrow> k \<le> 11 * n \<and> ((\<exists>s''. progress ed s' s'') \<or> (\<forall>t. finished (pcs s' t))))
    \<and> (\<exists>k s'. (progress ed ^^ k) s s' \<and> (\<forall>t. finished (pcs s' t)))"
proof -
  note work = creach_work [OF assms(1)]
  have one: "k \<le> 11 * n \<and> ((\<exists>s''. progress ed s' s'') \<or> (\<forall>t. finished (pcs s' t)))"
    if "(progress ed ^^ k) s s'" for k s'
  proof -
    have k: "k \<le> 11 * n"
      using schedule_bound [OF that] work by simp
    then have "cinv ed adm InMemoryStorage_ops mem_ents mem_snaps mem_ok (n + k) s'"
      using assms(2) by (intro fresh_cinv [OF creach_progress [OF assms(1) that]]) simp
    then show ?thesis
      using k no_deadlock by blast
  qed
  have "\<exists>k s'. (progress ed ^^ k) s s' \<and> (\<forall>t. finished (pcs s' t))"
  proof (rule ccontr)
    assume stuck: "\<not> ?thesis"
    have "\<exists>s'. (progress ed ^^ k) s s'" for k
    proof (induction k)
      case (Suc k)
      then obtain s' where s': "(progress ed ^^ k) s s'"
        by blast
      then obtain s'' where "progress ed s' s''"
        using one [OF s'] stuck by blast
      with s' show ?case
        by auto
    qed simp
    from this [of "Suc (11 * n)"] one show False
      by fastforce
  qed
  with one show ?thesis
    by blast
qed

theorem calls_end_witness:
  "let s = (quiet fresh_node)\<lparr>pcs := (\<lambda>t. P_Idle)(0 := P_Start 0 signed_example)\<rparr>
   in \<exists>k s'. (progress toy_scheme ^^ k) s s' \<and> (\<forall>t. finished (pcs s' t))"
proof -
  let ?s = "(quiet fresh_node)\<lparr>pcs := (\<lambda>t. P_Idle)(0 := P_Start 0 signed_example)\<rparr>"
  have "cstep toy_scheme (\<lambda>m. True) (quiet fresh_node) ?s"
    using cstep.call [of "quiet fresh_node" 0 _ "\<lambda>m. True" signed_example toy_scheme 0] by (simp add: quiet_def)
  then have "creach toy_scheme (\<lambda>m. True) fresh_node (Suc 0) ?s"
    by (rule creach.step [OF creach.start])
  then show ?thesis
    using calls_end [of toy_scheme "\<lambda>m. True" _ _ _ _ "Suc 0" ?s] by (simp add: fresh_node_def max_slice_def Let_def)
qed

end
