(* ===== verification/Cluster.thy ===== *)
theory Cluster
  imports Concurrency_Props Scylla_Node
begin

text \<open>
  Several nodes on one ScyllaDB. The mutexes of \<open>log.go\<close> live in one process, so appends of different nodes
  to one chat exclude each other only through the conditional insert of the store. This theory drops
  the mutexes altogether: without them the conditional insert alone keeps every chat one chain in
  which every accepted message has its own number. The snapshots, which no condition guards, are not safe.
\<close>

section \<open>Appends that do not exclude each other\<close>

text \<open>
  The threads of all nodes, with a shared store. A thread enters the critical section whenever it gets
  there; caches, brokers and mutexes of the nodes may change in any way.
\<close>

inductive race_step ::
  "ed25519 \<Rightarrow> (SignedMessage \<Rightarrow> bool) \<Rightarrow> ('s, 'c, 'b) cstate \<Rightarrow> ('s, 'c, 'b) cstate \<Rightarrow> bool"
  for ed adm where
  inner: "\<lbrakk>moves (pcs s t); advance ed (pcs s t) (shared s) = (p, l)\<rbrakk> \<Longrightarrow>
    race_step ed adm s (s\<lparr>shared := l, pcs := (pcs s)(t := p)\<rparr>)"
| enter: "pcs s t = P_Wait now m k \<Longrightarrow> race_step ed adm s (s\<lparr>pcs := (pcs s)(t := P_Locked now m k)\<rparr>)"
| leave: "pcs s t = P_Unlock c k r \<Longrightarrow> race_step ed adm s (s\<lparr>pcs := (pcs s)(t := P_Done r)\<rparr>)"
| call: "\<lbrakk>finished (pcs s t); adm m\<rbrakk> \<Longrightarrow> race_step ed adm s (s\<lparr>pcs := (pcs s)(t := P_Start now m)\<rparr>)"
| environment: "race_step ed adm s (s\<lparr>shared := (shared s)\<lparr>broker := b, cache := x, locks := lk\<rparr>\<rparr>)"

inductive race_reach ::
  "ed25519 \<Rightarrow> (SignedMessage \<Rightarrow> bool) \<Rightarrow> ('s, 'c, 'b) Log \<Rightarrow> nat \<Rightarrow> ('s, 'c, 'b) cstate \<Rightarrow> bool"
  for ed adm l0 where
  start: "race_reach ed adm l0 0 (quiet l0)"
| step: "\<lbrakk>race_reach ed adm l0 n s; race_step ed adm s s'\<rbrakk> \<Longrightarrow> race_reach ed adm l0 (Suc n) s'"

section \<open>What the nodes rely on\<close>

text \<open>
  A store that keeps entries under racing appends: a number that is taken is refused, and snapshots never
  touch the entries.
\<close>

locale shared_store =
  fixes S :: "'s storage_ops"
    and ents :: "'s \<Rightarrow> string \<Rightarrow> LogEntry list"
    and ok :: "'s \<Rightarrow> bool"
    and chat_name :: "string \<Rightarrow> bool"
    and storable :: "string \<Rightarrow> LogEntry \<Rightarrow> bool"
  assumes storable_name: "storable c e \<Longrightarrow> chat_name c"
    and last_entry:
      "\<lbrakk>ok s; chat_name c\<rbrakk> \<Longrightarrow> LastEntry S c s = (if ents s c = [] then Inl ErrNotFound else Inr (last (ents s c)))"
    and append_tip:
      "\<lbrakk>ok s; unat (Sequence e) = length (ents s c); length (ents s c) + 1 < max_slice; storable c e\<rbrakk> \<Longrightarrow>
       \<exists>s'. AppendEntry S c e s = (None, s') \<and> ok s' \<and> ents s' = (ents s)(c := ents s c @ [e])"
    and append_taken:
      "\<lbrakk>ok s; unat (Sequence e) < length (ents s c); storable c e\<rbrakk> \<Longrightarrow> AppendEntry S c e s = (Some ErrSequenceGap, s)"
    and entries_subset:
      "\<lbrakk>ok s; chat_name c\<rbrakk> \<Longrightarrow> \<exists>w. EntriesSince S c i s = Inr w \<and> set w \<subseteq> set (ents s c)"
    and save_keeps:
      "\<lbrakk>ok s; storable (snap_ChatID p) e; LastEntryHash p = EntryHash e; \<forall>ch\<in>set (MerkleRoot p). is_hex ch;
        SaveSnapshot S p s = (r, s')\<rbrakk> \<Longrightarrow> ok s' \<and> ents s' = ents s"

text \<open>ScyllaDB is such a store, whatever its snapshot table holds.\<close>

definition rows_ok :: "('q \<Rightarrow> string \<Rightarrow> entry_row list) \<Rightarrow> ('q \<Rightarrow> bool) \<Rightarrow> 'q \<Rightarrow> bool" where
  "rows_ok erows live q \<longleftrightarrow> live q \<and> (\<forall>c. dense row_sequence (erows q c))"

sublocale cql \<subseteq> shared: shared_store "Scylla_ops Q" "scylla_ents entry_rows" "rows_ok entry_rows live" utf8_valid scylla_storable
proof (unfold_locales, goal_cases)
  case (1 c e)
  then show ?case
    by (simp add: scylla_storable_def entry_row_fits_def)
next
  case (2 s c)
  then show ?case
    by (cases "entry_rows s c" rule: rev_cases)
      (simp_all add: rows_ok_def scylla_LastEntry_def scan_one_def last_row scylla_ents_def)
next
  case (3 s e c)
  let ?r = "entry_columns e"
  have dense: "live s" "dense row_sequence (entry_rows s c)" and len: "length (scylla_ents entry_rows s c) = length (entry_rows s c)"
    using 3(1) by (simp_all add: rows_ok_def scylla_ents_def)
  have key: "row_sequence ?r = int (length (entry_rows s c))"
    using 3(2,3) int64_of_small [of "Sequence e"] len by (simp add: entry_columns_def Let_def)
  then have "row_sequence ?r \<notin> row_sequence ` set (entry_rows s c)"
    by (simp add: dense_key [OF dense(2)])
  from insert_free [OF dense(1) _ this] obtain q'
    where q': "insert_entry_if_not_exists Q c ?r s = (Inr True, q')" "live q'"
      "entry_rows q' = (entry_rows s)(c := insort_key row_sequence (stored_entry_row ?r) (entry_rows s c))"
    using 3(4) by (auto simp: scylla_storable_def)
  have "row_sequence (stored_entry_row ?r) = int (length (entry_rows s c))"
    using key by (simp add: stored_entry_row_def)
  note ins = dense_insort [OF dense(2) this]
  show ?case
    using q' ins 3(1,3) len row_entry_stored [OF 3(4)]
    by (intro exI [of _ q']) (simp add: scylla_AppendEntry_def rows_ok_def fun_eq_iff scylla_ents_def)
next
  case (4 s e c)
  have dense: "live s" "dense row_sequence (entry_rows s c)" and len: "length (scylla_ents entry_rows s c) = length (entry_rows s c)"
    using 4(1) by (simp_all add: rows_ok_def scylla_ents_def)
  have "row_sequence (entry_columns e) \<in> row_sequence ` set (entry_rows s c)"
    using 4(2) len int64_index(1) [OF dense_length [OF dense(2)], of "Sequence e"]
    by (simp add: dense_key [OF dense(2)] entry_columns_def Let_def)
  then show ?case
    using insert_taken [OF dense(1)] 4(3) by (simp add: scylla_AppendEntry_def scylla_storable_def)
next
  case (5 s c i)
  then show ?case
    by (auto simp: rows_ok_def scylla_EntriesSince_def rows_from scan_all_rows scylla_ents_def)
next
  case (6 s p e r s')
  have "snapshot_row_fits (snap_ChatID p) (snapshot_columns p)"
    using 6(2-4) is_hex_utf8 [of "MerkleRoot p"]
    by (simp add: snapshot_row_fits_def scylla_storable_def entry_row_fits_def snapshot_columns_def entry_columns_def Let_def)
  moreover have "live s"
    using 6(1) by (simp add: rows_ok_def)
  ultimately obtain q' where "insert_snapshot Q (snap_ChatID p) (snapshot_columns p) s = (None, q')" "live q'"
    "entry_rows q' = entry_rows s"
    using upsert_snapshot by blast
  then show ?case
    using 6(1,5) by (auto simp: rows_ok_def scylla_SaveSnapshot_def scylla_ents_def fun_eq_iff)
qed

context cql
begin

lemma scylla_shared:
  "shared_store (Scylla_ops Q) (scylla_ents entry_rows) (rows_ok entry_rows live) utf8_valid scylla_storable"
  by (rule shared.shared_store_axioms)

end

section \<open>The invariant of racing appends\<close>

definition race_result :: "(string \<Rightarrow> LogEntry list) \<Rightarrow> LogEntry res \<Rightarrow> bool" where
  "race_result a r \<longleftrightarrow> (case r of Inr e \<Rightarrow> e \<in> set (a (ChatID (Message e))) | Inl err \<Rightarrow> True)"

text \<open>
  What is known at each program point: the tip that a thread has read is the end of some prefix of its chat,
  and an entry that it has stored is in the chat.
\<close>

fun racing :: "ed25519 \<Rightarrow> (SignedMessage \<Rightarrow> bool) \<Rightarrow> (string \<Rightarrow> LogEntry list) \<Rightarrow> pc \<Rightarrow> bool" where
  "racing ed adm a (P_Start now m) \<longleftrightarrow> adm m"
| "racing ed adm a (P_Wait now m k) \<longleftrightarrow> acceptable ed m \<and> adm m"
| "racing ed adm a (P_Locked now m k) \<longleftrightarrow> acceptable ed m \<and> adm m"
| "racing ed adm a (P_Tip now m k prevHash nextSeq) \<longleftrightarrow> acceptable ed m \<and> adm m
     \<and> (\<exists>j\<le>length (a (ChatID m)). prevHash = tip_hash (take j (a (ChatID m))) \<and> nextSeq = to_uint64 j)"
| "racing ed adm a (P_Window now k e from index w) \<longleftrightarrow>
     adm (Message e) \<and> e \<in> set (a (ChatID (Message e))) \<and> set w \<subseteq> set (a (ChatID (Message e)))"
| "racing ed adm a (P_Stored now k e) \<longleftrightarrow> adm (Message e) \<and> e \<in> set (a (ChatID (Message e)))"
| "racing ed adm a (P_Sealing now k e) \<longleftrightarrow> adm (Message e) \<and> e \<in> set (a (ChatID (Message e)))"
| "racing ed adm a (P_From now k e from index) \<longleftrightarrow> adm (Message e) \<and> e \<in> set (a (ChatID (Message e)))"
| "racing ed adm a (P_Saved k e root) \<longleftrightarrow> adm (Message e) \<and> e \<in> set (a (ChatID (Message e)))"
| "racing ed adm a (P_Cached k e) \<longleftrightarrow> adm (Message e) \<and> e \<in> set (a (ChatID (Message e)))"
| "racing ed adm a (P_Unlock c k r) \<longleftrightarrow> race_result a r"
| "racing ed adm a (P_Done r) \<longleftrightarrow> race_result a r"
| "racing ed adm a P_Idle \<longleftrightarrow> True"

definition all_chained :: "ed25519 \<Rightarrow> (string \<Rightarrow> LogEntry list) \<Rightarrow> bool" where
  "all_chained ed a \<longleftrightarrow> (\<forall>c. chained ed (a c) \<and> (\<forall>e\<in>set (a c). ChatID (Message e) = c))"

definition race_inv ::
  "ed25519 \<Rightarrow> (SignedMessage \<Rightarrow> bool) \<Rightarrow> 's storage_ops \<Rightarrow> ('s \<Rightarrow> string \<Rightarrow> LogEntry list) \<Rightarrow> ('s \<Rightarrow> bool) \<Rightarrow>
   nat \<Rightarrow> ('s, 'c, 'b) cstate \<Rightarrow> bool" where
  "race_inv ed adm S ents ok b s \<longleftrightarrow>
     store_ops (shared s) = S \<and> ok (store (shared s)) \<and> all_chained ed (ents (store (shared s)))
   \<and> (\<forall>c. length (ents (store (shared s)) c) \<le> b)
   \<and> (\<forall>t. racing ed adm (ents (store (shared s))) (pcs s t))
   \<and> (\<forall>t t' e. t \<noteq> t' \<longrightarrow> pc_entry (pcs s t) = Some e \<longrightarrow> pc_entry (pcs s t') \<noteq> Some e)"

lemma race_invD:
  assumes "race_inv ed adm S ents ok b s"
  shows "store_ops (shared s) = S" "ok (store (shared s))" "all_chained ed (ents (store (shared s)))"
    "\<And>c. length (ents (store (shared s)) c) \<le> b" "\<And>t. racing ed adm (ents (store (shared s))) (pcs s t)"
    "\<And>t t' e. t \<noteq> t' \<Longrightarrow> pc_entry (pcs s t) = Some e \<Longrightarrow> pc_entry (pcs s t') \<noteq> Some e"
  using assms unfolding race_inv_def by blast+

text \<open>Growing chats keep what a thread knows.\<close>

lemma racing_mono:
  assumes "racing ed adm a p" "\<And>d. prefix (a d) (a' d)"
  shows "racing ed adm a' p"
proof -
  have sub: "set (a d) \<subseteq> set (a' d)" for d
    using assms(2) [of d] by (rule set_mono_prefix)
  have tip: "j \<le> length (a' d) \<and> tip_hash (take j (a d)) = tip_hash (take j (a' d))" if "j \<le> length (a d)" for j d
    using assms(2) [of d] that by (auto simp: prefix_def)
  show ?thesis
  proof (cases p)
    case (P_Tip now m k h q)
    then show ?thesis
      using assms(1) tip [of _ "ChatID m"] by auto
  qed (use assms(1) sub in \<open>auto simp: race_result_def split: sum.splits\<close>)
qed

lemma racing_entry:
  "racing ed adm a p \<Longrightarrow> pc_entry p = Some e \<Longrightarrow> e \<in> set (a (ChatID (Message e)))"
  by (cases p rule: pc_entry.cases) (auto simp: race_result_def)

text \<open>An entry of a chain is the next entry of what precedes it.\<close>

lemma chained_entry:
  assumes "chained ed es" "e \<in> set es"
  obtains es0 where "chained ed es0" "e = next_entry es0 (Message e)" "prefix es0 es"
proof -
  obtain i where i: "i < length es" "e = es ! i"
    using assms(2) by (metis in_set_conv_nth)
  have "Sequence e = ulen (take i es)" "PrevHash e = tip_hash (take i es)" "ComputeHash e = EntryHash e"
    using assms(1) i by (simp_all add: chained_def entry_ok_def ulen_def)
  moreover from this have "ComputeHash (next_entry (take i es) (Message e)) = ComputeHash e"
    by (intro ComputeHash_cong) simp_all
  ultimately have "e = next_entry (take i es) (Message e)"
    using next_entry_hash [of "take i es" "Message e"] by (intro LogEntry.equality) simp_all
  then show thesis
    using chained_take [OF assms(1)] by (intro that [of "take i es"]) (simp_all add: take_is_prefix)
qed

lemma Root_hex_leaves: "\<forall>h\<in>set hs. \<forall>ch\<in>set h. is_hex ch \<Longrightarrow> ch \<in> set (Root hs) \<Longrightarrow> is_hex ch"
proof (cases "1 < length hs")
  case False
  assume *: "\<forall>h\<in>set hs. \<forall>ch\<in>set h. is_hex ch" "ch \<in> set (Root hs)"
  from False consider "hs = []" | h where "hs = [h]"
    by (cases hs; cases "tl hs") auto
  then show ?thesis
    using * by cases (simp_all add: Root_def Root_loop.simps)
qed (blast intro: Root_hex)

section \<open>Every step keeps the invariant\<close>

definition race_good ::
  "ed25519 \<Rightarrow> (SignedMessage \<Rightarrow> bool) \<Rightarrow> 's storage_ops \<Rightarrow> ('s \<Rightarrow> string \<Rightarrow> LogEntry list) \<Rightarrow> ('s \<Rightarrow> bool) \<Rightarrow>
   pc \<Rightarrow> ('s, 'c, 'b) Log \<Rightarrow> pc \<times> ('s, 'c, 'b) Log \<Rightarrow> bool" where
  "race_good ed adm S ents ok p l = (\<lambda>(p', l'). store_ops l' = S \<and> ok (store l') \<and> all_chained ed (ents (store l'))
     \<and> (\<forall>d. prefix (ents (store l) d) (ents (store l') d) \<and> length (ents (store l') d) \<le> length (ents (store l) d) + 1)
     \<and> racing ed adm (ents (store l')) p'
     \<and> (\<forall>e. pc_entry p' = Some e \<longrightarrow> pc_entry p = Some e \<or> e \<notin> set (ents (store l) (ChatID (Message e)))))"

lemma race_good_same:
  assumes "store_ops l = S" "ok (store l)" "all_chained ed (ents (store l))" "racing ed adm (ents (store l)) p'"
    and "store_ops l' = store_ops l" "store l' = store l" "\<And>e. pc_entry p' = Some e \<Longrightarrow> pc_entry p = Some e"
  shows "race_good ed adm S ents ok p l (p', l')"
  using assms by (simp add: race_good_def)

lemma next_entry_new: "chained ed es \<Longrightarrow> length es < max_slice \<Longrightarrow> next_entry es m \<notin> set es"
proof
  assume es: "chained ed es" "length es < max_slice" "next_entry es m \<in> set es"
  then obtain i where i: "i < length es" "next_entry es m = es ! i"
    by (metis in_set_conv_nth)
  then have "ulen es = to_uint64 i"
    using es(1) next_entry_simps(1) [of es m] by (simp add: chained_def)
  then have "unat (ulen es) = i"
    using i(1) es(2) by simp
  then show False
    using i(1) unat_ulen [OF es(2)] by simp
qed

context shared_store
begin

lemma race_Locked:
  assumes "store_ops l = S" "ok (store l)" "all_chained ed (ents (store l))" "chat_name (ChatID m)"
    and "racing ed adm (ents (store l)) (P_Locked now m k)"
  shows "race_good ed adm S ents ok (P_Locked now m k) l (advance ed (P_Locked now m k) l)"
proof -
  let ?es = "ents (store l) (ChatID m)"
  have ch: "chained ed ?es"
    using assms(3) by (simp add: all_chained_def)
  have step: "advance ed (P_Locked now m k) l = (P_Tip now m k (tip_hash ?es) (ulen ?es), l)"
    using assms(1) last_entry [OF assms(2,4)] tip_sequence [OF ch] by (cases "?es = []") (simp_all add: tip_hash_def)
  have "racing ed adm (ents (store l)) (P_Tip now m k (tip_hash ?es) (ulen ?es))"
    using assms(5) by (auto simp: ulen_def intro!: exI [of _ "length ?es"])
  then show ?thesis
    unfolding step using assms(1-3) by (intro race_good_same) simp_all
qed

lemma race_Tip:
  assumes "store_ops l = S" "ok (store l)" "all_chained ed (ents (store l))" "length (ents (store l) (ChatID m)) + 1 < max_slice"
    and "\<And>es. chained ed es \<Longrightarrow> storable (ChatID m) (next_entry es m)"
    and "racing ed adm (ents (store l)) (P_Tip now m k h q)"
  shows "race_good ed adm S ents ok (P_Tip now m k h q) l (advance ed (P_Tip now m k h q) l)"
proof -
  let ?c = "ChatID m"
  let ?es = "ents (store l) ?c"
  obtain j where j: "j \<le> length ?es" "h = tip_hash (take j ?es)" "q = to_uint64 j" "acceptable ed m" "adm m"
    using assms(6) by auto
  let ?e = "next_entry (take j ?es) m"
  have ch: "chained ed ?es"
    using assms(3) by (simp add: all_chained_def)
  have st: "storable ?c ?e"
    by (rule assms(5)) (rule chained_take [OF ch])
  have "Sequence ?e = q"
    using j(1,3) by (simp add: ulen_def)
  then have seq: "unat (Sequence ?e) = j"
    using j(1,3) assms(4) by simp
  have step: "advance ed (P_Tip now m k h q) l = (case AppendEntry S ?c ?e (store l) of
      (Some err, s) \<Rightarrow> (P_Unlock ?c k (Inl (Wrapped ''append'' err)), l\<lparr>store := s\<rparr>)
    | (None, s) \<Rightarrow> (P_Stored now k ?e, l\<lparr>store := s\<rparr>))"
    using assms(1) j(1-3) by (simp add: Let_def next_entry_def ulen_def split: prod.split option.split)
  show ?thesis
  proof (cases "j = length ?es")
    case True
    then obtain s where s: "AppendEntry S ?c ?e (store l) = (None, s)" "ok s" "ents s = (ents (store l))(?c := ?es @ [?e])"
      using append_tip [OF assms(2) _ assms(4) st] seq by auto
    have "chained ed (?es @ [?e])"
      using chained_next [OF ch j(4)] True by simp
    then have "all_chained ed (ents s)"
      using assms(3) s(3) by (simp add: all_chained_def)
    moreover have "?e \<notin> set ?es"
      using next_entry_new [OF ch] assms(4) True by simp
    ultimately show ?thesis
      unfolding step using s assms(1) j(5) by (simp add: race_good_def)
  next
    case False
    then have "AppendEntry S ?c ?e (store l) = (Some ErrSequenceGap, store l)"
      using append_taken [OF assms(2) _ st] seq j(1) by simp
    then have "advance ed (P_Tip now m k h q) l = (P_Unlock ?c k (Inl (Wrapped ''append'' ErrSequenceGap)), l)"
      by (simp add: step del: advance.simps)
    then show ?thesis
      using assms(1-3) by (simp add: race_good_def race_result_def del: advance.simps)
  qed
qed

lemma race_Window:
  assumes "store_ops l = S" "ok (store l)" "all_chained ed (ents (store l))"
    and "\<And>m es. adm m \<Longrightarrow> chained ed es \<Longrightarrow> storable (ChatID m) (next_entry es m)"
    and "racing ed adm (ents (store l)) (P_Window now k e f i w)"
  shows "race_good ed adm S ents ok (P_Window now k e f i w) l (advance ed (P_Window now k e f i w) l)"
proof -
  let ?c = "ChatID (Message e)"
  let ?p = "\<lparr>snap_ChatID = ?c, SnapshotIndex = i, FromSequence = f, ToSequence = Sequence e,
    MerkleRoot = Root (map EntryHash w), LastEntryHash = EntryHash e, CreatedAt = now\<rparr>"
  have w: "adm (Message e)" "e \<in> set (ents (store l) ?c)" "set w \<subseteq> set (ents (store l) ?c)"
    using assms(5) by simp_all
  have ch: "chained ed (ents (store l) ?c)"
    using assms(3) by (simp add: all_chained_def)
  have st: "storable ?c e"
    by (rule chained_entry [OF ch w(2)]) (use assms(4) [OF w(1)] in metis)
  have "is_hex x" if "y \<in> set w" "x \<in> set (EntryHash y)" for x y
  proof -
    have "y \<in> set (ents (store l) ?c)"
      using that(1) w(3) by blast
    then have "EntryHash y = ComputeHash y"
      using ch by (auto simp: chained_def entry_ok_def in_set_conv_nth)
    then show ?thesis
      using ComputeHash_hex that(2) by simp
  qed
  then have "\<forall>ch\<in>set (MerkleRoot ?p). is_hex ch"
    using Root_hex_leaves [of "map EntryHash w"] by auto
  moreover obtain r s where s: "SaveSnapshot S ?p (store l) = (r, s)"
    by fastforce
  ultimately have keep: "ok s" "ents s = ents (store l)"
    using save_keeps [OF assms(2) _ _ _ s, of e] st by simp_all
  show ?thesis
    using s keep assms(1,3) w by (cases r) (simp_all add: race_good_def race_result_def Let_def)
qed

lemma race_advance:
  assumes "store_ops l = S" "ok (store l)" "all_chained ed (ents (store l))" "\<And>d. length (ents (store l) d) + 1 < max_slice"
    and "\<And>m es. adm m \<Longrightarrow> chained ed es \<Longrightarrow> storable (ChatID m) (next_entry es m)"
    and "racing ed adm (ents (store l)) p" "moves p"
  shows "race_good ed adm S ents ok p l (advance ed p l)"
proof -
  note same = race_good_same [where S = S and l = l and ents = ents and ok = ok, OF assms(1-3)]
  have name: "chat_name (ChatID m)" if "adm m" for m
    using storable_name assms(5) [OF that, of "[]"] by simp
  show ?thesis
  proof (cases p)
    case (P_Start now m)
    obtain k l1 where lock: "chatLock (ChatID m) l = (k, l1)"
      by fastforce
    then show ?thesis
      using chatLock_frame(1,2) [of "ChatID m" l] assms(6) P_Start
      by (auto simp: acceptable_def race_result_def intro!: same)
  next
    case (P_Locked now m k)
    then show ?thesis
      using race_Locked [OF assms(1-3) name] assms(6) by simp
  next
    case (P_Tip now m k h q)
    then show ?thesis
      using race_Tip [OF assms(1-4,5)] assms(6) by simp
  next
    case (P_Sealing now k e)
    then show ?thesis
      using assms(6) by (auto simp: race_result_def split: sum.split intro!: same)
  next
    case (P_From now k e f i)
    then obtain w where "EntriesSince S (ChatID (Message e)) f (store l) = Inr w" "set w \<subseteq> set (ents (store l) (ChatID (Message e)))"
      using entries_subset [OF assms(2) name, of "Message e" f] assms(6) by auto
    then show ?thesis
      using P_From assms(6) same [of adm "P_Window now k e f i w" l p] by (simp add: assms(1))
  next
    case (P_Window now k e f i w)
    then show ?thesis
      using race_Window [OF assms(1-3,5)] assms(6) by simp
  qed (use assms(6,7) in \<open>auto simp: race_result_def Let_def intro!: same\<close>)
qed

end

context shared_store
begin

lemma race_inv_inner:
  assumes inv: "race_inv ed adm S ents ok b s" and mv: "moves (pcs s t)"
    and adv: "advance ed (pcs s t) (shared s) = (p, l)" and small: "b + 1 < max_slice"
    and adm: "\<And>m es. adm m \<Longrightarrow> chained ed es \<Longrightarrow> storable (ChatID m) (next_entry es m)"
  shows "race_inv ed adm S ents ok (b + 1) (s\<lparr>shared := l, pcs := (pcs s)(t := p)\<rparr>)"
proof -
  have len: "length (ents (store (shared s)) d) + 1 < max_slice" for d
    using race_invD(4) [OF inv, of d] small by linarith
  have good: "race_good ed adm S ents ok (pcs s t) (shared s) (p, l)"
    using race_advance [OF race_invD(1-3) [OF inv] len adm race_invD(5) [OF inv] mv] adv by simp
  then have l: "store_ops l = S" "ok (store l)" "all_chained ed (ents (store l))"
    "\<And>d. prefix (ents (store (shared s)) d) (ents (store l) d)"
    "\<And>d. length (ents (store l) d) \<le> length (ents (store (shared s)) d) + 1" "racing ed adm (ents (store l)) p"
    "\<And>e. pc_entry p = Some e \<Longrightarrow> pc_entry (pcs s t) = Some e \<or> e \<notin> set (ents (store (shared s)) (ChatID (Message e)))"
    by (simp_all add: race_good_def)
  have "length (ents (store l) d) \<le> b + 1" for d
    using l(5) [of d] race_invD(4) [OF inv, of d] by simp
  moreover have "racing ed adm (ents (store l)) (pcs s t')" for t'
    by (rule racing_mono [OF race_invD(5) [OF inv] l(4)])
  moreover have fresh: "pc_entry (pcs s t') \<noteq> Some e" if "t' \<noteq> t" "pc_entry p = Some e" for t' e
    using l(7) [OF that(2)] race_invD(6) [OF inv, of t t' e] racing_entry [OF race_invD(5) [OF inv], of t' e] that(1) by auto
  moreover have "pc_entry (((pcs s)(t := p)) t2) \<noteq> Some e" if "t1 \<noteq> t2" "pc_entry (((pcs s)(t := p)) t1) = Some e" for t1 t2 e
    using that fresh [of t2 e] fresh [of t1 e] race_invD(6) [OF inv, of t1 t2 e] by (auto split: if_splits)
  ultimately show ?thesis
    unfolding race_inv_def using l(1-3,6) by simp
qed

lemma race_inv_move:
  assumes inv: "race_inv ed adm S ents ok b s" and p: "racing ed adm (ents (store (shared s))) p"
    and e: "\<And>e. pc_entry p = Some e \<Longrightarrow> pc_entry (pcs s t) = Some e"
  shows "race_inv ed adm S ents ok (b + 1) (s\<lparr>pcs := (pcs s)(t := p)\<rparr>)"
proof -
  have "pc_entry (((pcs s)(t := p)) t2) \<noteq> Some x" if "t1 \<noteq> t2" "pc_entry (((pcs s)(t := p)) t1) = Some x" for t1 t2 x
    using that e [of x] race_invD(6) [OF inv, of t1 t2 x] race_invD(6) [OF inv, of t2 t1 x] by (auto split: if_splits)
  then show ?thesis
    using inv p unfolding race_inv_def by (auto intro: le_SucI)
qed

lemma race_inv_step:
  assumes "race_inv ed adm S ents ok b s" "b + 1 < max_slice" "race_step ed adm s s'"
    and "\<And>m es. adm m \<Longrightarrow> chained ed es \<Longrightarrow> storable (ChatID m) (next_entry es m)"
  shows "race_inv ed adm S ents ok (b + 1) s'"
  using assms(3)
proof cases
  case (inner t p l)
  show ?thesis
    unfolding inner(1) by (rule race_inv_inner [OF assms(1) inner(2,3) assms(2,4)])
next
  case (enter t now m k)
  show ?thesis
    unfolding enter(1) using race_invD(5) [OF assms(1), of t] enter(2) by (intro race_inv_move [OF assms(1)]) simp_all
next
  case (leave t c k r)
  show ?thesis
    unfolding leave(1) using race_invD(5) [OF assms(1), of t] leave(2)
    by (intro race_inv_move [OF assms(1)]) (cases r; simp)+
next
  case (call t m now)
  show ?thesis
    unfolding call(1) using call(3) by (intro race_inv_move [OF assms(1)]) simp_all
next
  case (environment b' x lk)
  then show ?thesis
    using assms(1) unfolding race_inv_def by (auto intro: le_SucI)
qed

lemma race_reach_inv:
  assumes "race_reach ed adm l0 n s" "store_ops l0 = S" "ok (store l0)" "all_chained ed (ents (store l0))"
    and "\<And>c. length (ents (store l0) c) \<le> b" "b + n < max_slice"
    and "\<And>m es. adm m \<Longrightarrow> chained ed es \<Longrightarrow> storable (ChatID m) (next_entry es m)"
  shows "race_inv ed adm S ents ok (b + n) s"
  using assms(1,6)
proof induction
  case start
  then show ?case
    using assms(2-5) by (simp add: race_inv_def quiet_def)
next
  case (step n s s')
  then show ?case
    using race_inv_step [of ed adm "b + n" s s'] assms(7) by simp
qed

end

section \<open>Properties\<close>


lemma race_solo:
  assumes "race_reach ed adm l0 n s" "solo ed k (pcs s t, shared s) = (p, l)"
  shows "\<exists>n'\<le>n + k. race_reach ed adm l0 n' (s\<lparr>shared := l, pcs := (pcs s)(t := p)\<rparr>)"
  by (rule solo_closed [where P = "race_reach ed adm l0" and ed = ed, OF _ assms])
    (blast intro: race_reach.step race_step.inner)

text \<open>A free thread can run a whole call among the racing ones.\<close>

lemma race_Append:
  assumes "race_reach ed adm l0 n s" "finished (pcs s t)" "acceptable ed m" "adm m"
  shows "\<exists>n'\<le>n + 12. race_reach ed adm l0 n'
    (s\<lparr>shared := snd (Append ed now m (shared s)), pcs := (pcs s)(t := P_Done (fst (Append ed now m (shared s))))\<rparr>)"
proof -
  obtain k l1 where lock: "chatLock (ChatID m) (shared s) = (k, l1)"
    by fastforce
  let ?A = "Append_locked now m l1"
  have app: "Append ed now m (shared s) = ?A"
    using Append_accepts [OF assms(3), of now "shared s"] lock by simp
  let ?at = "\<lambda>l p. s\<lparr>shared := l, pcs := (pcs s)(t := p)\<rparr>"
  have "race_reach ed adm l0 (Suc n) (s\<lparr>pcs := (pcs s)(t := P_Start now m)\<rparr>)"
    using race_reach.step [OF assms(1) race_step.call [of s t adm m ed now]] assms(2,4) by simp
  then have s1: "race_reach ed adm l0 (Suc n) (?at (shared s) (P_Start now m))"
    by (cases s) simp
  have s2: "race_reach ed adm l0 (Suc (Suc n)) (?at l1 (P_Wait now m k))"
    using race_reach.step [OF s1 race_step.inner [of _ t ed "P_Wait now m k" l1]] assms(3) lock
    by (simp add: acceptable_def)
  have s3: "race_reach ed adm l0 (Suc (Suc (Suc n))) (?at l1 (P_Locked now m k))"
    using race_reach.step [OF s2 race_step.enter [of _ t now m k]] by simp
  obtain n' where n': "n' \<le> n + 11" "race_reach ed adm l0 n' (?at (snd ?A) (P_Unlock (ChatID m) k (fst ?A)))"
    using race_solo [OF s3, of 8 t] by (cases s) (auto simp: solo_Append_locked add.commute)
  have "race_reach ed adm l0 (Suc n') (?at (snd ?A) (P_Done (fst ?A)))"
    using race_reach.step [OF n'(2) race_step.leave [of _ t "ChatID m" k "fst ?A"]] by simp
  then show ?thesis
    using n'(1) unfolding app by (intro exI [of _ "Suc n'"]) simp
qed


section \<open>Snapshots race\<close>

context storage_port
begin

text \<open>The snapshot that a thread makes for the first 100 entries when the chat already has more.\<close>

lemma late_snapshot:
  assumes "store_ops l = S" "ok (store l)" "ents (store l) c = es @ fs" "1 < length es" "snaps (store l) c = []"
    and "storable c tip"
  obtains l' p where "snapshot now c tip l = (None, l')" "store_ops l' = S" "ok (store l')"
    "ents (store l') c = es @ fs" "snaps (store l') c = [p]" "FromSequence p = 0" "ToSequence p = Sequence tip"
    "MerkleRoot p = Root (map EntryHash (es @ fs))"
proof -
  let ?p = "\<lparr>snap_ChatID = c, SnapshotIndex = 0, FromSequence = 0, ToSequence = Sequence tip,
    MerkleRoot = Root (map EntryHash (es @ fs)), LastEntryHash = EntryHash tip, CreatedAt = now\<rparr>"
  have name: "chat_name c"
    using assms(6) by (rule storable_name)
  have "\<forall>ch\<in>set (MerkleRoot ?p). is_hex ch"
    using Root_hex [of "map EntryHash (es @ fs)"] assms(4) by simp
  then obtain s where s: "SaveSnapshot S ?p (store l) = (None, s)" "ok s" "ents s = ents (store l)"
    "snaps s = (snaps (store l))(c := [?p\<lparr>CreatedAt := stamp now\<rparr>])"
    using save_next [of "store l" ?p tip] assms(2,5,6) by (auto simp: max_slice_def)
  have step: "snapshot now c tip l =
      (None, publish \<lparr>Kind = SnapshotCreated, ev_ChatID = c, ev_Sequence = Sequence tip, ev_EntryHash = EntryHash tip\<rparr>
        (l\<lparr>store := s, cache := SetMerkleRoot (cache_ops l) c (Root (map EntryHash (es @ fs))) (cache l)\<rparr>))"
    using assms(1,3,5) latest_snapshot [OF assms(2) name] entries_since [OF assms(2) name, of 0] s(1)
    by (simp add: snapshot_def Let_def max_slice_def)
  show thesis
    using s assms(1,3) by (intro that [OF step, of "?p\<lparr>CreatedAt := stamp now\<rparr>"]) (simp_all add: publish_def)
qed

text \<open>Such a snapshot matches no recomputed root.\<close>

lemma late_proof:
  assumes "store_ops l = S" "ok (store l)" "chat_name c" "ents (store l) c = es @ fs" "length es = 100"
    and "snaps (store l) c = [p]" "FromSequence p = 0" "ToSequence p = 99" "unat i < 100"
    and "MerkleRoot p \<noteq> Root (map EntryHash es)"
  shows "ProveInclusion c i l = Inl (Errorf ''recomputed root does not match snapshot'')"
proof -
  have "i div SnapshotInterval = 0"
    using interval_div [of i] assms(9) by (simp add: word_unat_eq_iff)
  moreover have "sint (to_uint64 (unat i)) = int (unat i)"
    using assms(9) by (intro sint_to_uint64) (simp add: max_slice_def)
  then have "sint i = int (unat i)"
    by (simp add: to_uint64_def)
  moreover obtain pf where "Proof (map EntryHash es) (int (unat i)) = (pf, Root (map EntryHash es))"
    using Proof_spec [of "unat i" "map EntryHash es"] assms(5,9) by auto
  ultimately show ?thesis
    using assms(1,4-8,10) snapshot_at [OF assms(2,3), of 0] entries_since [OF assms(2,3), of 0]
    by (simp add: ProveInclusion_def Let_def max_slice_def)
qed

text \<open>
  Thread A has stored entry 99 on one node when a thread of another node appends entry 100; then A goes on.
\<close>

lemma snapshot_race:
  assumes A: "store_ops lA = S" "ok (store lA)" "ents (store lA) c = es" "length es = 100" "chained ed es"
      "last es = e" "ChatID (Message e) = c" "snaps (store lA) c = []" "storable c e"
    and B: "store_ops lB = S" "store lB = store lA" "acceptable ed m" "ChatID m = c" "storable c (next_entry es m)"
      "Append ed now' m lB = (r, lB')"
    and A': "solo ed 6 (P_Stored now k e, lA\<lparr>store := store lB'\<rparr>) = (p, lA')"
  shows "r = Inr (next_entry es m) \<and> p = P_Unlock c k (Inr e) \<and>
    (Root (map EntryHash (es @ [next_entry es m])) = Root (map EntryHash es) \<or>
     (\<forall>i. unat i < 100 \<longrightarrow> ProveInclusion c i lA' = Inl (Errorf ''recomputed root does not match snapshot'')))"
proof -
  let ?lB = "snd (chatLock c lB)" and ?e = "next_entry es m"
  have lB: "store_ops ?lB = S" "ok (store ?lB)" "ents (store ?lB) c = es"
    using A B by simp_all
  have small: "length es + 1 < max_slice"
    using A(4) by (simp add: max_slice_def)
  obtain s where s: "ok s" "snaps s = snaps (store ?lB)" "ents s = (ents (store ?lB))(c := es @ [?e])"
    "Append_locked now' m ?lB = (Inr ?e, publish (entry_event EntryAppended ?e) (?lB\<lparr>store := s\<rparr>))"
    by (rule Append_locked_steps [OF lB(1,2) A(5) small B(5) lB(3) B(4) refl, of now']) (use A(4) in simp)
  then have r: "r = Inr ?e" "store lB' = s"
    using B(6) Append_accepts [OF B(3), of now' lB] B(4) by auto
  have "es \<noteq> []"
    using A(4) by auto
  then have seq: "Sequence e + 1 = 100"
    using tip_sequence [OF A(5)] A(4,6) by (simp add: ulen_def to_uint64_def)
  let ?l2 = "publish \<lparr>Kind = EntryAppended, ev_ChatID = c, ev_Sequence = Sequence e, ev_EntryHash = EntryHash e\<rparr> (lA\<lparr>store := s\<rparr>)"
  obtain l3 q where l3: "snapshot now c e ?l2 = (None, l3)" "store_ops l3 = S" "ok (store l3)" "ents (store l3) c = es @ [?e]"
    "snaps (store l3) c = [q]" "FromSequence q = 0" "ToSequence q = Sequence e" "MerkleRoot q = Root (map EntryHash (es @ [?e]))"
    by (rule late_snapshot [of ?l2 c es "[?e]" e now]) (use A B s in simp_all)
  have six: "solo ed 6 (P_Stored now k e, lA\<lparr>store := s\<rparr>) = solo ed 5 (solo ed (Suc 0) (P_Stored now k e, lA\<lparr>store := s\<rparr>))"
    using solo_add [of ed 1 5 "(P_Stored now k e, lA\<lparr>store := s\<rparr>)"] by simp
  have "solo ed 6 (P_Stored now k e, lA\<lparr>store := s\<rparr>) = (P_Unlock c k (Inr e), l3)"
    using A(7) l3(1) seq unfolding six by (simp add: solo_Suc solo_snapshot Let_def SnapshotInterval_def)
  then have p: "p = P_Unlock c k (Inr e)" "lA' = l3"
    using A' r(2) by simp_all
  have "Sequence e = 99"
    using seq by simp
  then show ?thesis
    using r p late_proof [OF l3(2,3) storable_name [OF A(9)] l3(4) A(4) l3(5,6)] l3(7,8) by auto
qed

end


text \<open>Two nodes on one table, after the hundredth entry was stored and before it was sealed.\<close>

definition unsealed_node :: "(cql_tables, unit, nat) Log" where
  "unsealed_node = (scylla_demo 100)\<lparr>store := (store (scylla_demo 100))\<lparr>snapshot_part := \<lambda>c. []\<rparr>\<rparr>"


end
