(* ===== verification/Spec2Isabelle.thy ===== *)
theory Spec2Isabelle
  imports Cmd Cluster
begin

text \<open>
  Verification of a decentralized messenger node (Go, \<open>src/cmd\<close> and \<open>src/internal\<close>).

  \<^bold>\<open>The program.\<close> A node keeps one append-only log per chat. A client builds a message, signs it with
  Ed25519 and posts it; the node checks version and signature, chains the message to the previous
  entry with SHA-256, stores it, announces it, and seals every window of 100 entries with a Merkle
  root. Readers page through a chat, verify the whole chain or one entry, fetch inclusion proofs and
  catch-up bundles, and follow a chat over a WebSocket. Storage, cache and broker are interfaces with
  an in-memory and an external implementation each; \<open>main\<close> picks them from the environment and puts
  the HTTP server with its rate limit in front.

  \<^bold>\<open>Theories and sources.\<close>

  \<^item> \<open>Prelude\<close>: bytes, \<open>uint64\<close>, Go errors with wrapping (\<open>errors_Is\<close>), results as sums, self-delimiting
    encodings, shared list lemmas. \<open>Sha256\<close>, \<open>Go_Encoding\<close> (decimal, hex, base64, UTF-8, JSON strings),
    \<open>Go_Time\<close> (nanosecond times, RFC 3339), \<open>Go_Net\<close> (\<open>ParseUint\<close>, \<open>SplitHostPort\<close>) and \<open>Aes_Gcm\<close> are
    executable definitions of what the code uses of the Go library.
  \<^item> \<open>Models\<close> is \<open>internal/models\<close>: messages, entries, snapshots, \<open>SigningPayload\<close>, \<open>ComputeHash\<close>,
    \<open>formatUint\<close>. Payload and hash bind every field; the decimal loop stays within its buffer.
  \<^item> \<open>Merkle\<close> is \<open>internal/merkle\<close>: roots, proofs and their check, with completeness and soundness.
  \<^item> \<open>Keys\<close> and \<open>Encrypt\<close> are \<open>internal/crypto\<close>: signing and verification over a scheme that is an argument;
    AES-256-GCM encryption with its inverse.
  \<^item> \<open>Storage\<close>, \<open>Cache\<close>, \<open>Broker\<close> are the three interfaces as records of methods, their contracts as the
    locales \<open>storage_port\<close> (with the extension \<open>strict_storage_port\<close>), \<open>cache_port\<close> and \<open>broker_port\<close>,
    and the in-memory implementations as interpretations. Channels have their closing and blocking rules.
  \<^item> \<open>Scylla\<close>, \<open>Redis\<close>, \<open>Rabbitmq\<close> are the external adapters. A driver is a record of functions; what
    its documentation promises is a locale (\<open>cql\<close>, \<open>redis\<close>, \<open>reliable_redis\<close>) that holds for a concrete
    table. A \<open>sublocale\<close> shows that the adapter fulfils the interface's contract on every such driver.
    \<open>Scylla_Node\<close> shows that nodes on both stores answer alike, and where the column types break that.
  \<^item> \<open>Chatlog\<close> is \<open>internal/chatlog/log.go\<close>, every operation over arbitrary adapters. \<open>Chatlog_Spec\<close> holds
    the specification: chained entries, sealed windows, and the abstract log that \<open>Append\<close> refines.
    \<open>Chatlog_Props\<close> proves the operations once over \<open>storage_port\<close>, then states them for reachable
    nodes; \<open>Chatlog_Faults\<close> covers the mutex per chat and failing stores; \<open>Node\<close> covers log, cache, broker
    and clients together.
  \<^item> \<open>Concurrency\<close> splits \<open>Append\<close> into its atomic steps (each at most one call into a port) and lets any number
    of threads interleave, with the mutex per chat; a thread alone computes \<open>Append\<close>. \<open>Concurrency_Props\<close>
    shows that readers always see valid chains, that no accepted message is lost, and that every call
    ends. \<open>Cluster\<close> drops the mutexes, as for several nodes on one ScyllaDB: the conditional insert keeps
    the chains, and the snapshots are not safe.
  \<^item> \<open>Service\<close> is \<open>internal/service\<close>. \<open>Ratelimit\<close> is \<open>internal/ratelimit\<close>, over a token bucket with the
    documented behaviour of \<open>golang.org/x/time/rate\<close>.
  \<^item> \<open>Api\<close> is \<open>internal/api/server.go\<close>: every handler, the routing table and the middleware, as functions
    from a request and the service to a response and the service. \<open>Api_Props\<close> proves what clients see.
  \<^item> \<open>Cmd\<close> is \<open>cmd/messenger/main.go\<close>: the choice of adapters, the assembly, the demonstration, the body
    limit and the shutdown.

  \<^bold>\<open>State.\<close> A \<open>Log\<close> is a record of three adapters (methods and state) and the table of mutexes, a
  \<open>Messenger\<close> wraps a \<open>Log\<close>, a \<open>Server\<close> wraps a \<open>Messenger\<close> and an optional \<open>Limiter\<close>. An operation that
  changes state returns the new record; errors and panics are values. A node is \<open>reachable\<close> when it
  results from a fresh one by any sequence of appends, subscriptions and cancellations. The sequential
  theories take a call as one step, as the mutex of its chat makes it; \<open>Concurrency\<close> justifies that.

  \<^bold>\<open>Bounds.\<close> Sequence numbers are 64-bit words and wrap as in Go. A Go slice has fewer than 2 to the 63
  elements (\<open>max_slice\<close>), and the theorems on reachable nodes ask for fewer calls than that; at that
  length indices, signed conversions and window arithmetic do not overflow. The theorems on interleavings
  count steps instead, since \<open>n\<close> steps store at most \<open>n\<close> entries. No definition uses fuel: loops
  are structural or have a termination proof. The client \<open>walk\<close> through the history has a number of pages as
  its bound, and the theorem gives the number that is enough.

  \<^bold>\<open>Parameters.\<close> Ed25519, the ScyllaDB, Redis and RabbitMQ drivers, the token bucket, the JSON decoder of
  request bodies and queue messages, the WebSocket upgrade, clock readings, randomness, the
  environment and the order in which a map is iterated are arguments. Cryptographic statements
  carry no assumption on SHA-256: they exhibit a collision or a second accepted payload instead.

  \<^bold>\<open>Not modelled.\<close> The bytes of JSON replies, path cleaning in the mux, connection handling and time-outs
  inside \<open>net/http\<close>, the parsing of the command line, signal delivery and log output: library code or pure
  input and output. The browser client under \<open>src/web\<close> is a separate TypeScript program.
\<close>

end
